(* ===== verification/Prelude.thy ===== *)
theory Prelude
  imports Main "HOL-Library.Word" "HOL-Library.List_Lexorder" "HOL-Library.Char_ord"
begin

text \<open>
  Shared ground of the development: the names of the machine types, the wrap-around of a
  signed 64-bit integer (Go's \<open>int\<close>, \<open>int64\<close> and \<open>time.Duration\<close>), and the generic list
  lemmas that several components use.  The collection \<open>go_simps\<close> gathers the equations that
  the component proofs unfold together.
\<close>

named_theorems go_simps \<open>equations of the Go standard library models\<close>

type_synonym u64 = "64 word"
type_synonym u32 = "32 word"

section \<open>Signed 64-bit integers\<close>

text \<open>
  A signed 64-bit value is kept as an \<open>int\<close> in \<open>[-2^63, 2^63)\<close>; the result of an arithmetic
  operation that may leave the range is wrapped back by \<open>i64\<close>, as Go's two's complement does.
\<close>

definition i64 :: "int \<Rightarrow> int" where
  "i64 x = (x + 9223372036854775808) mod 18446744073709551616 - 9223372036854775808"

lemma i64_id [simp]:
  "- 9223372036854775808 \<le> x \<Longrightarrow> x < 9223372036854775808 \<Longrightarrow> i64 x = x"
  by (simp add: i64_def)

lemma i64_range: "- 9223372036854775808 \<le> i64 x \<and> i64 x < 9223372036854775808"
proof -
  have "0 \<le> (x + 9223372036854775808) mod 18446744073709551616"
    and "(x + 9223372036854775808) mod 18446744073709551616 < 18446744073709551616"
    by simp_all
  then show ?thesis unfolding i64_def by linarith
qed

lemma i64_idem [simp]: "i64 (i64 x) = i64 x"
  using i64_range [of x] by simp

section \<open>Lists\<close>

lemma filter_not_in_self [simp]: "filter (\<lambda>x. x \<notin> set xs) xs = []"
  by (simp add: filter_empty_conv)

lemma distinct_filter_take:
  assumes "distinct xs"
  shows "filter (\<lambda>x. x \<notin> set (take n xs)) xs = drop n xs"
proof -
  have "filter (\<lambda>x. x \<notin> set (take n xs)) (take n xs @ drop n xs) = drop n xs"
    using assms set_take_disj_set_drop_if_distinct [OF assms, of n n]
    by (simp only: filter_append filter_not_in_self append_Nil)
      (auto simp: filter_id_conv)
  then show ?thesis by simp
qed

lemma sum_list_drop_le:
  fixes xs :: "int list"
  assumes "\<forall>x\<in>set xs. 0 \<le> x"
  shows "sum_list (drop n xs) \<le> sum_list xs"
proof -
  have "sum_list xs = sum_list (take n xs) + sum_list (drop n xs)"
    by (metis append_take_drop_id sum_list_append)
  moreover have "0 \<le> sum_list (take n xs)"
    using assms by (intro sum_list_nonneg) (meson in_set_takeD)
  ultimately show ?thesis by simp
qed

end
