(* ===== verification/Float64.thy ===== *)
theory Float64
  imports Complex_Main Prelude
begin

text \<open>
  IEEE-754 binary64, the type of Go's \<open>float64\<close>, as an executable model: a finite value is its
  rational number, and every arithmetic operation is the exact rational operation followed by
  one rounding to nearest, ties to even, with gradual underflow and overflow to infinity.
  The two signed zeros are one value (the code never divides by zero, and a comparison does
  not tell them apart).

  \<open>rne\<close> rounds to an integer, \<open>binexp\<close> is the binary exponent, \<open>rnd\<close> rounds to 53 significant
  bits, \<open>fl\<close> adds the overflow.  The lemmas show that \<open>rnd\<close> is monotone, fixes the
  representable numbers, and has a relative error of at most \<open>2^-53\<close>.
\<close>

section \<open>Rounding\<close>

definition rne :: "rat \<Rightarrow> int" where
  "rne x = (let f = \<lfloor>x\<rfloor>; d = x - of_int f in
     if d < 1/2 then f else if 1/2 < d then f + 1 else if even f then f else f + 1)"

function ilog2 :: "int \<Rightarrow> int" where
  "ilog2 p = (if p \<le> 1 then 0 else 1 + ilog2 (p div 2))"
  by pat_completeness auto
termination
  by (relation "measure nat") auto

declare ilog2.simps [simp del]

definition binexp :: "rat \<Rightarrow> int" where
  "binexp x = (let (p, q) = quotient_of \<bar>x\<bar>; e = ilog2 p - ilog2 q
               in if 2 powi e \<le> \<bar>x\<bar> then e else e - 1)"

definition ulp :: "rat \<Rightarrow> rat" where
  "ulp x = 2 powi (max (binexp x) (-1022) - 52)"

definition rnd :: "rat \<Rightarrow> rat" where
  "rnd x = (if x = 0 then 0 else of_int (rne (x / ulp x)) * ulp x)"

subsection \<open>Rounding to an integer\<close>

lemma of_int_le_numeral: "m \<le> numeral k \<Longrightarrow> (of_int m :: rat) \<le> numeral k"
  by (metis of_int_le_iff of_int_numeral)

lemma of_int_less_numeral: "m < numeral k \<Longrightarrow> (of_int m :: rat) < numeral k"
  by (metis of_int_less_iff of_int_numeral)

lemma numeral_le_of_int: "numeral k \<le> m \<Longrightarrow> (numeral k :: rat) \<le> of_int m"
  by (metis of_int_le_iff of_int_numeral)

lemma rne_of_int [simp]: "rne (of_int k) = k"
  by (simp add: rne_def)

lemma rne_bounds: "of_int (rne x) \<le> x + 1/2" "x - 1/2 \<le> of_int (rne x)"
proof -
  have "of_int \<lfloor>x\<rfloor> \<le> x" "x < of_int \<lfloor>x\<rfloor> + 1"
    by linarith+
  then show "of_int (rne x) \<le> x + 1/2" "x - 1/2 \<le> of_int (rne x)"
    by (simp_all add: rne_def Let_def) linarith+
qed

lemma rne_mono: "x \<le> y \<Longrightarrow> rne x \<le> rne y"
proof -
  assume le: "x \<le> y"
  then have f: "\<lfloor>x\<rfloor> \<le> \<lfloor>y\<rfloor>" by (rule floor_mono)
  show ?thesis
  proof (cases "\<lfloor>x\<rfloor> = \<lfloor>y\<rfloor>")
    case True
    with le show ?thesis by (auto simp: rne_def Let_def)
  next
    case False
    with f have "\<lfloor>x\<rfloor> + 1 \<le> \<lfloor>y\<rfloor>" by simp
    then show ?thesis by (auto simp: rne_def Let_def)
  qed
qed

lemma rne_le_of_int: "y \<le> of_int k \<Longrightarrow> rne y \<le> k"
  by (metis rne_mono rne_of_int)

lemma rne_ge_of_int: "of_int k \<le> y \<Longrightarrow> k \<le> rne y"
  by (metis rne_mono rne_of_int)

lemma rne_minus: "rne (- x) = - rne x"
proof (cases "of_int \<lfloor>x\<rfloor> = x")
  case True
  then obtain k where "x = of_int k" by metis
  then show ?thesis by (metis of_int_minus rne_of_int)
next
  case False
  then have c: "\<lfloor>- x\<rfloor> = - \<lfloor>x\<rfloor> - 1"
    by (metis ceiling_altdef ceiling_def minus_minus diff_minus_eq_add minus_diff_eq uminus_add_conv_diff minus_add_distrib)
  show ?thesis by (auto simp: rne_def Let_def c)
qed

subsection \<open>The binary exponent\<close>

lemma powi_le [simp]: "(2::rat) powi a \<le> 2 powi b \<longleftrightarrow> a \<le> b"
  by (metis linorder_not_le one_less_numeral_iff power_int_increasing power_int_strict_increasing
      order_less_imp_le semiring_norm(76))

lemma powi_less [simp]: "(2::rat) powi a < 2 powi b \<longleftrightarrow> a < b"
  by (simp add: less_le_not_le)

lemma powi_pos [simp]: "0 < (2::rat) powi a" and powi_nz [simp]: "(2::rat) powi a \<noteq> 0"
  by (simp_all)

lemma powi_add: "(2::rat) powi (a + b) = 2 powi a * 2 powi b"
  by (simp add: power_int_add)

lemma powi_diff: "(2::rat) powi (a - b) = 2 powi a / 2 powi b"
  by (simp add: power_int_diff)

lemma ilog2_nonneg: "0 \<le> ilog2 p"
  by (induction p rule: ilog2.induct) (subst ilog2.simps, auto)

lemma ilog2_bounds:
  "0 < p \<Longrightarrow> 2 powi (ilog2 p) \<le> (of_int p :: rat) \<and> (of_int p :: rat) < 2 powi (ilog2 p + 1)"
proof (induction p rule: ilog2.induct)
  case (1 p)
  show ?case
  proof (cases "p \<le> 1")
    case True
    with "1.prems" show ?thesis by (simp add: ilog2.simps [of p])
  next
    case False
    then have IH: "2 powi (ilog2 (p div 2)) \<le> (of_int (p div 2) :: rat)"
      "(of_int (p div 2) :: rat) < 2 powi (ilog2 (p div 2) + 1)"
      using "1.IH" by auto
    have e: "ilog2 p = ilog2 (p div 2) + 1" using False by (simp add: ilog2.simps [of p])
    have "2 * (p div 2) \<le> p" by presburger
    then have d: "2 * (of_int (p div 2) :: rat) \<le> of_int p"
      by (metis of_int_le_iff of_int_mult of_int_numeral)
    from IH(1) d have "2 powi (ilog2 p) \<le> (of_int p :: rat)"
      by (simp only: e powi_add) simp
    moreover have "of_int p < (2 powi (ilog2 p + 1) :: rat)"
    proof -
      have "0 \<le> ilog2 (p div 2) + 1" using ilog2_nonneg [of "p div 2"] by simp
      then obtain n where n: "ilog2 (p div 2) + 1 = int n" using nonneg_int_cases by blast
      from IH(2) have "of_int (p div 2) < (of_int (2 ^ n) :: rat)" by (simp add: n)
      then have "p div 2 < 2 ^ n" by (simp only: of_int_less_iff)
      then have "p < 2 * 2 ^ n" by presburger
      then have "of_int p < (of_int (2 * 2 ^ n) :: rat)" by (simp only: of_int_less_iff)
      also have "\<dots> = 2 powi (ilog2 p + 1)" by (simp add: e n power_int_add)
      finally show ?thesis .
    qed
    ultimately show ?thesis ..
  qed
qed

lemma binexp_bounds:
  assumes "x \<noteq> 0"
  shows "2 powi (binexp x) \<le> \<bar>x\<bar>" and "\<bar>x\<bar> < 2 powi (binexp x + 1)"
proof -
  obtain p q where pq: "quotient_of \<bar>x\<bar> = (p, q)" by fastforce
  then have q: "0 < q" by (rule quotient_of_denom_pos)
  have x: "\<bar>x\<bar> = of_int p / of_int q" using pq by (rule quotient_of_div)
  have p: "0 < p"
    using assms q x by (metis abs_le_zero_iff divide_nonpos_pos linorder_not_le of_int_0_less_iff of_int_le_0_iff)
  let ?a = "ilog2 p" and ?b = "ilog2 q"
  note P = ilog2_bounds [OF p] and Q = ilog2_bounds [OF q]
  have q': "(0::rat) < of_int q" using q by simp
  have up: "\<bar>x\<bar> < 2 powi (?a - ?b + 1)"
  proof -
    have "of_int p / of_int q < 2 powi (?a + 1) / (of_int q :: rat)"
      using conjunct2 [OF P] q' by (rule divide_strict_right_mono)
    also have "\<dots> \<le> 2 powi (?a + 1) / 2 powi ?b"
      using conjunct1 [OF Q] q' by (intro divide_left_mono mult_pos_pos) auto
    also have "\<dots> = 2 powi (?a + 1 - ?b)" by (simp only: powi_diff)
    also have "?a + 1 - ?b = ?a - ?b + 1" by simp
    finally show ?thesis using x by simp
  qed
  have lo: "2 powi (?a - ?b - 1) \<le> \<bar>x\<bar>"
  proof -
    have "?a - ?b - 1 = ?a - (?b + 1)" by simp
    then have "2 powi (?a - ?b - 1) = 2 powi ?a / (2 powi (?b + 1) :: rat)"
      by (simp only: powi_diff)
    also have "\<dots> \<le> of_int p / 2 powi (?b + 1)"
      using conjunct1 [OF P] by (intro divide_right_mono) auto
    also have "\<dots> \<le> of_int p / of_int q"
      using conjunct2 [OF Q] p q' by (intro divide_left_mono mult_pos_pos) auto
    finally show ?thesis using x by simp
  qed
  show "2 powi (binexp x) \<le> \<bar>x\<bar>" and "\<bar>x\<bar> < 2 powi (binexp x + 1)"
    using up lo by (auto simp: binexp_def Let_def pq)
qed

lemma binexp_unique:
  assumes "2 powi e \<le> \<bar>x\<bar>" and "\<bar>x\<bar> < 2 powi (e + 1)"
  shows "binexp x = e"
proof -
  have "x \<noteq> 0" using assms(1) by (metis abs_zero linorder_not_le powi_pos)
  note b = binexp_bounds [OF this]
  from b(1) assms(2) have "2 powi binexp x < (2::rat) powi (e + 1)" by linarith
  moreover from assms(1) b(2) have "2 powi e < (2::rat) powi (binexp x + 1)" by linarith
  ultimately show ?thesis by simp
qed

lemma binexp_mono: "x \<noteq> 0 \<Longrightarrow> \<bar>x\<bar> \<le> \<bar>y\<bar> \<Longrightarrow> binexp x \<le> binexp y"
proof -
  assume x: "x \<noteq> 0" and le: "\<bar>x\<bar> \<le> \<bar>y\<bar>"
  then have y: "y \<noteq> 0" by auto
  have "(2::rat) powi binexp x < 2 powi (binexp y + 1)"
    using binexp_bounds(1) [OF x] binexp_bounds(2) [OF y] le by linarith
  then show ?thesis by simp
qed

lemma binexp_minus [simp]: "binexp (- x) = binexp x"
  by (simp add: binexp_def)

lemma binexp_powi [simp]: "binexp (2 powi e) = e"
  by (rule binexp_unique) simp_all

subsection \<open>Representable numbers\<close>

definition representable :: "rat \<Rightarrow> bool" where
  "representable x \<longleftrightarrow> (\<exists>m k. x = of_int m * 2 powi k \<and> \<bar>m\<bar> < 9007199254740992 \<and> - 1074 \<le> k)"

lemma representableI:
  assumes "\<bar>m\<bar> \<le> 9007199254740992" and "- 1074 \<le> k"
  shows "representable (of_int m * 2 powi k)"
proof (cases "\<bar>m\<bar> = 9007199254740992")
  case True
  then have "m = 9007199254740992 \<or> m = - 9007199254740992" by linarith
  then have "of_int m * 2 powi k = (of_int (m div 2) * 2 powi (k + 1) :: rat) \<and> \<bar>m div 2\<bar> < 9007199254740992"
    by (auto simp: powi_add)
  with assms(2) show ?thesis unfolding representable_def by (intro exI [of _ "m div 2"] exI [of _ "k + 1"]) auto
next
  case False
  with assms show ?thesis unfolding representable_def by (intro exI [of _ m] exI [of _ k]) auto
qed

lemma representable_of_int: "\<bar>m\<bar> \<le> 9007199254740992 \<Longrightarrow> representable (of_int m)"
  using representableI [of m 0] by simp

lemma representable_powi: "- 1074 \<le> k \<Longrightarrow> representable (2 powi k)"
  using representableI [of 1 k] by simp

lemma representable_minus: "representable x \<Longrightarrow> representable (- x)"
proof -
  assume "representable x"
  then obtain m k where "x = of_int m * 2 powi k" "\<bar>m\<bar> < 9007199254740992" "- 1074 \<le> k"
    unfolding representable_def by blast
  then show ?thesis unfolding representable_def
    by (intro exI [of _ "- m"] exI [of _ k]) simp
qed

lemma ulp_pos [simp]: "0 < ulp x"
  by (simp add: ulp_def)

lemma ulp_nz [simp]: "ulp x \<noteq> 0"
  by (simp add: ulp_def)

lemma ulp_minus [simp]: "ulp (- x) = ulp x"
  by (simp add: ulp_def)

lemma powi_53 [simp]: "(2::rat) powi 53 = 9007199254740992"
  by simp

lemma scaled_bound:
  assumes "x \<noteq> 0"
  shows "\<bar>x / ulp x\<bar> < 9007199254740992"
proof -
  have "\<bar>x\<bar> < 2 powi (binexp x + 1)" using assms by (rule binexp_bounds)
  also have "(2::rat) powi (binexp x + 1) \<le> 2 powi (53 + (max (binexp x) (- 1022) - 52))" by simp
  also have "\<dots> = 9007199254740992 * ulp x" by (simp only: powi_add powi_53 ulp_def)
  finally show ?thesis by (simp add: abs_divide pos_divide_less_eq)
qed

lemma rne_abs_bound: "\<bar>y\<bar> \<le> of_int k \<Longrightarrow> \<bar>rne y\<bar> \<le> k"
  using rne_le_of_int [of y k] rne_ge_of_int [of "- k" y] by (simp add: abs_le_iff)

lemma rne_scaled_bound: "x \<noteq> 0 \<Longrightarrow> \<bar>rne (x / ulp x)\<bar> \<le> 9007199254740992"
  by (rule rne_abs_bound) (use scaled_bound [of x] in simp)

lemma rnd_0 [simp]: "rnd 0 = 0"
  by (simp add: rnd_def)

lemma representable_0 [simp]: "representable 0"
  using representable_of_int [of 0] by simp

lemma representable_rnd: "representable (rnd x)"
proof (cases "x = 0")
  case False
  then show ?thesis
    unfolding rnd_def ulp_def using rne_scaled_bound [of x]
    by (simp add: ulp_def) (rule representableI; simp add: ulp_def)
qed simp

lemma rnd_representable:
  assumes "representable x"
  shows "rnd x = x"
proof (cases "x = 0")
  case False
  from assms obtain m k where x: "x = of_int m * 2 powi k"
    and m: "\<bar>m\<bar> < 9007199254740992" and k: "- 1074 \<le> k"
    unfolding representable_def by blast
  have "(2::rat) powi binexp x \<le> \<bar>x\<bar>" using False by (rule binexp_bounds)
  also have "\<bar>x\<bar> = of_int \<bar>m\<bar> * 2 powi k" by (simp add: x abs_mult)
  also have "\<dots> < 9007199254740992 * 2 powi k"
    using of_int_less_numeral [OF m] by (intro mult_strict_right_mono) simp_all
  also have "\<dots> = 2 powi (53 + k)" by (simp only: powi_add powi_53)
  finally have j: "max (binexp x) (- 1022) - 52 \<le> k" using k by simp
  let ?j = "max (binexp x) (- 1022) - 52"
  have "x / ulp x = of_int m * 2 powi (k - ?j)"
    unfolding ulp_def x powi_diff by simp
  also have "\<dots> = of_int (m * 2 ^ nat (k - ?j))"
    using j by (simp add: power_int_nonneg_exp)
  finally have "x / ulp x = of_int (m * 2 ^ nat (k - ?j))" .
  then have "of_int (rne (x / ulp x)) = x / ulp x" by (simp only: rne_of_int)
  then show ?thesis using False by (simp add: rnd_def)
qed simp

lemma rnd_minus: "rnd (- x) = - rnd x"
  by (simp add: rnd_def rne_minus)

lemma rnd_nonneg: "0 \<le> x \<Longrightarrow> 0 \<le> rnd x"
proof -
  assume "0 \<le> x"
  then have "0 \<le> rne (x / ulp x)"
    by (intro rne_ge_of_int) (simp add: zero_le_divide_iff less_imp_le)
  then show ?thesis by (simp add: rnd_def less_imp_le)
qed

lemma rnd_mono_pos:
  assumes "0 < x" and "x \<le> y"
  shows "rnd x \<le> rnd y"
proof (cases "ulp x = ulp y")
  case True
  have "rne (x / ulp x) \<le> rne (y / ulp x)"
    using assms by (intro rne_mono divide_right_mono) (simp_all add: less_imp_le)
  with True assms show ?thesis by (simp add: rnd_def mult_right_mono less_imp_le)
next
  case False
  have bxy: "binexp x \<le> binexp y" using assms by (intro binexp_mono) auto
  let ?a = "max (binexp x) (- 1022)" and ?b = "max (binexp y) (- 1022)"
  have ab: "?a < ?b" using bxy False unfolding ulp_def by (cases "?a = ?b") auto
  have "of_int (rne (x / ulp x)) \<le> (9007199254740992 :: rat)"
    using rne_scaled_bound [of x] assms by (intro of_int_le_numeral) auto
  then have "rnd x \<le> 9007199254740992 * ulp x"
    using assms by (simp add: rnd_def mult_right_mono less_imp_le)
  also have "\<dots> = 2 powi (?a + 1)"
    unfolding ulp_def powi_53 [symmetric] by (simp only: powi_add [symmetric]) (simp add: add.commute)
  also have "\<dots> \<le> 2 powi ?b" using ab by (simp only: powi_le)
  also have "\<dots> \<le> rnd y"
  proof -
    have b: "?b = binexp y" using ab by linarith
    have "of_int (4503599627370496) = 2 powi ?b / ulp y"
      unfolding ulp_def by (simp flip: powi_diff)
    also have "\<dots> \<le> y / ulp y"
      using binexp_bounds(1) [of y] assms unfolding b by (intro divide_right_mono) (auto simp: less_imp_le)
    finally have "4503599627370496 \<le> rne (y / ulp y)" by (rule rne_ge_of_int)
    then have "4503599627370496 * ulp y \<le> rnd y"
      using assms numeral_le_of_int by (simp add: rnd_def mult_right_mono less_imp_le)
    moreover have "4503599627370496 * ulp y = 2 powi ?b"
      unfolding ulp_def powi_diff by simp
    ultimately show ?thesis by simp
  qed
  finally show ?thesis .
qed

lemma rnd_mono:
  assumes "x \<le> y"
  shows "rnd x \<le> rnd y"
proof -
  consider "0 < x" | "x \<le> 0" "0 \<le> y" | "y < 0" using assms by linarith
  then show ?thesis
  proof cases
    case 1
    then show ?thesis using assms by (rule rnd_mono_pos)
  next
    case 2
    then have "rnd x \<le> 0" using rnd_nonneg [of "- x"] by (simp add: rnd_minus)
    also have "0 \<le> rnd y" using 2 by (simp add: rnd_nonneg)
    finally show ?thesis .
  next
    case 3
    then have "rnd (- y) \<le> rnd (- x)" using assms by (intro rnd_mono_pos) auto
    then show ?thesis by (simp add: rnd_minus)
  qed
qed

definition eta :: rat where "eta = 2 powi (- 1075)"

lemma eta_nonneg [simp]: "0 \<le> eta"
  by (simp add: eta_def less_imp_le)

lemma eta_le: "eta \<le> 1 / 9007199254740992"
proof -
  have "eta \<le> 2 powi (- 53)" unfolding eta_def by (simp only: powi_le)
  then show ?thesis by (simp add: power_int_minus_divide)
qed

lemma rnd_error: "\<bar>rnd x - x\<bar> \<le> \<bar>x\<bar> / 9007199254740992 + eta"
proof (cases "x = 0")
  case False
  have "\<bar>of_int (rne (x / ulp x)) - x / ulp x\<bar> \<le> 1/2"
    using rne_bounds [of "x / ulp x"] by linarith
  then have "\<bar>of_int (rne (x / ulp x)) - x / ulp x\<bar> * ulp x \<le> 1/2 * ulp x"
    by (intro mult_right_mono) (simp_all add: less_imp_le)
  moreover have "\<bar>of_int (rne (x / ulp x)) - x / ulp x\<bar> * ulp x = \<bar>rnd x - x\<bar>"
    using False by (simp add: rnd_def abs_mult_pos less_imp_le left_diff_distrib)
  ultimately have e: "\<bar>rnd x - x\<bar> \<le> 1/2 * ulp x" by simp
  show ?thesis
  proof (cases "- 1022 \<le> binexp x")
    case True
    then have "1/2 * ulp x = 2 powi (binexp x) / 9007199254740992"
      unfolding ulp_def powi_diff by simp
    also have "\<dots> \<le> \<bar>x\<bar> / 9007199254740992"
      using binexp_bounds(1) [OF False] by (intro divide_right_mono) auto
    finally show ?thesis using e eta_nonneg by linarith
  next
    case b: False
    have "1/2 * ulp x = 2 powi (- 1) * 2 powi (- 1074)"
      using b by (simp add: ulp_def)
    also have "\<dots> = eta" unfolding eta_def by (simp flip: powi_add)
    finally have "1/2 * ulp x = eta" .
    then show ?thesis using e by (simp add: add_increasing)
  qed
qed simp

section \<open>The interface the metrics rely on\<close>

text \<open>
  What a client of the arithmetic uses is not the bit layout but five laws of rounding: it is
  monotone, it lands on representable numbers, it fixes them, small integers are among them,
  and it is within half a unit in the last place.
\<close>

locale rounding =
  fixes rd :: "rat \<Rightarrow> rat" and rep :: "rat \<Rightarrow> bool"
  assumes mono: "x \<le> y \<Longrightarrow> rd x \<le> rd y"
    and rep_rd: "rep (rd x)"
    and rd_rep: "rep x \<Longrightarrow> rd x = x"
    and rep_int: "\<bar>k\<bar> \<le> 9007199254740992 \<Longrightarrow> rep (of_int k)"
    and error: "\<bar>rd x - x\<bar> \<le> \<bar>x\<bar> / 9007199254740992 + eta"
begin

lemma rd_rd: "rd (rd x) = rd x"
  by (rule rd_rep) (rule rep_rd)

lemma rd_le: "rep b \<Longrightarrow> x \<le> b \<Longrightarrow> rd x \<le> b"
  using mono [of x b] rd_rep [of b] by simp

lemma rd_ge: "rep a \<Longrightarrow> a \<le> x \<Longrightarrow> a \<le> rd x"
  using mono [of a x] rd_rep [of a] by simp

lemma rd_of_int: "\<bar>k\<bar> \<le> 9007199254740992 \<Longrightarrow> rd (of_int k) = of_int k"
  by (rule rd_rep) (rule rep_int)

lemma rep_numerals: "rep 0" "rep 1" "rep 100"
  using rep_int [of 0] rep_int [of 1] rep_int [of 100] by simp_all

lemma rd_0: "rd 0 = 0"
  using rd_of_int [of 0] by simp

lemma rd_nonneg: "0 \<le> x \<Longrightarrow> 0 \<le> rd x"
  by (rule rd_ge) (rule rep_numerals)

lemma rd_quot_le_1: "0 \<le> x \<Longrightarrow> x \<le> y \<Longrightarrow> rd (x / y) \<le> 1"
  by (rule rd_le [OF rep_numerals(2)]) (auto simp: divide_le_eq_1)

text \<open>A rounded quotient of rounded operands, scaled to a percentage, stays a percentage.\<close>

lemma percentage:
  assumes "0 \<le> x" and "x \<le> y"
  shows "0 \<le> rd (rd (rd x / rd y) * 100)" and "rd (rd (rd x / rd y) * 100) \<le> 100"
proof -
  have q: "0 \<le> rd (rd x / rd y)" "rd (rd x / rd y) \<le> 1"
    using assms rd_nonneg [of x] mono [of x y]
    by (auto intro!: rd_nonneg rd_quot_le_1)
  then show "0 \<le> rd (rd (rd x / rd y) * 100)" by (intro rd_nonneg) simp
  from q show "rd (rd (rd x / rd y) * 100) \<le> 100" by (intro rd_le rep_numerals) simp
qed

text \<open>Rounding a value of known size: the error in units of \<open>2^-53\<close>.\<close>

lemma error_upto: "\<bar>x\<bar> \<le> b \<Longrightarrow> \<bar>rd x - x\<bar> \<le> (b + 1) / 9007199254740992"
  using error [of x] eta_le by (simp add: field_simps)

lemma rd_rel:
  assumes "1 \<le> x"
  shows "x * (1 - 2 / 9007199254740992) \<le> rd x" and "rd x \<le> x * (1 + 2 / 9007199254740992)"
proof -
  have "eta \<le> x / 9007199254740992" using eta_le assms by (simp add: field_simps)
  with error [of x] assms have "\<bar>rd x - x\<bar> \<le> x * (2 / 9007199254740992)" by simp
  then show "x * (1 - 2 / 9007199254740992) \<le> rd x"
    and "rd x \<le> x * (1 + 2 / 9007199254740992)"
    unfolding distrib_left right_diff_distrib mult_1_right by linarith+
qed

lemma quotient_error:
  assumes "1 \<le> x" and "x \<le> y"
  shows "\<bar>rd x / rd y - x / y\<bar> \<le> 5 / 9007199254740992"
proof -
  define t where "t = x / y"
  have y: "1 \<le> y" "0 < y" using assms by auto
  have t: "0 \<le> t" "t \<le> 1" using assms by (auto simp: t_def divide_le_eq_1)
  have t5: "t * (5 / 9007199254740992) \<le> 5 / 9007199254740992"
    using mult_right_mono [OF t(2), of "5 / 9007199254740992"] by simp
  note X = rd_rel [OF assms(1)] and Y = rd_rel [OF y(1)]
  have "0 < y * (1 - 2 / 9007199254740992)" using y by simp
  with Y(1) have Yp: "0 < rd y" by (rule order_less_le_trans [rotated])
  have "rd x / rd y \<le> (x * (1 + 2 / 9007199254740992)) / (y * (1 - 2 / 9007199254740992))"
    using X Y y assms by (intro frac_le mult_pos_pos) auto
  also have "\<dots> = t * ((1 + 2 / 9007199254740992) / (1 - 2 / 9007199254740992))"
    by (simp add: t_def)
  also have "\<dots> \<le> t * (1 + 5 / 9007199254740992)"
    using t by (intro mult_left_mono) auto
  finally have up: "rd x / rd y \<le> t + 5 / 9007199254740992"
    using t5 unfolding distrib_left mult_1_right by linarith
  have "t * (1 - 5 / 9007199254740992)
      \<le> t * ((1 - 2 / 9007199254740992) / (1 + 2 / 9007199254740992))"
    using t by (intro mult_left_mono) auto
  also have "\<dots> = (x * (1 - 2 / 9007199254740992)) / (y * (1 + 2 / 9007199254740992))"
    by (simp add: t_def)
  also have "\<dots> \<le> rd x / rd y"
    using X Y Yp y assms by (intro frac_le) (auto intro: rd_nonneg)
  finally have "t - 5 / 9007199254740992 \<le> rd x / rd y"
    using t5 unfolding right_diff_distrib mult_1_right by linarith
  with up show ?thesis unfolding t_def by linarith
qed

lemma percentage_error:
  assumes "x = 0 \<or> 1 \<le> x" and "x \<le> y" and "1 \<le> y"
  shows "\<bar>rd (rd (rd x / rd y) * 100) - 100 * (x / y)\<bar> \<le> 1000 / 9007199254740992"
proof (cases "x = 0")
  case True
  then show ?thesis by (simp add: rd_0)
next
  case False
  with assms have x: "1 \<le> x" by simp
  have q: "0 \<le> rd (rd x / rd y)" "rd (rd x / rd y) \<le> 1"
    using x assms rd_nonneg [of x] mono [of x y] by (auto intro!: rd_nonneg rd_quot_le_1)
  have q': "0 \<le> rd x / rd y" "rd x / rd y \<le> 1"
    using x assms rd_nonneg [of x] mono [of x y] by (auto simp: divide_le_eq_1)
  have e1: "\<bar>rd (rd x / rd y) - rd x / rd y\<bar> \<le> 2 / 9007199254740992"
    using error_upto [of "rd x / rd y" 1] q' by simp
  have e2: "\<bar>rd (rd (rd x / rd y) * 100) - rd (rd x / rd y) * 100\<bar> \<le> 101 / 9007199254740992"
    using error_upto [of "rd (rd x / rd y) * 100" 100] q by simp
  from e1 e2 quotient_error [OF x assms(2)] show ?thesis by linarith
qed

end

interpretation b64: rounding rnd representable
proof unfold_locales
  show "rnd x \<le> rnd y" if "x \<le> y" for x y using that by (rule rnd_mono)
  show "representable (rnd x)" for x by (rule representable_rnd)
  show "rnd x = x" if "representable x" for x using that by (rule rnd_representable)
  show "representable (of_int k)" if "\<bar>k\<bar> \<le> 9007199254740992" for k
    using that by (rule representable_of_int)
  show "\<bar>rnd x - x\<bar> \<le> \<bar>x\<bar> / 9007199254740992 + eta" for x by (rule rnd_error)
qed

section \<open>The values and operations of float64\<close>

datatype f64 = Fin (fin_val: rat) | PInf | NInf | NaN

definition fl :: "rat \<Rightarrow> f64" where
  "fl x = (let r = rnd x in
     if r = 0 \<or> binexp r < 1024 then Fin r else if 0 < r then PInf else NInf)"

definition inf_sgn :: "rat \<Rightarrow> f64" where
  "inf_sgn x = (if x = 0 then NaN else if 0 < x then PInf else NInf)"

fun f64_uminus :: "f64 \<Rightarrow> f64" where
  "f64_uminus (Fin a) = Fin (- a)"
| "f64_uminus PInf = NInf"
| "f64_uminus NInf = PInf"
| "f64_uminus NaN = NaN"

fun f64_add :: "f64 \<Rightarrow> f64 \<Rightarrow> f64" where
  "f64_add (Fin a) (Fin b) = fl (a + b)"
| "f64_add NaN _ = NaN"
| "f64_add _ NaN = NaN"
| "f64_add PInf NInf = NaN"
| "f64_add NInf PInf = NaN"
| "f64_add PInf _ = PInf"
| "f64_add NInf _ = NInf"
| "f64_add (Fin _) y = y"

fun f64_mul :: "f64 \<Rightarrow> f64 \<Rightarrow> f64" where
  "f64_mul (Fin a) (Fin b) = fl (a * b)"
| "f64_mul NaN _ = NaN"
| "f64_mul _ NaN = NaN"
| "f64_mul (Fin a) PInf = inf_sgn a"
| "f64_mul (Fin a) NInf = inf_sgn (- a)"
| "f64_mul PInf (Fin b) = inf_sgn b"
| "f64_mul NInf (Fin b) = inf_sgn (- b)"
| "f64_mul PInf y = y"
| "f64_mul NInf y = f64_uminus y"

fun f64_div :: "f64 \<Rightarrow> f64 \<Rightarrow> f64" where
  "f64_div (Fin a) (Fin b) = (if b = 0 then inf_sgn a else fl (a / b))"
| "f64_div NaN _ = NaN"
| "f64_div _ NaN = NaN"
| "f64_div (Fin _) _ = Fin 0"
| "f64_div PInf (Fin b) = (if 0 \<le> b then PInf else NInf)"
| "f64_div NInf (Fin b) = (if 0 \<le> b then NInf else PInf)"
| "f64_div _ _ = NaN"

fun f64_less :: "f64 \<Rightarrow> f64 \<Rightarrow> bool" where
  "f64_less (Fin a) (Fin b) = (a < b)"
| "f64_less NaN _ = False"
| "f64_less _ NaN = False"
| "f64_less NInf y = (y \<noteq> NInf)"
| "f64_less _ NInf = False"
| "f64_less PInf _ = False"
| "f64_less (Fin _) PInf = True"

instantiation f64 :: "{plus, minus, uminus, times, inverse, ord}"
begin

definition plus_f64 :: "f64 \<Rightarrow> f64 \<Rightarrow> f64" where "plus_f64 = f64_add"
definition uminus_f64 :: "f64 \<Rightarrow> f64" where "uminus_f64 = f64_uminus"
definition minus_f64 :: "f64 \<Rightarrow> f64 \<Rightarrow> f64" where "minus_f64 x y = f64_add x (f64_uminus y)"
definition times_f64 :: "f64 \<Rightarrow> f64 \<Rightarrow> f64" where "times_f64 = f64_mul"
definition divide_f64 :: "f64 \<Rightarrow> f64 \<Rightarrow> f64" where "divide_f64 = f64_div"
definition inverse_f64 :: "f64 \<Rightarrow> f64" where "inverse_f64 y = f64_div (Fin 1) y"
definition less_f64 :: "f64 \<Rightarrow> f64 \<Rightarrow> bool" where "less_f64 = f64_less"
definition less_eq_f64 :: "f64 \<Rightarrow> f64 \<Rightarrow> bool" where
  "less_eq_f64 x y \<longleftrightarrow> f64_less x y \<or> (x = y \<and> x \<noteq> NaN)"

instance ..

end

lemma f64_ops [go_simps]:
  "Fin a + Fin b = fl (a + b)"
  "Fin a - Fin b = fl (a - b)"
  "Fin a * Fin b = fl (a * b)"
  "b \<noteq> 0 \<Longrightarrow> Fin a / Fin b = fl (a / b)"
  "Fin a < Fin b \<longleftrightarrow> a < b"
  "Fin a \<le> Fin b \<longleftrightarrow> a \<le> b"
  by (auto simp: plus_f64_def minus_f64_def times_f64_def divide_f64_def less_f64_def less_eq_f64_def)

definition u2r :: "u64 \<Rightarrow> rat" where
  "u2r w = of_int (uint w)"

definition of_u64 :: "u64 \<Rightarrow> f64" where
  "of_u64 w = fl (u2r w)"

definition of_i64 :: "int \<Rightarrow> f64" where
  "of_i64 k = fl (of_int k)"

text \<open>
  Conversion to an integer truncates toward zero.  Go leaves a value outside the target's range
  to the implementation; the model takes what amd64 computes, and no theorem depends on it.
\<close>

definition trunc_rat :: "rat \<Rightarrow> int" where
  "trunc_rat x = (if 0 \<le> x then \<lfloor>x\<rfloor> else \<lceil>x\<rceil>)"

fun to_i64 :: "f64 \<Rightarrow> int" where
  "to_i64 (Fin a) = (let k = trunc_rat a in
     if - 9223372036854775808 \<le> k \<and> k < 9223372036854775808 then k else - 9223372036854775808)"
| "to_i64 _ = - 9223372036854775808"

fun to_u64 :: "f64 \<Rightarrow> u64" where
  "to_u64 (Fin a) = (if a < 9223372036854775808 then word_of_int (to_i64 (Fin a))
     else word_of_int (trunc_rat a))"
| "to_u64 _ = 9223372036854775808"

text \<open>\<open>math.Round\<close>: to the nearest integer, halves away from zero.\<close>

definition round_away :: "rat \<Rightarrow> int" where
  "round_away x = (if 0 \<le> x then \<lfloor>x + 1/2\<rfloor> else - \<lfloor>1/2 - x\<rfloor>)"

fun math_Round :: "f64 \<Rightarrow> f64" where
  "math_Round (Fin a) = Fin (of_int (round_away a))"
| "math_Round x = x"

subsection \<open>Finite results\<close>

lemma representable_big: "0 \<le> k \<Longrightarrow> representable (2 powi k)"
  by (rule representable_powi) simp

lemma rnd_abs_le_powi: "- 1074 \<le> k \<Longrightarrow> \<bar>x\<bar> \<le> 2 powi k \<Longrightarrow> \<bar>rnd x\<bar> \<le> 2 powi k"
  using b64.rd_le [of "2 powi k" x] b64.rd_ge [of "- (2 powi k)" x]
    representable_powi [of k] representable_minus [of "2 powi k"]
  by (auto simp: abs_le_iff)

lemma fl_Fin:
  assumes "\<bar>x\<bar> \<le> 2 powi 1023"
  shows "fl x = Fin (rnd x)"
proof -
  have "\<bar>rnd x\<bar> \<le> 2 powi 1023" using assms by (intro rnd_abs_le_powi) auto
  also have "(2::rat) powi 1023 = \<bar>2 powi 1023\<bar>" by (simp only: power_int_abs abs_numeral)
  finally have "rnd x \<noteq> 0 \<Longrightarrow> binexp (rnd x) \<le> binexp (2 powi 1023)" by (intro binexp_mono)
  then have "rnd x \<noteq> 0 \<Longrightarrow> binexp (rnd x) < 1024" unfolding binexp_powi by simp
  then show ?thesis unfolding fl_def Let_def by auto
qed

lemma powi_mono_bound: "\<bar>x\<bar> \<le> 2 powi k \<Longrightarrow> k \<le> 1023 \<Longrightarrow> \<bar>x\<bar> \<le> (2::rat) powi 1023"
  by (meson order_trans powi_le)

lemma fl_small: "\<bar>x\<bar> \<le> 2 powi k \<Longrightarrow> k \<le> 1023 \<Longrightarrow> fl x = Fin (rnd x)"
  by (rule fl_Fin) (rule powi_mono_bound)

lemma fl_128: "\<bar>x\<bar> \<le> 1298074214633706907132624082305024 \<Longrightarrow> fl x = Fin (rnd x)"
  by (rule fl_small [of x 110]) simp_all

lemma uint_bounds [simp]: "0 \<le> uint (w :: u64)" "uint (w :: u64) < 18446744073709551616"
  using uint_lt2p [of w] by simp_all

lemma u2r_nonneg [simp]: "0 \<le> u2r w"
  unfolding u2r_def using uint_bounds(1) [of w] by (simp only: of_int_0_le_iff)

lemma u2r_less: "u2r w < 18446744073709551616"
  unfolding u2r_def using uint_bounds(2) [of w] by (rule of_int_less_numeral)

lemma u2r_0 [simp]: "u2r 0 = 0"
  by (simp add: u2r_def)

lemma u2r_mono: "v \<le> w \<Longrightarrow> u2r v \<le> u2r w"
  unfolding u2r_def word_le_def by (simp only: of_int_le_iff)

lemma u2r_eq_0 [simp]: "u2r w = 0 \<longleftrightarrow> w = 0"
  unfolding u2r_def of_int_eq_0_iff by (simp only: uint_0_iff)

lemma u2r_diff: "v \<le> w \<Longrightarrow> u2r (w - v) = u2r w - u2r v"
  unfolding u2r_def by (simp only: word_le_def uint_sub_lem [THEN iffD1] of_int_diff)

lemma of_u64_Fin: "of_u64 w = Fin (rnd (u2r w))"
  unfolding of_u64_def using u2r_less [of w] by (intro fl_128) simp

lemma rnd_u2r_ge_1: "w \<noteq> 0 \<Longrightarrow> 1 \<le> rnd (u2r w)"
proof -
  assume "w \<noteq> 0"
  then have "1 \<le> uint w" using uint_bounds(1) [of w] by (metis int_one_le_iff_zero_less order_le_less uint_0_iff)
  then have "1 \<le> u2r w" unfolding u2r_def by (metis of_int_1 of_int_le_iff)
  then show ?thesis by (rule b64.rd_ge [OF b64.rep_numerals(2)])
qed

lemma rnd_u2r_le: "rnd (u2r w) \<le> 18446744073709551616"
proof -
  have "representable 18446744073709551616" using representable_powi [of 64] by simp
  then show ?thesis using u2r_less [of w] by (intro b64.rd_le) auto
qed

subsection \<open>A rounded fraction of a difference does not overshoot\<close>

lemma representable_scaled:
  assumes "representable x"
  shows "\<exists>m. x = of_int m * 2 powi (- 1074)"
proof -
  from assms obtain m k where x: "x = of_int m * 2 powi k" and k: "- 1074 \<le> k"
    unfolding representable_def by blast
  have "x = of_int m * (2 powi (k + 1074) * 2 powi (- 1074))"
    unfolding x by (simp only: powi_add [symmetric]) simp
  also have "\<dots> = of_int (m * 2 ^ nat (k + 1074)) * 2 powi (- 1074)"
    using k by (simp add: power_int_nonneg_exp)
  finally show ?thesis by blast
qed

lemma difference_cases:
  assumes "representable x" and "representable y"
  shows "representable (x - y) \<or> 9007199254740992 * eta \<le> \<bar>x - y\<bar>"
proof -
  from assms obtain m n where xy: "x = of_int m * 2 powi (- 1074)" "y = of_int n * 2 powi (- 1074)"
    using representable_scaled by blast
  then have d: "x - y = of_int (m - n) * 2 powi (- 1074)" by (simp only: of_int_diff left_diff_distrib)
  show ?thesis
  proof (cases "\<bar>m - n\<bar> \<le> 9007199254740992")
    case True
    then show ?thesis unfolding d by (intro disjI1 representableI) auto
  next
    case False
    then have "9007199254740992 \<le> (of_int \<bar>m - n\<bar> :: rat)" by (intro numeral_le_of_int) simp
    moreover have "eta \<le> 2 powi (- 1074)" unfolding eta_def by (simp only: powi_le)
    ultimately have "9007199254740992 * eta \<le> of_int \<bar>m - n\<bar> * 2 powi (- 1074)"
      by (intro mult_mono) simp_all
    also have "\<dots> = \<bar>x - y\<bar>"
      unfolding d by (simp only: abs_mult of_int_abs power_int_abs abs_numeral)
    finally show ?thesis ..
  qed
qed

lemma rnd_fraction:
  assumes "representable x" and "representable y" and "y \<le> x" and "2 \<le> n"
  shows "0 \<le> rnd (rnd (x - y) / n)" and "rnd (rnd (x - y) / n) \<le> x - y"
proof -
  define d where "d = x - y"
  have d: "0 \<le> d" using assms(3) by (simp add: d_def)
  have D0: "0 \<le> rnd d" using d by (rule b64.rd_nonneg)
  have "rnd d / n \<le> rnd d / 2" using D0 assms(4) by (intro divide_left_mono) auto
  moreover have "0 \<le> rnd d / n" using D0 assms(4) by simp
  ultimately have half: "rnd d / n \<le> rnd d / 2" "0 \<le> rnd d / n" .
  from half(2) show "0 \<le> rnd (rnd (x - y) / n)" unfolding d_def by (rule b64.rd_nonneg)
  have "rnd (rnd d / n) \<le> d"
  proof (cases "representable d")
    case True
    then have "rnd d = d" by (rule b64.rd_rep)
    with half d show ?thesis by (intro b64.rd_le [OF True]) linarith
  next
    case False
    then have e: "eta \<le> d / 9007199254740992"
      using difference_cases [OF assms(1,2)] d by (simp add: d_def field_simps)
    from b64.error [of d] d e have "rnd d \<le> d + 2 * (d / 9007199254740992)" by linarith
    moreover have "rnd (rnd d / n) \<le> rnd (rnd d / 2)" using half(1) by (rule b64.mono)
    moreover have "rnd (rnd d / 2) \<le> rnd d / 2 + rnd d / 18014398509481984 + eta"
      using b64.error [of "rnd d / 2"] D0 by simp
    ultimately show ?thesis using e d by simp
  qed
  then show "rnd (rnd (x - y) / n) \<le> x - y" by (simp only: d_def)
qed

text \<open>One step of an incremental mean stays between the bounds of its operands.\<close>

lemma mean_step:
  assumes "representable a" "representable v" "representable lo" "representable hi"
    and "lo \<le> a" "a \<le> hi" "lo \<le> v" "v \<le> hi" and "2 \<le> n"
  shows "lo \<le> rnd (a + rnd (rnd (v - a) / n))" and "rnd (a + rnd (rnd (v - a) / n)) \<le> hi"
proof -
  have "lo \<le> a + rnd (rnd (v - a) / n) \<and> a + rnd (rnd (v - a) / n) \<le> hi"
  proof (cases "a \<le> v")
    case True
    from rnd_fraction [OF assms(2,1) True assms(9)] assms show ?thesis by auto
  next
    case False
    then have "v \<le> a" by simp
    note F = rnd_fraction [OF assms(1,2) this assms(9)]
    have "rnd (v - a) / n = - (rnd (a - v) / n)"
      using rnd_minus [of "a - v"] by (simp only: minus_diff_eq minus_divide_left)
    then have "rnd (rnd (v - a) / n) = - rnd (rnd (a - v) / n)" by (simp only: rnd_minus)
    with F assms show ?thesis by auto
  qed
  with assms(3,4) show "lo \<le> rnd (a + rnd (rnd (v - a) / n))"
    and "rnd (a + rnd (rnd (v - a) / n)) \<le> hi"
    by (auto intro: b64.rd_ge b64.rd_le)
qed

end
