(* ===== verification/GoTime.thy ===== *)
theory GoTime
  imports Float64
begin

text \<open>
  The part of Go's \<open>time\<close> package that the agent uses.  An instant is the number of nanoseconds
  since the zero \<open>Time\<close> (1 January of year 1, UTC), an \<open>int\<close>; a \<open>Duration\<close> is a signed 64-bit
  count of nanoseconds.  \<open>Sub\<close> saturates at the ends of the 64-bit range, \<open>Truncate\<close> rounds down
  to a multiple of the duration counted from the zero time, \<open>UnixNano\<close> wraps outside the years
  1678 to 2262, and \<open>Seconds\<close> is a float64.  No instant needs a monotonic reading beside the wall clock:
  \<open>UTC()\<close> strips it from the instant of a sample, and the end of a backoff is only compared with readings of
  the clock it was made from.
\<close>

type_synonym time = int
type_synonym duration = int

definition second :: duration where "second = 1000000000"
definition minute :: duration where "minute = 60000000000"
definition hour :: duration where "hour = 3600000000000"

lemmas duration_defs = second_def minute_def hour_def

definition unix_epoch :: time where
  "unix_epoch = 62135596800000000000"

definition Truncate :: "time \<Rightarrow> duration \<Rightarrow> time" where
  "Truncate t d = (if d \<le> 0 then t else t - t mod d)"

definition Sub :: "time \<Rightarrow> time \<Rightarrow> duration" where
  "Sub t u = (if t - u < - 9223372036854775808 then - 9223372036854775808
              else if 9223372036854775807 < t - u then 9223372036854775807 else t - u)"

definition UnixNano :: "time \<Rightarrow> int" where
  "UnixNano t = i64 (t - unix_epoch)"

text \<open>Integer division of Go truncates toward zero.\<close>

definition go_div :: "int \<Rightarrow> int \<Rightarrow> int" where
  "go_div a b = (if 0 \<le> a then a div b else - ((- a) div b))"

definition go_mod :: "int \<Rightarrow> int \<Rightarrow> int" where
  "go_mod a b = a - b * go_div a b"

definition Seconds :: "duration \<Rightarrow> f64" where
  "Seconds d = of_i64 (go_div d second) + of_i64 (go_mod d second) / Fin 1000000000"

section \<open>Windows of the clock\<close>

lemma Truncate_le: "Truncate t d \<le> t"
  by (simp add: Truncate_def)

lemma Truncate_less: "0 < d \<Longrightarrow> t < Truncate t d + d"
  using pos_mod_bound [of d t] by (simp add: Truncate_def)

lemma Truncate_aligned: "0 < d \<Longrightarrow> d dvd Truncate t d"
  by (simp add: Truncate_def dvd_minus_mod)

lemma Truncate_unique:
  assumes "0 < d" and "d dvd s" and "s \<le> t" and "t < s + d"
  shows "Truncate t d = s"
proof -
  from assms(2) obtain k where "s = d * k" by (rule dvdE)
  with assms have "t mod d = t - s"
    by (metis add.commute diff_add_cancel diff_ge_0_iff_ge diff_less_eq mod_mult_self2 mod_pos_pos_trivial mult.commute)
  with assms(1) show ?thesis by (simp add: Truncate_def)
qed

lemma Truncate_mono: "0 < d \<Longrightarrow> t \<le> u \<Longrightarrow> Truncate t d \<le> Truncate u d"
proof -
  assume d: "0 < d" and le: "t \<le> u"
  have "t div d \<le> u div d" using d le by (rule zdiv_mono1 [rotated])
  then have "t div d * d \<le> u div d * d" using d by simp
  then show ?thesis using d by (simp add: Truncate_def minus_mod_eq_div_mult)
qed

lemma Sub_pos_iff [simp]: "0 < Sub t u \<longleftrightarrow> u < t"
  by (auto simp: Sub_def)

lemma Sub_range: "- 9223372036854775808 \<le> Sub t u \<and> Sub t u < 9223372036854775808"
  by (auto simp: Sub_def)

section \<open>Seconds\<close>

lemma of_i64_Fin:
  assumes "\<bar>k\<bar> \<le> 9223372036854775808"
  shows "of_i64 k = Fin (rnd (of_int k))"
proof -
  have "\<bar>of_int k :: rat\<bar> \<le> 9223372036854775808"
    using of_int_le_numeral [OF assms] by simp
  then show ?thesis unfolding of_i64_def by (intro fl_128) simp
qed

text \<open>A positive duration has a positive, finite length in seconds.\<close>

lemma Seconds_pos:
  assumes "0 < d" and "d < 9223372036854775808"
  shows "\<exists>s. Seconds d = Fin s \<and> 1 / 1073741824 \<le> s \<and> s \<le> 17179869184"
proof -
  let ?q = "d div second" and ?r = "d mod second"
  have q: "0 \<le> ?q" "?q \<le> 9223372036" using assms by (auto simp: second_def)
  have r: "0 \<le> ?r" "?r < 1000000000" by (auto simp: second_def)
  have gd: "go_div d second = ?q" using assms by (simp add: go_div_def)
  have gm: "go_mod d second = ?r" by (simp add: go_mod_def gd minus_mult_div_eq_mod)
  have fq: "of_i64 ?q = Fin (of_int ?q)"
    using q by (simp add: of_i64_Fin b64.rd_of_int)
  have fr: "of_i64 ?r = Fin (of_int ?r)"
    using r by (simp add: of_i64_Fin b64.rd_of_int)
  let ?n = "rnd (of_int ?r / 1000000000)"
  have r': "0 \<le> (of_int ?r :: rat)" "(of_int ?r :: rat) < 1000000000"
    using r by (simp, intro of_int_less_numeral)
  have n: "0 \<le> ?n" "?n \<le> 1"
    using r' by (auto intro!: b64.rd_nonneg b64.rd_le b64.rep_numerals)
  have q': "0 \<le> (of_int ?q :: rat)" "(of_int ?q :: rat) \<le> 9223372036"
    using q by (simp, intro of_int_le_numeral)
  have fn: "Fin (of_int ?r) / Fin 1000000000 = Fin ?n"
    using r' by (simp add: go_simps fl_128)
  have s: "Seconds d = Fin (rnd (of_int ?q + ?n))"
    using q' n unfolding Seconds_def gd gm fq fr fn by (simp add: go_simps fl_128)
  have rep: "representable (1 / 1073741824)" "representable 17179869184"
    using representable_powi [of "- 30"] representable_powi [of 34]
    by (simp_all add: power_int_minus_divide)
  have "1 / 1073741824 \<le> of_int ?q + ?n"
  proof (cases "?q = 0")
    case True
    then have "1 \<le> ?r" using assms r(1) by (metis add_0 div_mult_mod_eq int_one_le_iff_zero_less mult_zero_left order_le_less)
    then have "1 \<le> (of_int ?r :: rat)" by simp
    then have "1 / 1073741824 \<le> ?n" by (intro b64.rd_ge rep) simp
    with q'(1) show ?thesis by simp
  next
    case False
    with q have "1 \<le> ?q" by simp
    then have "1 \<le> (of_int ?q :: rat)" by (metis of_int_1 of_int_le_iff)
    with n show ?thesis by simp
  qed
  then have lo: "1 / 1073741824 \<le> rnd (of_int ?q + ?n)" by (rule b64.rd_ge [OF rep(1)])
  have "rnd (of_int ?q + ?n) \<le> 17179869184"
    using q' n by (intro b64.rd_le rep) simp
  with s lo show ?thesis by blast
qed

end
