(* ===== verification/Sample.thy ===== *)
theory Sample
  imports GoTime
begin

text \<open>
  The raw readings (\<open>internal/collect/sample.go\<close>): cumulative kernel counters as 64-bit words,
  load averages as float64, one record per struct, and \<open>CPUTimes.Total\<close>, whose sum wraps.
\<close>

record CPUTimes =
  cpu_User :: u64
  cpu_Nice :: u64
  cpu_System :: u64
  cpu_Idle :: u64
  cpu_IOWait :: u64
  cpu_IRQ :: u64
  cpu_SoftIRQ :: u64
  cpu_Steal :: u64

definition Total :: "CPUTimes \<Rightarrow> u64" where
  "Total c = cpu_User c + cpu_Nice c + cpu_System c + cpu_Idle c + cpu_IOWait c
     + cpu_IRQ c + cpu_SoftIRQ c + cpu_Steal c"

record Memory =
  mem_Total :: u64
  mem_Available :: u64
  mem_Free :: u64
  mem_Buffers :: u64
  mem_Cached :: u64
  mem_SwapTotal :: u64
  mem_SwapFree :: u64

record Load =
  load_One :: f64
  load_Five :: f64
  load_Fifteen :: f64

record NetCounters =
  net_RxBytes :: u64
  net_TxBytes :: u64
  net_RxPackets :: u64
  net_TxPackets :: u64
  net_RxErrors :: u64
  net_TxErrors :: u64

record DiskCounters =
  disk_ReadBytes :: u64
  disk_WriteBytes :: u64
  disk_ReadOps :: u64
  disk_WriteOps :: u64

record Filesystem =
  fs_Mount :: string
  fs_Total :: u64
  fs_Used :: u64

record Sample =
  At :: time
  BootID :: string
  Uptime :: duration
  CPU :: CPUTimes
  Mem :: Memory
  LoadAvg :: Load
  Net :: NetCounters
  Disk :: DiskCounters
  FS :: "Filesystem list"

section \<open>The sum of the CPU states\<close>

definition cpu_sum :: "CPUTimes \<Rightarrow> int" where
  "cpu_sum c = uint (cpu_User c) + uint (cpu_Nice c) + uint (cpu_System c) + uint (cpu_Idle c)
     + uint (cpu_IOWait c) + uint (cpu_IRQ c) + uint (cpu_SoftIRQ c) + uint (cpu_Steal c)"

lemma cpu_sum_nonneg: "0 \<le> cpu_sum c"
  by (simp add: cpu_sum_def)

lemma uint_Total: "uint (Total c) = cpu_sum c mod 18446744073709551616"
  by (simp add: Total_def cpu_sum_def uint_word_ariths mod_simps)

lemma uint_Total_exact: "cpu_sum c < 18446744073709551616 \<Longrightarrow> uint (Total c) = cpu_sum c"
  using cpu_sum_nonneg [of c] by (simp add: uint_Total)

text \<open>No counter moved backwards between two readings, and their sum fits in 64 bits.\<close>

definition cpu_monotone :: "CPUTimes \<Rightarrow> CPUTimes \<Rightarrow> bool" where
  "cpu_monotone p c \<longleftrightarrow> cpu_User p \<le> cpu_User c \<and> cpu_Nice p \<le> cpu_Nice c
     \<and> cpu_System p \<le> cpu_System c \<and> cpu_Idle p \<le> cpu_Idle c \<and> cpu_IOWait p \<le> cpu_IOWait c
     \<and> cpu_IRQ p \<le> cpu_IRQ c \<and> cpu_SoftIRQ p \<le> cpu_SoftIRQ c \<and> cpu_Steal p \<le> cpu_Steal c
     \<and> cpu_sum c < 18446744073709551616"

lemma cpu_monotone_sum: "cpu_monotone p c \<Longrightarrow> cpu_sum p \<le> cpu_sum c"
  by (simp add: cpu_monotone_def cpu_sum_def word_le_def)

lemma cpu_monotone_Total:
  assumes "cpu_monotone p c"
  shows "Total p \<le> Total c" and "uint (Total c - Total p) = cpu_sum c - cpu_sum p"
proof -
  have s: "cpu_sum c < 18446744073709551616" using assms by (simp add: cpu_monotone_def)
  note le = cpu_monotone_sum [OF assms]
  then show T: "Total p \<le> Total c"
    using s by (simp add: word_le_def uint_Total_exact)
  from T have "uint (Total c - Total p) = uint (Total c) - uint (Total p)"
    by (simp only: word_le_def uint_sub_lem [THEN iffD1])
  then show "uint (Total c - Total p) = cpu_sum c - cpu_sum p"
    using s le by (simp add: uint_Total_exact)
qed

text \<open>The jiffies of one state are a part of the total.\<close>

lemma cpu_delta_sum:
  assumes "cpu_monotone p c"
  shows "u2r (Total c - Total p) =
     u2r (cpu_User c - cpu_User p) + u2r (cpu_Nice c - cpu_Nice p)
     + u2r (cpu_System c - cpu_System p) + u2r (cpu_Idle c - cpu_Idle p)
     + u2r (cpu_IOWait c - cpu_IOWait p) + u2r (cpu_IRQ c - cpu_IRQ p)
     + u2r (cpu_SoftIRQ c - cpu_SoftIRQ p) + u2r (cpu_Steal c - cpu_Steal p)"
proof -
  have "u2r (Total c - Total p) = of_int (cpu_sum c - cpu_sum p)"
    using cpu_monotone_Total(2) [OF assms] by (simp only: u2r_def)
  then show ?thesis
    using assms unfolding cpu_monotone_def by (simp add: u2r_diff) (simp add: u2r_def cpu_sum_def)
qed

end
