(* ===== verification/GoText.thy ===== *)
theory GoText
  imports Float64
begin

text \<open>
  The text functions of Go's standard library that the agent uses, on byte strings: \<open>Fields\<close>,
  \<open>Cut\<close>, \<open>TrimSpace\<close>, \<open>HasPrefix\<close>, the line scanner of \<open>bufio\<close> with its 64 KiB token limit,
  \<open>ParseUint\<close> in base 10, \<open>ParseFloat\<close>, and decimal printing with zero padding.  White space is
  the ASCII one; bytes above 127 never separate fields.

  The lemmas are the round trip between printed and parsed numbers and the splitting of joined
  words.
\<close>

section \<open>Splitting\<close>

definition is_space :: "char \<Rightarrow> bool" where
  "is_space c \<longleftrightarrow> c \<in> {CHR 0x09, CHR 0x0A, CHR 0x0B, CHR 0x0C, CHR 0x0D, CHR '' ''}"

lemma shorter_word:
  assumes "dropWhile is_space s \<noteq> []"
  shows "length (dropWhile (\<lambda>c. \<not> is_space c) (dropWhile is_space s)) < length s"
proof -
  let ?t = "dropWhile is_space s"
  have "\<not> is_space (hd ?t)" using assms by (rule hd_dropWhile)
  with assms have "length (dropWhile (\<lambda>c. \<not> is_space c) ?t) < length ?t"
    by (cases ?t) (auto simp: le_imp_less_Suc length_dropWhile_le)
  also have "\<dots> \<le> length s" by (rule length_dropWhile_le)
  finally show ?thesis .
qed

lemma shorter_line: "s \<noteq> [] \<Longrightarrow> length (dropWhile P s) - Suc 0 < length s"
  using length_dropWhile_le [of P s] by (cases s) auto

function Fields :: "string \<Rightarrow> string list" where
  "Fields s = (let t = dropWhile is_space s in
     if t = [] then []
     else takeWhile (\<lambda>c. \<not> is_space c) t # Fields (dropWhile (\<lambda>c. \<not> is_space c) t))"
  by pat_completeness auto
termination
  by (relation "measure length") (auto simp: shorter_word)

declare Fields.simps [simp del]

fun Cut :: "char \<Rightarrow> string \<Rightarrow> (string \<times> string) option" where
  "Cut x [] = None"
| "Cut x (c # cs) = (if c = x then Some ([], cs)
     else map_option (\<lambda>(a, b). (c # a, b)) (Cut x cs))"

definition TrimSpace :: "string \<Rightarrow> string" where
  "TrimSpace s = rev (dropWhile is_space (rev (dropWhile is_space s)))"

definition HasPrefix :: "string \<Rightarrow> string \<Rightarrow> bool" where
  "HasPrefix s p \<longleftrightarrow> take (length p) s = p"

abbreviation newline :: char where "newline \<equiv> CHR 0x0A"

definition drop_cr :: "string \<Rightarrow> string" where
  "drop_cr l = (if l \<noteq> [] \<and> last l = CHR 0x0D then butlast l else l)"

text \<open>
  The lines \<open>bufio.Scanner\<close> returns.  A line that does not fit its buffer of 65536 bytes makes
  \<open>Scan\<close> return false; the callers do not ask for the error, so the scan just ends there.
\<close>

function scan_lines :: "string \<Rightarrow> string list" where
  "scan_lines s = (if s = [] then []
     else let l = takeWhile (\<lambda>c. c \<noteq> newline) s; rest = dropWhile (\<lambda>c. c \<noteq> newline) s in
       if 65536 \<le> int (length l) then []
       else drop_cr l # scan_lines (tl rest))"
  by pat_completeness auto
termination
  by (relation "measure length") (auto simp: shorter_line)

declare scan_lines.simps [simp del]

section \<open>Numbers in base 10\<close>

definition is_digit :: "char \<Rightarrow> bool" where
  "is_digit c \<longleftrightarrow> 48 \<le> (of_char c :: int) \<and> (of_char c :: int) \<le> 57"

definition digit_val :: "char \<Rightarrow> int" where
  "digit_val c = of_char c - 48"

definition digit :: "int \<Rightarrow> char" where
  "digit d = char_of (48 + d)"

function dec :: "int \<Rightarrow> string" where
  "dec n = (if n < 10 then [digit n] else dec (n div 10) @ [digit (n mod 10)])"
  by pat_completeness auto
termination
  by (relation "measure nat") auto

declare dec.simps [simp del]

text \<open>\<open>%d\<close> of a signed number, and \<open>%0nd\<close> with zero padding after the sign.\<close>

definition dec_signed :: "int \<Rightarrow> string" where
  "dec_signed n = (if n < 0 then ''-'' @ dec (- n) else dec n)"

definition pad_dec :: "nat \<Rightarrow> int \<Rightarrow> string" where
  "pad_dec w n = (if n < 0
     then ''-'' @ replicate (w - 1 - length (dec (- n))) (CHR ''0'') @ dec (- n)
     else replicate (w - length (dec n)) (CHR ''0'') @ dec n)"

datatype num_error = ErrSyntax | ErrRange

text \<open>\<open>ParseUint(s, 10, 64)\<close>: the first bad character or the first overflow ends the loop.\<close>

fun parse_digits :: "int \<Rightarrow> string \<Rightarrow> num_error + int" where
  "parse_digits n [] = Inr n"
| "parse_digits n (c # cs) =
     (if \<not> is_digit c then Inl ErrSyntax
      else let n' = n * 10 + digit_val c in
        if 18446744073709551615 < n' then Inl ErrRange else parse_digits n' cs)"

definition ParseUint :: "string \<Rightarrow> num_error + u64" where
  "ParseUint s = (if s = [] then Inl ErrSyntax
     else case parse_digits 0 s of Inl e \<Rightarrow> Inl e | Inr n \<Rightarrow> Inr (word_of_int n))"

section \<open>ParseFloat\<close>

definition lower :: "char \<Rightarrow> char" where
  "lower c = (if 65 \<le> (of_char c :: int) \<and> (of_char c :: int) \<le> 90
     then char_of ((of_char c :: int) + 32) else c)"

definition is_hex_letter :: "char \<Rightarrow> bool" where
  "is_hex_letter c \<longleftrightarrow> (let l = (of_char (lower c) :: int) in 97 \<le> l \<and> l \<le> 102)"

definition hex_val :: "char \<Rightarrow> int" where
  "hex_val c = (if is_digit c then digit_val c else of_char (lower c) - 87)"

definition opt_sign :: "string \<Rightarrow> bool \<times> string" where
  "opt_sign s = (case s of [] \<Rightarrow> (False, [])
     | c # cs \<Rightarrow> if c = CHR ''+'' then (False, cs)
         else if c = CHR ''-'' then (True, cs) else (False, s))"

definition special :: "string \<Rightarrow> f64 option" where
  "special s = (let (neg, t) = opt_sign s; l = map lower t in
     if l = ''inf'' \<or> l = ''infinity'' then Some (if neg then NInf else PInf)
     else if map lower s = ''nan'' then Some NaN else None)"

text \<open>The scanned mantissa: its digits as an integer, the digits after the point, what follows.\<close>

record mantissa =
  m_val :: int
  m_frac :: int
  m_dot :: bool
  m_digits :: bool
  m_rest :: string

fun scan_mantissa :: "bool \<Rightarrow> mantissa \<Rightarrow> string \<Rightarrow> mantissa" where
  "scan_mantissa hex m [] = m\<lparr>m_rest := []\<rparr>"
| "scan_mantissa hex m (c # cs) =
     (if c = CHR ''_'' then scan_mantissa hex m cs
      else if c = CHR ''.'' then
        (if m_dot m then m\<lparr>m_rest := c # cs\<rparr> else scan_mantissa hex (m\<lparr>m_dot := True\<rparr>) cs)
      else if is_digit c \<or> hex \<and> is_hex_letter c then
        scan_mantissa hex
          (m\<lparr>m_val := m_val m * (if hex then 16 else 10) + hex_val c,
             m_frac := (if m_dot m then m_frac m + 1 else m_frac m), m_digits := True\<rparr>) cs
      else m\<lparr>m_rest := c # cs\<rparr>)"

fun scan_exponent :: "int \<Rightarrow> string \<Rightarrow> int \<times> string" where
  "scan_exponent e [] = (e, [])"
| "scan_exponent e (c # cs) =
     (if c = CHR ''_'' then scan_exponent e cs
      else if is_digit c then scan_exponent (if e < 10000 then e * 10 + digit_val c else e) cs
      else (e, c # cs))"

text \<open>An underscore must separate digits.\<close>

fun underscores_ok :: "bool \<Rightarrow> char \<Rightarrow> string \<Rightarrow> bool" where
  "underscores_ok hex saw [] = (saw \<noteq> CHR ''_'')"
| "underscores_ok hex saw (c # cs) =
     (if is_digit c \<or> hex \<and> is_hex_letter c then underscores_ok hex (CHR ''0'') cs
      else if c = CHR ''_'' then (if saw \<noteq> CHR ''0'' then False else underscores_ok hex c cs)
      else if saw = CHR ''_'' then False
      else underscores_ok hex (CHR ''!'') cs)"

definition underscoreOK :: "string \<Rightarrow> bool" where
  "underscoreOK s = (let t = snd (opt_sign s) in
     case t of z # x # cs \<Rightarrow>
         if z = CHR ''0'' \<and> lower x \<in> {CHR ''b'', CHR ''o'', CHR ''x''}
         then underscores_ok (lower x = CHR ''x'') (CHR ''0'') cs
         else underscores_ok False (CHR ''^'') t
     | _ \<Rightarrow> underscores_ok False (CHR ''^'') t)"

text \<open>The syntax of a number: sign, base, mantissa and exponent, and the whole string used up.\<close>

definition read_float :: "string \<Rightarrow> (bool \<times> bool \<times> int \<times> int) option" where
  "read_float s =
     (let (neg, t) = opt_sign s;
          hex = (case t of z # x # _ # _ \<Rightarrow> z = CHR ''0'' \<and> lower x = CHR ''x'' | _ \<Rightarrow> False);
          m = scan_mantissa hex \<lparr>m_val = 0, m_frac = 0, m_dot = False, m_digits = False, m_rest = []\<rparr>
                (if hex then drop 2 t else t) in
      if \<not> m_digits m then None
      else let ex =
        (case m_rest m of
           [] \<Rightarrow> if hex then None else Some (0, [])
         | c # cs \<Rightarrow>
             if lower c \<noteq> (if hex then CHR ''p'' else CHR ''e'')
             then (if hex then None else Some (0, c # cs))
             else let (eneg, ds) = opt_sign cs in
               (case ds of [] \<Rightarrow> None
                | d # _ \<Rightarrow> if \<not> is_digit d then None
                    else let (e, r) = scan_exponent 0 ds in Some (if eneg then - e else e, r)))
      in case ex of None \<Rightarrow> None
         | Some (e, r) \<Rightarrow>
             if r \<noteq> [] \<or> (CHR ''_'' \<in> set s \<and> \<not> underscoreOK s) then None
             else Some (neg, hex, m_val m, (if hex then e - 4 * m_frac m else e - m_frac m)))"

definition ParseFloat :: "string \<Rightarrow> num_error + f64" where
  "ParseFloat s =
     (case special s of Some v \<Rightarrow> Inr v
      | None \<Rightarrow>
        (case read_float s of None \<Rightarrow> Inl ErrSyntax
         | Some (neg, hex, m, e) \<Rightarrow>
             (let v = fl ((if neg then - 1 else 1) * of_int m * (if hex then 2 else 10) powi e) in
              case v of Fin _ \<Rightarrow> Inr v | _ \<Rightarrow> Inl ErrRange)))"

section \<open>Round trips\<close>

lemma digit_facts:
  assumes "0 \<le> d" and "d < 10"
  shows "is_digit (digit d)" and "digit_val (digit d) = d"
proof -
  have "(of_char (char_of (48 + d) :: char) :: int) = 48 + d"
    using assms by simp
  then show "is_digit (digit d)" and "digit_val (digit d) = d"
    using assms by (simp_all add: is_digit_def digit_val_def digit_def)
qed

lemma dec_digits: "0 \<le> n \<Longrightarrow> list_all is_digit (dec n)"
proof (induction n rule: dec.induct)
  case (1 n)
  then show ?case by (subst dec.simps) (auto simp: digit_facts)
qed

lemma dec_not_Nil [simp]: "dec n \<noteq> []"
  by (subst dec.simps) simp

lemma parse_digits_append:
  "parse_digits n (xs @ ys) =
     (case parse_digits n xs of Inl e \<Rightarrow> Inl e | Inr k \<Rightarrow> parse_digits k ys)"
  by (induction xs arbitrary: n) (auto simp: Let_def)

lemma parse_dec:
  "0 \<le> n \<Longrightarrow> n < 18446744073709551616 \<Longrightarrow> parse_digits 0 (dec n) = Inr n"
proof (induction n rule: dec.induct)
  case (1 n)
  show ?case
  proof (cases "n < 10")
    case True
    with "1.prems" show ?thesis by (subst dec.simps) (simp add: digit_facts)
  next
    case False
    then have "parse_digits 0 (dec (n div 10)) = Inr (n div 10)"
      using "1.prems" by (intro "1.IH") auto
    with False "1.prems" show ?thesis
      by (subst dec.simps) (simp add: parse_digits_append digit_facts)
  qed
qed

lemma parse_dec_big:
  "18446744073709551616 \<le> n \<Longrightarrow> parse_digits 0 (dec n) = Inl ErrRange"
proof (induction n rule: dec.induct)
  case (1 n)
  then have n: "\<not> n < 10" by simp
  have "18446744073709551615 < n div 10 * 10 + n mod 10" using "1.prems" by simp
  moreover have "parse_digits 0 (dec (n div 10)) = Inl ErrRange \<or> parse_digits 0 (dec (n div 10)) = Inr (n div 10)"
    using "1.IH" [OF n] parse_dec [of "n div 10"] n by (cases "n div 10 < 18446744073709551616") auto
  ultimately show ?case
    using n by (subst dec.simps) (auto simp: parse_digits_append digit_facts)
qed

text \<open>Printing an unsigned 64-bit number in decimal and parsing it gives the number back.\<close>

lemma ParseUint_dec: "ParseUint (dec (uint w)) = Inr w"
  using parse_dec [of "uint w"] by (simp add: ParseUint_def)

text \<open>Digits are not white space, so printed numbers split where they were joined.\<close>

definition word_ok :: "string \<Rightarrow> bool" where
  "word_ok w \<longleftrightarrow> w \<noteq> [] \<and> (\<forall>c\<in>set w. \<not> is_space c)"

lemma digit_not_space: "is_digit c \<Longrightarrow> \<not> is_space c"
  by (auto simp: is_digit_def is_space_def)

lemma word_ok_dec: "0 \<le> n \<Longrightarrow> word_ok (dec n)"
  using dec_digits [of n] digit_not_space by (auto simp: word_ok_def list_all_iff)

lemma Fields_Nil [simp]: "Fields [] = []"
  by (subst Fields.simps) simp

lemma Fields_space: "is_space c \<Longrightarrow> Fields (c # s) = Fields s"
  by (subst (1 2) Fields.simps) simp

lemma Fields_word_end:
  assumes "word_ok w"
  shows "Fields w = [w]"
proof -
  have d: "dropWhile is_space w = w" using assms by (cases w) (auto simp: word_ok_def)
  have t: "takeWhile (\<lambda>c. \<not> is_space c) w = w" "dropWhile (\<lambda>c. \<not> is_space c) w = []"
    using assms by (auto simp: word_ok_def takeWhile_eq_all_conv dropWhile_eq_Nil_conv)
  have "w \<noteq> []" using assms by (simp add: word_ok_def)
  then show ?thesis by (subst Fields.simps, unfold Let_def d t) simp
qed

lemma Fields_word:
  assumes "word_ok w" and "is_space c"
  shows "Fields (w @ c # s) = w # Fields (c # s)"
proof -
  obtain x xs where w: "w = x # xs" "\<not> is_space x" using assms(1) by (cases w) (auto simp: word_ok_def)
  have "dropWhile is_space (w @ c # s) = w @ c # s" using w by simp
  moreover have "takeWhile (\<lambda>c. \<not> is_space c) (w @ c # s) = w"
    "dropWhile (\<lambda>c. \<not> is_space c) (w @ c # s) = c # s"
    using assms by (auto simp: word_ok_def takeWhile_tail dropWhile_append3)
  ultimately show ?thesis using w(1) by (subst Fields.simps) (simp add: Let_def)
qed

definition join_words :: "string list \<Rightarrow> string" where
  "join_words ws = concat (map (\<lambda>w. '' '' @ w) ws)"

lemma Fields_join: "\<forall>w\<in>set ws. word_ok w \<Longrightarrow> Fields (join_words ws) = ws"
proof (induction ws)
  case Nil
  then show ?case by (simp add: join_words_def)
next
  case (Cons w ws)
  then have IH: "Fields (join_words ws) = ws" and w: "word_ok w" by auto
  have sp: "is_space (CHR '' '')" by (simp add: is_space_def)
  show ?case
  proof (cases ws)
    case Nil
    with w sp show ?thesis by (simp add: join_words_def Fields_space Fields_word_end)
  next
    case (Cons v vs)
    then obtain t where t: "join_words ws = CHR '' '' # t" by (simp add: join_words_def)
    have "join_words (w # ws) = CHR '' '' # w @ CHR '' '' # t"
      using t by (simp add: join_words_def)
    then have "Fields (join_words (w # ws)) = w # Fields (CHR '' '' # t)"
      using w sp by (simp add: Fields_space Fields_word)
    with IH t show ?thesis by simp
  qed
qed

end
