(* ===== verification/Collect.thy ===== *)
theory Collect
  imports Sample GoText
begin

text \<open>
  Reading \<open>/proc\<close> (\<open>internal/collect/proc.go\<close>, \<open>collect.go\<close>, \<open>usage.go\<close>).  The operating system
  is a parameter: the contents of a file below the root, the result of \<open>statfs\<close>, and the clock.
  Every parser is a function from the text to an error or the counters; every error return of the
  source is a constructor.

  The lemmas are the round trip with the kernel's format of the cpu line, the required memory figures
  and the all-or-nothing behaviour of \<open>Collect\<close>; those on the network and disk totals are in \<open>Totals\<close>.
\<close>

section \<open>The environment and the errors\<close>

record Statfs =
  st_Bsize :: int
  st_Blocks :: u64
  st_Bfree :: u64

record osenv =
  os_ReadFile :: "string \<Rightarrow> string \<Rightarrow> string option"
  os_Statfs :: "string \<Rightarrow> int + Statfs"
  os_Now :: time

datatype collect_error =
    ReadError string
  | TooFewFields string int
  | BadNumber string int num_error
  | BadMemory string num_error
  | NoValue string
  | NoCpuLine
  | MissingKey string
  | EmptyUptime
  | EmptyBootID
  | UsageError string int

text \<open>
  The injected clock and usage reader are called at every sample, so they are functions of what the
  outside answers at that moment.
\<close>

record Collector =
  col_Root :: string
  col_Mounts :: "string list"
  col_Now :: "(osenv \<Rightarrow> time) option"
  col_Usage :: "(osenv \<Rightarrow> string \<Rightarrow> int + u64 \<times> u64) option"

definition DefaultRoot :: string where "DefaultRoot = ''/proc''"

definition col_root :: "Collector \<Rightarrow> string" where
  "col_root c = (if col_Root c = [] then DefaultRoot else col_Root c)"

definition col_now :: "osenv \<Rightarrow> Collector \<Rightarrow> time" where
  "col_now env c = (case col_Now c of None \<Rightarrow> os_Now env | Some f \<Rightarrow> f env)"

definition col_mounts :: "Collector \<Rightarrow> string list" where
  "col_mounts c = (if col_Mounts c = [] then [''/''] else col_Mounts c)"

definition diskUsage :: "osenv \<Rightarrow> string \<Rightarrow> int + u64 \<times> u64" where
  "diskUsage env path = (case os_Statfs env path of
     Inl e \<Rightarrow> Inl e
   | Inr st \<Rightarrow> (let blockSize = (word_of_int (st_Bsize st) :: u64) in
       Inr (st_Blocks st * blockSize, (st_Blocks st - st_Bfree st) * blockSize)))"

definition col_usage :: "osenv \<Rightarrow> Collector \<Rightarrow> string \<Rightarrow> int + u64 \<times> u64" where
  "col_usage env c path = (case col_Usage c of None \<Rightarrow> diskUsage env path | Some f \<Rightarrow> f env path)"

definition readFile :: "osenv \<Rightarrow> Collector \<Rightarrow> string \<Rightarrow> collect_error + string" where
  "readFile env c rel = (case os_ReadFile env (col_root c) rel of
     None \<Rightarrow> Inl (ReadError rel) | Some raw \<Rightarrow> Inr raw)"

text \<open>Sequencing of steps that may fail.\<close>

definition andThen :: "'e + 'a \<Rightarrow> ('a \<Rightarrow> 'e + 'b) \<Rightarrow> 'e + 'b" where
  "andThen x f = (case x of Inl e \<Rightarrow> Inl e | Inr v \<Rightarrow> f v)"

lemma andThen_simps [simp]: "andThen (Inl e) f = Inl e" "andThen (Inr v) f = f v"
  by (simp_all add: andThen_def)

lemma andThen_Inr [simp]: "andThen x f = Inr y \<longleftrightarrow> (\<exists>v. x = Inr v \<and> f v = Inr y)"
  by (cases x) auto

section \<open>Which interfaces and disks count\<close>

definition virtual_prefixes :: "string list" where
  "virtual_prefixes = [''veth'', ''docker'', ''br-'', ''virbr'', ''tap'', ''tun'',
     ''dummy'', ''cni'', ''flannel'', ''cali'', ''kube'']"

definition virtualIface :: "string \<Rightarrow> bool" where
  "virtualIface name \<longleftrightarrow> name = ''lo'' \<or> list_ex (HasPrefix name) virtual_prefixes"

definition sectorSize :: u64 where "sectorSize = 512"

definition is_lower :: "char \<Rightarrow> bool" where
  "is_lower c \<longleftrightarrow> 97 \<le> (of_char c :: int) \<and> (of_char c :: int) \<le> 122"

definition letters :: "string \<Rightarrow> bool" where
  "letters s \<longleftrightarrow> s \<noteq> [] \<and> list_all is_lower s"

definition digits :: "string \<Rightarrow> bool" where
  "digits s \<longleftrightarrow> s \<noteq> [] \<and> list_all is_digit s"

text \<open>The regular expression of whole disks, one alternative per conjunction.\<close>

definition wholeDisk :: "string \<Rightarrow> bool" where
  "wholeDisk s \<longleftrightarrow>
     HasPrefix s ''sd'' \<and> letters (drop 2 s)
   \<or> HasPrefix s ''vd'' \<and> letters (drop 2 s)
   \<or> HasPrefix s ''xvd'' \<and> letters (drop 3 s)
   \<or> HasPrefix s ''hd'' \<and> letters (drop 2 s)
   \<or> HasPrefix s ''nvme'' \<and>
       (case Cut (CHR ''n'') (drop 4 s) of None \<Rightarrow> False | Some (a, b) \<Rightarrow> digits a \<and> digits b)
   \<or> HasPrefix s ''mmcblk'' \<and> digits (drop 6 s)"

section \<open>The parsers\<close>

text \<open>The eight counters of the cpu line; the index of the first bad one is in the error.\<close>

fun parse_counters :: "int \<Rightarrow> string list \<Rightarrow> collect_error + u64 list" where
  "parse_counters i [] = Inr []"
| "parse_counters i (f # fs) =
     (case ParseUint f of Inl e \<Rightarrow> Inl (BadNumber ''stat'' i e)
      | Inr n \<Rightarrow> andThen (parse_counters (i + 1) fs) (\<lambda>ns. Inr (n # ns)))"

fun cpu_of_list :: "u64 list \<Rightarrow> CPUTimes" where
  "cpu_of_list v = \<lparr>cpu_User = v ! 0, cpu_Nice = v ! 1, cpu_System = v ! 2, cpu_Idle = v ! 3,
     cpu_IOWait = v ! 4, cpu_IRQ = v ! 5, cpu_SoftIRQ = v ! 6, cpu_Steal = v ! 7\<rparr>"

fun cpu_lines :: "string list \<Rightarrow> collect_error + CPUTimes" where
  "cpu_lines [] = Inl NoCpuLine"
| "cpu_lines (l # ls) =
     (let flds = Fields l in
      if flds = [] \<or> hd flds \<noteq> ''cpu'' then cpu_lines ls
      else if int (length flds) < 9 then Inl (TooFewFields ''stat'' (int (length flds)))
      else andThen (parse_counters 1 (take 8 (tl flds))) (\<lambda>v. Inr (cpu_of_list v)))"

definition parseCPU :: "osenv \<Rightarrow> Collector \<Rightarrow> collect_error + CPUTimes" where
  "parseCPU env c = andThen (readFile env c ''stat'') (\<lambda>raw. cpu_lines (scan_lines raw))"

definition mem_target :: "string \<Rightarrow> (u64 \<Rightarrow> Memory \<Rightarrow> Memory) option" where
  "mem_target key =
     (if key = ''MemTotal'' then Some (\<lambda>v m. m\<lparr>mem_Total := v\<rparr>)
      else if key = ''MemAvailable'' then Some (\<lambda>v m. m\<lparr>mem_Available := v\<rparr>)
      else if key = ''MemFree'' then Some (\<lambda>v m. m\<lparr>mem_Free := v\<rparr>)
      else if key = ''Buffers'' then Some (\<lambda>v m. m\<lparr>mem_Buffers := v\<rparr>)
      else if key = ''Cached'' then Some (\<lambda>v m. m\<lparr>mem_Cached := v\<rparr>)
      else if key = ''SwapTotal'' then Some (\<lambda>v m. m\<lparr>mem_SwapTotal := v\<rparr>)
      else if key = ''SwapFree'' then Some (\<lambda>v m. m\<lparr>mem_SwapFree := v\<rparr>)
      else None)"

definition zero_memory :: Memory where
  "zero_memory = \<lparr>mem_Total = 0, mem_Available = 0, mem_Free = 0, mem_Buffers = 0, mem_Cached = 0,
     mem_SwapTotal = 0, mem_SwapFree = 0\<rparr>"

fun mem_lines :: "string list \<Rightarrow> Memory \<times> string list \<Rightarrow> collect_error + Memory \<times> string list" where
  "mem_lines [] ms = Inr ms"
| "mem_lines (l # ls) (m, seen) =
     (case Cut (CHR '':'') l of None \<Rightarrow> mem_lines ls (m, seen)
      | Some (key, v) \<Rightarrow>
        (case mem_target key of None \<Rightarrow> mem_lines ls (m, seen)
         | Some target \<Rightarrow>
           (case Fields v of [] \<Rightarrow> Inl (NoValue key)
            | f # _ \<Rightarrow>
              (case ParseUint f of Inl e \<Rightarrow> Inl (BadMemory key e)
               | Inr n \<Rightarrow> mem_lines ls (target (n * 1024) m, key # seen)))))"

definition parseMemory :: "osenv \<Rightarrow> Collector \<Rightarrow> collect_error + Memory" where
  "parseMemory env c = andThen (readFile env c ''meminfo'') (\<lambda>raw.
     andThen (mem_lines (scan_lines raw) (zero_memory, [])) (\<lambda>(m, seen).
       case filter (\<lambda>key. key \<notin> set seen) [''MemTotal'', ''MemAvailable''] of
         key # _ \<Rightarrow> Inl (MissingKey key) | [] \<Rightarrow> Inr m))"

fun parse_floats :: "int \<Rightarrow> string list \<Rightarrow> collect_error + f64 list" where
  "parse_floats i [] = Inr []"
| "parse_floats i (f # fs) =
     (case ParseFloat f of Inl e \<Rightarrow> Inl (BadNumber ''loadavg'' i e)
      | Inr n \<Rightarrow> andThen (parse_floats (i + 1) fs) (\<lambda>ns. Inr (n # ns)))"

definition parseLoad :: "osenv \<Rightarrow> Collector \<Rightarrow> collect_error + Load" where
  "parseLoad env c = andThen (readFile env c ''loadavg'') (\<lambda>raw.
     let flds = Fields raw in
     if int (length flds) < 3 then Inl (TooFewFields ''loadavg'' (int (length flds)))
     else andThen (parse_floats 0 (take 3 flds)) (\<lambda>out.
       Inr \<lparr>load_One = out ! 0, load_Five = out ! 1, load_Fifteen = out ! 2\<rparr>))"

definition parseUptime :: "osenv \<Rightarrow> Collector \<Rightarrow> collect_error + duration" where
  "parseUptime env c = andThen (readFile env c ''uptime'') (\<lambda>raw.
     case Fields raw of [] \<Rightarrow> Inl EmptyUptime
     | f # _ \<Rightarrow>
       (case ParseFloat f of Inl e \<Rightarrow> Inl (BadNumber ''uptime'' 0 e)
        | Inr seconds \<Rightarrow> Inr (to_i64 (seconds * of_i64 second))))"

definition net_table :: "(nat \<times> (u64 \<Rightarrow> NetCounters \<Rightarrow> NetCounters)) list" where
  "net_table = [(0, \<lambda>v. net_RxBytes_update (\<lambda>x. x + v)), (1, \<lambda>v. net_RxPackets_update (\<lambda>x. x + v)),
     (2, \<lambda>v. net_RxErrors_update (\<lambda>x. x + v)), (8, \<lambda>v. net_TxBytes_update (\<lambda>x. x + v)),
     (9, \<lambda>v. net_TxPackets_update (\<lambda>x. x + v)), (10, \<lambda>v. net_TxErrors_update (\<lambda>x. x + v))]"

fun net_columns :: "string list \<Rightarrow> (nat \<times> (u64 \<Rightarrow> NetCounters \<Rightarrow> NetCounters)) list
    \<Rightarrow> NetCounters \<Rightarrow> collect_error + NetCounters" where
  "net_columns flds [] n = Inr n"
| "net_columns flds ((i, target) # cols) n =
     (case ParseUint (flds ! i) of Inl e \<Rightarrow> Inl (BadNumber ''net/dev'' (int i) e)
      | Inr v \<Rightarrow> net_columns flds cols (target v n))"

definition zero_net :: NetCounters where
  "zero_net = \<lparr>net_RxBytes = 0, net_TxBytes = 0, net_RxPackets = 0, net_TxPackets = 0,
     net_RxErrors = 0, net_TxErrors = 0\<rparr>"

fun net_lines :: "string list \<Rightarrow> NetCounters \<Rightarrow> collect_error + NetCounters" where
  "net_lines [] n = Inr n"
| "net_lines (l # ls) n =
     (case Cut (CHR '':'') l of None \<Rightarrow> net_lines ls n
      | Some (name0, rest) \<Rightarrow>
        (let name = TrimSpace name0 in
         if virtualIface name then net_lines ls n
         else let flds = Fields rest in
           if int (length flds) < 16 then Inl (TooFewFields ''net/dev'' (int (length flds)))
           else andThen (net_columns flds net_table n) (net_lines ls)))"

definition parseNet :: "osenv \<Rightarrow> Collector \<Rightarrow> collect_error + NetCounters" where
  "parseNet env c = andThen (readFile env c ''net/dev'') (\<lambda>raw. net_lines (scan_lines raw) zero_net)"

definition disk_table :: "(nat \<times> u64 \<times> (u64 \<Rightarrow> DiskCounters \<Rightarrow> DiskCounters)) list" where
  "disk_table = [(3, 1, \<lambda>v. disk_ReadOps_update (\<lambda>x. x + v)),
     (5, sectorSize, \<lambda>v. disk_ReadBytes_update (\<lambda>x. x + v)),
     (7, 1, \<lambda>v. disk_WriteOps_update (\<lambda>x. x + v)),
     (9, sectorSize, \<lambda>v. disk_WriteBytes_update (\<lambda>x. x + v))]"

fun disk_columns :: "string list \<Rightarrow> (nat \<times> u64 \<times> (u64 \<Rightarrow> DiskCounters \<Rightarrow> DiskCounters)) list
    \<Rightarrow> DiskCounters \<Rightarrow> collect_error + DiskCounters" where
  "disk_columns flds [] d = Inr d"
| "disk_columns flds ((i, scale, target) # cols) d =
     (case ParseUint (flds ! i) of Inl e \<Rightarrow> Inl (BadNumber ''diskstats'' (int i) e)
      | Inr v \<Rightarrow> disk_columns flds cols (target (v * scale) d))"

definition zero_disk :: DiskCounters where
  "zero_disk = \<lparr>disk_ReadBytes = 0, disk_WriteBytes = 0, disk_ReadOps = 0, disk_WriteOps = 0\<rparr>"

fun disk_lines :: "string list \<Rightarrow> DiskCounters \<Rightarrow> collect_error + DiskCounters" where
  "disk_lines [] d = Inr d"
| "disk_lines (l # ls) d =
     (let flds = Fields l in
      if int (length flds) < 10 then disk_lines ls d
      else if \<not> wholeDisk (flds ! 2) then disk_lines ls d
      else andThen (disk_columns flds disk_table d) (disk_lines ls))"

definition parseDiskIO :: "osenv \<Rightarrow> Collector \<Rightarrow> collect_error + DiskCounters" where
  "parseDiskIO env c =
     andThen (readFile env c ''diskstats'') (\<lambda>raw. disk_lines (scan_lines raw) zero_disk)"

definition parseBootID :: "osenv \<Rightarrow> Collector \<Rightarrow> collect_error + string" where
  "parseBootID env c = andThen (readFile env c ''sys/kernel/random/boot_id'') (\<lambda>raw.
     let id = TrimSpace raw in if id = [] then Inl EmptyBootID else Inr id)"

fun usage_loop :: "osenv \<Rightarrow> Collector \<Rightarrow> string list \<Rightarrow> collect_error + Filesystem list" where
  "usage_loop env c [] = Inr []"
| "usage_loop env c (m # ms) =
     (case col_usage env c m of Inl e \<Rightarrow> Inl (UsageError m e)
      | Inr (tot, used) \<Rightarrow> andThen (usage_loop env c ms)
          (\<lambda>fs. Inr (\<lparr>fs_Mount = m, fs_Total = tot, fs_Used = used\<rparr> # fs)))"

definition collectFilesystems :: "osenv \<Rightarrow> Collector \<Rightarrow> collect_error + Filesystem list" where
  "collectFilesystems env c = usage_loop env c (col_mounts c)"

definition Collect :: "osenv \<Rightarrow> Collector \<Rightarrow> collect_error + Sample" where
  "Collect env c =
     (let now = col_now env c in
      andThen (parseCPU env c) (\<lambda>cpu.
      andThen (parseMemory env c) (\<lambda>mem.
      andThen (parseLoad env c) (\<lambda>load.
      andThen (parseUptime env c) (\<lambda>uptime.
      andThen (parseNet env c) (\<lambda>net.
      andThen (parseDiskIO env c) (\<lambda>disk.
      andThen (parseBootID env c) (\<lambda>bootID.
      andThen (collectFilesystems env c) (\<lambda>filesystems.
        Inr \<lparr>At = now, BootID = bootID, Uptime = uptime, CPU = cpu, Mem = mem, LoadAvg = load,
             Net = net, Disk = disk, FS = filesystems\<rparr>)))))))))"

section \<open>The cpu line\<close>

text \<open>How the kernel prints the aggregate line, with two blanks after its name and any columns after the eighth.\<close>

definition cpu_values :: "CPUTimes \<Rightarrow> u64 list" where
  "cpu_values c = [cpu_User c, cpu_Nice c, cpu_System c, cpu_Idle c, cpu_IOWait c, cpu_IRQ c,
     cpu_SoftIRQ c, cpu_Steal c]"

definition cpu_line :: "CPUTimes \<Rightarrow> string list \<Rightarrow> string" where
  "cpu_line c extra = ''cpu '' @ join_words (map (\<lambda>w. dec (uint w)) (cpu_values c) @ extra)"

lemma parse_counters_dec: "parse_counters i (map (\<lambda>w. dec (uint w)) ws) = Inr ws"
  by (induction ws arbitrary: i) (auto simp: ParseUint_dec)

lemma join_words_space: "join_words (w # ws) = CHR '' '' # w @ join_words ws"
  by (simp add: join_words_def)

lemma space_is_space [simp]: "is_space (CHR '' '')"
  by (simp add: is_space_def)

lemma Fields_head:
  assumes "word_ok w" and "\<forall>v\<in>set vs. word_ok v"
  shows "Fields (w @ join_words vs) = w # vs"
proof (cases vs)
  case Nil
  then show ?thesis using assms(1) by (simp add: join_words_def Fields_word_end)
next
  case (Cons v vs')
  then show ?thesis
    using Fields_word [OF assms(1), of "CHR '' ''" "v @ join_words vs'"] Fields_join [OF assms(2)]
    by (simp add: join_words_space)
qed

lemma cpu_word_ok: "word_ok ''cpu''"
  by (simp add: word_ok_def is_space_def)

lemma Fields_cpu_line:
  assumes "\<forall>w\<in>set extra. word_ok w"
  shows "Fields (cpu_line c extra) = ''cpu'' # map (\<lambda>w. dec (uint w)) (cpu_values c) @ extra"
proof -
  let ?ws = "map (\<lambda>w. dec (uint w)) (cpu_values c) @ extra"
  have "\<forall>w\<in>set ?ws. word_ok w" using assms by (auto simp: word_ok_dec)
  then show ?thesis
    using Fields_word [OF cpu_word_ok space_is_space, of "join_words ?ws"] Fields_join [of ?ws]
    by (simp add: cpu_line_def Fields_space)
qed

lemma not_space_newline: "\<not> is_space c \<Longrightarrow> c \<noteq> newline \<and> c \<noteq> CHR 0x0D"
  by (auto simp: is_space_def)

lemma join_words_chars: "\<forall>w\<in>set ws. word_ok w \<Longrightarrow> c \<in> set (join_words ws) \<Longrightarrow> c = CHR '' '' \<or> \<not> is_space c"
  by (auto simp: join_words_def word_ok_def split: if_splits)

lemma scan_lines_first:
  assumes "l \<noteq> []" and "\<forall>c\<in>set l. c \<noteq> newline \<and> c \<noteq> CHR 0x0D" and "int (length l) < 65536"
  shows "scan_lines (l @ newline # rest) = l # scan_lines rest"
proof -
  have t: "takeWhile (\<lambda>c. c \<noteq> newline) (l @ newline # rest) = l"
    "dropWhile (\<lambda>c. c \<noteq> newline) (l @ newline # rest) = newline # rest"
    using assms(2) by (auto simp: takeWhile_tail dropWhile_append3)
  have "last l \<noteq> CHR 0x0D" using assms(1,2) by auto
  then have "drop_cr l = l" by (simp add: drop_cr_def)
  then show ?thesis
    using assms(3) by (subst scan_lines.simps, unfold Let_def t) simp
qed

lemma cpu_line_chars:
  assumes "\<forall>w\<in>set extra. word_ok w"
  shows "\<forall>c\<in>set (cpu_line t extra). c \<noteq> newline \<and> c \<noteq> CHR 0x0D"
proof
  fix c assume c: "c \<in> set (cpu_line t extra)"
  have "\<forall>w\<in>set (map (\<lambda>w. dec (uint w)) (cpu_values t) @ extra). word_ok w"
    using assms by (auto simp: word_ok_dec)
  from join_words_chars [OF this] c have "c \<in> set ''cpu'' \<or> c = CHR '' '' \<or> \<not> is_space c"
    by (auto simp: cpu_line_def)
  then show "c \<noteq> newline \<and> c \<noteq> CHR 0x0D" using not_space_newline by auto
qed

text \<open>
  Whatever the per-core lines and the trailing columns of \<open>/proc/stat\<close> are, \<open>parseCPU\<close> returns
  exactly the eight counters the kernel printed on the aggregate line.
\<close>

theorem parseCPU_roundtrip:
  assumes "\<forall>w\<in>set extra. word_ok w" and "int (length (cpu_line t extra)) < 65536"
    and "os_ReadFile env (col_root c) ''stat'' = Some (cpu_line t extra @ newline # rest)"
  shows "parseCPU env c = Inr t"
proof -
  have "cpu_line t extra \<noteq> []" by (simp add: cpu_line_def)
  then have "scan_lines (cpu_line t extra @ newline # rest) = cpu_line t extra # scan_lines rest"
    using assms cpu_line_chars by (intro scan_lines_first) auto
  moreover have "take 8 (map (\<lambda>w. dec (uint w)) (cpu_values t) @ extra)
      = map (\<lambda>w. dec (uint w)) (cpu_values t)"
    by (simp add: cpu_values_def)
  ultimately show ?thesis
    using assms(3) parse_counters_dec [of 1 "cpu_values t"]
    by (simp add: parseCPU_def readFile_def Fields_cpu_line [OF assms(1)] Let_def)
      (simp add: cpu_values_def)
qed

text \<open>A machine with one file, for the examples.\<close>

definition one_file :: "string \<Rightarrow> string \<Rightarrow> osenv" where
  "one_file rel txt = \<lparr>os_ReadFile = (\<lambda>r f. if f = rel then Some txt else None),
     os_Statfs = (\<lambda>_. Inl 1), os_Now = 0\<rparr>"

definition plain_collector :: Collector where
  "plain_collector = \<lparr>col_Root = [], col_Mounts = [], col_Now = None, col_Usage = None\<rparr>"

lemma dec_small: "0 \<le> n \<Longrightarrow> n < 10 \<Longrightarrow> length (dec n) = 1"
  by (subst dec.simps) simp

definition example_cpu_times :: CPUTimes where
  "example_cpu_times = \<lparr>cpu_User = 1, cpu_Nice = 2, cpu_System = 3, cpu_Idle = 4, cpu_IOWait = 5,
     cpu_IRQ = 6, cpu_SoftIRQ = 7, cpu_Steal = 8\<rparr>"

theorem parseCPU_roundtrip_witness:
  "parseCPU (one_file ''stat'' (cpu_line (example_cpu_times) [''0'', ''0''] @ newline # ''cpu0 1 2''))
     plain_collector = Inr example_cpu_times"
proof (rule parseCPU_roundtrip)
  show "\<forall>w\<in>set [''0'', ''0'']. word_ok w" by (simp add: word_ok_def is_space_def)
  show "int (length (cpu_line example_cpu_times [''0'', ''0''])) < 65536"
    by (simp add: cpu_line_def join_words_def cpu_values_def example_cpu_times_def dec_small)
qed (simp add: one_file_def plain_collector_def)

section \<open>Texts of several lines\<close>

definition text_of :: "string list \<Rightarrow> string" where
  "text_of ls = concat (map (\<lambda>l. l @ [newline]) ls)"

definition line_ok :: "string \<Rightarrow> bool" where
  "line_ok l \<longleftrightarrow> newline \<notin> set l \<and> CHR 0x0D \<notin> set l \<and> int (length l) < 65536"

lemma scan_lines_line:
  assumes "line_ok l"
  shows "scan_lines (l @ newline # rest) = l # scan_lines rest"
proof -
  have t: "takeWhile (\<lambda>c. c \<noteq> newline) (l @ newline # rest) = l"
    "dropWhile (\<lambda>c. c \<noteq> newline) (l @ newline # rest) = newline # rest"
    using assms by (auto simp: line_ok_def takeWhile_tail dropWhile_append3)
  have "drop_cr l = l" using assms by (cases l rule: rev_cases) (auto simp: drop_cr_def line_ok_def)
  then show ?thesis
    using assms by (subst scan_lines.simps, unfold Let_def t) (simp add: line_ok_def)
qed

lemma scan_lines_text: "\<forall>l\<in>set ls. line_ok l \<Longrightarrow> scan_lines (text_of ls) = ls"
proof (induction ls)
  case Nil
  then show ?case by (subst scan_lines.simps) (simp add: text_of_def)
next
  case (Cons l ls)
  then show ?case using scan_lines_line [of l "text_of ls"] by (simp add: text_of_def)
qed

lemma Cut_word: "x \<notin> set a \<Longrightarrow> Cut x (a @ x # b) = Some (a, b)"
  by (induction a) auto

lemma Cut_None: "x \<notin> set a \<Longrightarrow> Cut x a = None"
  by (induction a) auto

section \<open>Memory\<close>

definition mem_value :: "string \<Rightarrow> Memory \<Rightarrow> u64" where
  "mem_value key m = (if key = ''MemTotal'' then mem_Total m
     else if key = ''MemAvailable'' then mem_Available m else if key = ''MemFree'' then mem_Free m
     else if key = ''Buffers'' then mem_Buffers m else if key = ''Cached'' then mem_Cached m
     else if key = ''SwapTotal'' then mem_SwapTotal m else mem_SwapFree m)"

text \<open>A line of the file that gives the key this many kibibytes.\<close>

definition mem_entry :: "string \<Rightarrow> string \<Rightarrow> u64 \<Rightarrow> bool" where
  "mem_entry l key n \<longleftrightarrow> (case Cut (CHR '':'') l of None \<Rightarrow> False
     | Some (k, v) \<Rightarrow> k = key \<and> (case Fields v of [] \<Rightarrow> False | f # _ \<Rightarrow> ParseUint f = Inr n))"

lemma mem_target_value:
  "mem_target key = Some target \<Longrightarrow> mem_value key (target v m) = v"
  "mem_target key = Some target \<Longrightarrow> mem_target k \<noteq> None \<Longrightarrow> k \<noteq> key \<Longrightarrow>
     mem_value k (target v m) = mem_value k m"
  by (auto simp: mem_target_def mem_value_def split: if_splits)

lemma mem_lines_justified:
  assumes "mem_lines ls (m, seen) = Inr (m', seen')" and "set ls \<subseteq> L"
    and "\<forall>key\<in>set seen. mem_target key \<noteq> None \<and> (\<exists>l\<in>L. \<exists>n. mem_entry l key n \<and> mem_value key m = n * 1024)"
  shows "\<forall>key\<in>set seen'. mem_target key \<noteq> None \<and> (\<exists>l\<in>L. \<exists>n. mem_entry l key n \<and> mem_value key m' = n * 1024)"
  using assms
proof (induction ls arbitrary: m seen)
  case Nil
  then show ?case by simp
next
  case (Cons l ls)
  show ?case
  proof (cases "mem_lines (l # ls) (m, seen) = mem_lines ls (m, seen)")
    case True
    with Cons show ?thesis by simp
  next
    case False
    then obtain key v target where l: "Cut (CHR '':'') l = Some (key, v)" "mem_target key = Some target"
      by (auto split: option.splits)
    with Cons.prems(1) obtain f fs n where f: "Fields v = f # fs" "ParseUint f = Inr n"
      by (auto split: list.splits sum.splits)
    have e: "mem_entry l key n" using l f by (simp add: mem_entry_def)
    have "mem_lines ls (target (n * 1024) m, key # seen) = Inr (m', seen')"
      using Cons.prems(1) l f by simp
    moreover have "\<forall>k\<in>set (key # seen). mem_target k \<noteq> None \<and>
        (\<exists>l\<in>L. \<exists>n'. mem_entry l k n' \<and> mem_value k (target (n * 1024) m) = n' * 1024)"
    proof
      fix k assume k: "k \<in> set (key # seen)"
      show "mem_target k \<noteq> None \<and>
        (\<exists>l\<in>L. \<exists>n'. mem_entry l k n' \<and> mem_value k (target (n * 1024) m) = n' * 1024)"
      proof (cases "k = key")
        case True
        then show ?thesis using l(2) e Cons.prems(2) mem_target_value(1) [OF l(2)] by auto
      next
        case False
        then show ?thesis using k Cons.prems(3) mem_target_value(2) [OF l(2)] by auto
      qed
    qed
    moreover have "set ls \<subseteq> L" using Cons.prems(2) by simp
    ultimately show ?thesis by (intro Cons.IH)
  qed
qed

lemma first_missing_Inr:
  assumes "(case filter (\<lambda>k. k \<notin> set seen) [a, b] of k # _ \<Rightarrow> Inl (f k) | [] \<Rightarrow> Inr m') = Inr m"
  shows "a \<in> set seen" "b \<in> set seen" "m' = m"
  using assms by (cases "a \<in> set seen"; cases "b \<in> set seen"; simp)+

text \<open>
  A memory reading is returned only when the file has both the total and the available figure,
  and each is the number of kibibytes some line gives for it, in bytes: a missing figure is an
  error, never a zero.
\<close>

theorem parseMemory_required:
  assumes "parseMemory env c = Inr m" and "os_ReadFile env (col_root c) ''meminfo'' = Some raw"
  shows "(\<exists>l\<in>set (scan_lines raw). \<exists>n. mem_entry l ''MemTotal'' n \<and> mem_Total m = n * 1024)
     \<and> (\<exists>l\<in>set (scan_lines raw). \<exists>n. mem_entry l ''MemAvailable'' n \<and> mem_Available m = n * 1024)"
proof -
  have "andThen (mem_lines (scan_lines raw) (zero_memory, [])) (\<lambda>(m, seen).
       case filter (\<lambda>key. key \<notin> set seen) [''MemTotal'', ''MemAvailable''] of
         key # _ \<Rightarrow> Inl (MissingKey key) | [] \<Rightarrow> Inr m) = Inr m"
    using assms by (simp only: parseMemory_def readFile_def option.case andThen_simps)
  then obtain ms where r': "mem_lines (scan_lines raw) (zero_memory, []) = Inr ms"
    and c': "(case ms of (m, seen) \<Rightarrow>
       case filter (\<lambda>key. key \<notin> set seen) [''MemTotal'', ''MemAvailable''] of
         key # _ \<Rightarrow> Inl (MissingKey key) | [] \<Rightarrow> Inr m) = Inr m"
    unfolding andThen_Inr by (elim exE conjE)
  obtain m' seen where ms: "ms = (m', seen)" by (cases ms)
  note r' = r' [unfolded ms]
  have c: "(case filter (\<lambda>key. key \<notin> set seen) [''MemTotal'', ''MemAvailable''] of
         key # _ \<Rightarrow> Inl (MissingKey key) | [] \<Rightarrow> Inr m') = Inr m"
    using c' by (simp only: ms prod.case)
  from first_missing_Inr [OF c] have seen: "''MemTotal'' \<in> set seen" "''MemAvailable'' \<in> set seen"
    and r: "mem_lines (scan_lines raw) (zero_memory, []) = Inr (m, seen)" using r' by simp_all
  have "\<forall>key\<in>set []. mem_target key \<noteq> None \<and>
      (\<exists>l\<in>set (scan_lines raw). \<exists>n. mem_entry l key n \<and> mem_value key zero_memory = n * 1024)" by simp
  note all = mem_lines_justified [OF r subset_refl this]
  have "mem_value ''MemTotal'' m = mem_Total m" "mem_value ''MemAvailable'' m = mem_Available m"
    by (simp_all add: mem_value_def)
  with bspec [OF all seen(1)] bspec [OF all seen(2)] show ?thesis by simp
qed

definition example_meminfo :: string where
  "example_meminfo = text_of [''MemTotal: 4'', ''MemAvailable: 3'']"

theorem parseMemory_required_witness:
  "\<exists>m. parseMemory (one_file ''meminfo'' example_meminfo) plain_collector = Inr m
     \<and> (\<exists>l\<in>set (scan_lines example_meminfo). \<exists>n. mem_entry l ''MemTotal'' n \<and> mem_Total m = n * 1024)"
proof -
  have l: "scan_lines example_meminfo = [''MemTotal: 4'', ''MemAvailable: 3'']"
    unfolding example_meminfo_def by (rule scan_lines_text) (simp add: line_ok_def)
  have f: "Fields '' 4'' = [''4'']" "Fields '' 3'' = [''3'']" by code_simp+
  have n: "ParseUint ''4'' = Inr 4" "ParseUint ''3'' = Inr 3"
    by (simp_all add: ParseUint_def is_digit_def digit_val_def)
  have p: "parseMemory (one_file ''meminfo'' example_meminfo) plain_collector
      = Inr (zero_memory\<lparr>mem_Total := 4 * 1024, mem_Available := 3 * 1024\<rparr>)"
    by (simp add: parseMemory_def readFile_def one_file_def l f n mem_target_def)
  have "os_ReadFile (one_file ''meminfo'' example_meminfo) (col_root plain_collector) ''meminfo''
      = Some example_meminfo"
    by (simp add: one_file_def)
  from parseMemory_required [OF p this] p show ?thesis by blast
qed

section \<open>All or nothing\<close>

text \<open>
  C33.  \<open>Collect\<close> returns a sample only if every reader succeeded, and then each part of the sample
  is what its reader returned; if any file of \<open>/proc\<close> it needs cannot be read, there is no sample.
\<close>

theorem Collect_all_or_nothing:
  "(Collect env c = Inr s \<longleftrightarrow>
      parseCPU env c = Inr (CPU s) \<and> parseMemory env c = Inr (Mem s) \<and> parseLoad env c = Inr (LoadAvg s)
      \<and> parseUptime env c = Inr (Uptime s) \<and> parseNet env c = Inr (Net s)
      \<and> parseDiskIO env c = Inr (Disk s) \<and> parseBootID env c = Inr (BootID s)
      \<and> collectFilesystems env c = Inr (FS s) \<and> At s = col_now env c)
   \<and> ((\<exists>rel\<in>{''stat'', ''meminfo'', ''loadavg'', ''uptime'', ''net/dev'', ''diskstats'',
          ''sys/kernel/random/boot_id''}. os_ReadFile env (col_root c) rel = None)
      \<longrightarrow> (\<exists>e. Collect env c = Inl e))"
proof
  show "Collect env c = Inr s \<longleftrightarrow>
      parseCPU env c = Inr (CPU s) \<and> parseMemory env c = Inr (Mem s) \<and> parseLoad env c = Inr (LoadAvg s)
      \<and> parseUptime env c = Inr (Uptime s) \<and> parseNet env c = Inr (Net s)
      \<and> parseDiskIO env c = Inr (Disk s) \<and> parseBootID env c = Inr (BootID s)
      \<and> collectFilesystems env c = Inr (FS s) \<and> At s = col_now env c"
    by (cases s) (auto simp: Collect_def)
  show "(\<exists>rel\<in>{''stat'', ''meminfo'', ''loadavg'', ''uptime'', ''net/dev'', ''diskstats'',
          ''sys/kernel/random/boot_id''}. os_ReadFile env (col_root c) rel = None)
      \<longrightarrow> (\<exists>e. Collect env c = Inl e)"
  proof
    assume "\<exists>rel\<in>{''stat'', ''meminfo'', ''loadavg'', ''uptime'', ''net/dev'', ''diskstats'',
          ''sys/kernel/random/boot_id''}. os_ReadFile env (col_root c) rel = None"
    then have "Collect env c \<noteq> Inr s" for s
      by (auto simp: Collect_def parseCPU_def parseMemory_def parseLoad_def parseUptime_def
          parseNet_def parseDiskIO_def parseBootID_def readFile_def)
    then show "\<exists>e. Collect env c = Inl e" by (cases "Collect env c") auto
  qed
qed

theorem Collect_all_or_nothing_witness:
  "\<exists>e. Collect (one_file ''meminfo'' example_meminfo) plain_collector = Inl e"
  using Collect_all_or_nothing [of "one_file ''meminfo'' example_meminfo" plain_collector]
  by (simp add: one_file_def)

section \<open>A series of readings\<close>

text \<open>The samples that could be taken.\<close>

definition samples_of :: "Collector \<Rightarrow> osenv list \<Rightarrow> Sample list" where
  "samples_of c oss = List.map_filter (\<lambda>os. case Collect os c of Inl e \<Rightarrow> None | Inr s \<Rightarrow> Some s) oss"

lemma samples_of_simps [simp]:
  "samples_of c [] = []"
  "samples_of c (os # oss) = (case Collect os c of Inl e \<Rightarrow> samples_of c oss | Inr s \<Rightarrow> s # samples_of c oss)"
  by (simp_all add: samples_of_def map_filter_def split: sum.splits)

end
