(* ===== verification/Json.thy ===== *)
theory Json
  imports GoText
begin

text \<open>
  The part of Go's \<open>encoding/json\<close> that the agent uses, on byte strings.  Writing is \<open>render\<close>, the
  compact form of \<open>json.Marshal\<close> with its escapes; reading is \<open>json_parse\<close>, a tokeniser and a
  parser that accept the same texts as the decoder.  A number stays the text it was written with.
  \<open>fmt_float\<close> prints a float64 with the fewest decimals that read back as the same value.

  Two details of the decoder are narrower here: keys match case-insensitively for ASCII letters
  only, and negative zero prints like zero.
\<close>

section \<open>Documents\<close>

datatype json = JNull | JBool bool | JNum string | JStr string
  | JArr "json list" | JObj "(string \<times> json) list"

section \<open>Strings\<close>

definition byte :: "char \<Rightarrow> int" where "byte c = of_char c"

definition hex_digit :: "int \<Rightarrow> char" where
  "hex_digit d = (if d < 10 then char_of (48 + d) else char_of (87 + d))"

definition in_range :: "int \<Rightarrow> int \<Rightarrow> char \<Rightarrow> bool" where
  "in_range lo hi c \<longleftrightarrow> lo \<le> byte c \<and> byte c \<le> hi"

text \<open>How many bytes the valid UTF-8 sequence at the head of the text has, 0 when it has none.\<close>

definition utf8_len :: "string \<Rightarrow> nat" where
  "utf8_len s = (case s of [] \<Rightarrow> 0 | a # s1 \<Rightarrow>
     if in_range 0 127 a then 1
     else case s1 of [] \<Rightarrow> 0 | b # s2 \<Rightarrow>
       if in_range 194 223 a then (if in_range 128 191 b then 2 else 0)
       else case s2 of [] \<Rightarrow> 0 | c # s3 \<Rightarrow>
         if in_range 224 239 a then
           (if in_range (if byte a = 224 then 160 else 128) (if byte a = 237 then 159 else 191) b
               \<and> in_range 128 191 c then 3 else 0)
         else case s3 of [] \<Rightarrow> 0 | d # _ \<Rightarrow>
           if in_range 240 244 a
               \<and> in_range (if byte a = 240 then 144 else 128) (if byte a = 244 then 143 else 191) b
               \<and> in_range 128 191 c \<and> in_range 128 191 d then 4 else 0)"

definition escape_ascii :: "char \<Rightarrow> string" where
  "escape_ascii c =
     (if c = CHR 0x22 then [CHR 0x5C, CHR 0x22]
      else if c = CHR 0x5C then [CHR 0x5C, CHR 0x5C]
      else if c = CHR 0x08 then [CHR 0x5C, CHR ''b'']
      else if c = CHR 0x0C then [CHR 0x5C, CHR ''f'']
      else if c = CHR 0x0A then [CHR 0x5C, CHR ''n'']
      else if c = CHR 0x0D then [CHR 0x5C, CHR ''r'']
      else if c = CHR 0x09 then [CHR 0x5C, CHR ''t'']
      else if byte c < 32 \<or> c = CHR ''<'' \<or> c = CHR ''>'' \<or> c = CHR ''&''
      then [CHR 0x5C, CHR ''u'', CHR ''0'', CHR ''0'', hex_digit (byte c div 16), hex_digit (byte c mod 16)]
      else [c])"

text \<open>An invalid byte is written as the replacement character, the line separators are escaped.\<close>

function escape :: "string \<Rightarrow> string" where
  "escape s = (case s of [] \<Rightarrow> [] | c # cs \<Rightarrow>
     if byte c < 128 then escape_ascii c @ escape cs
     else if utf8_len s = 0 then CHR 0x5C # ''ufffd'' @ escape cs
     else if take 3 s = [CHR 0xE2, CHR 0x80, CHR 0xA8] then CHR 0x5C # ''u2028'' @ escape (drop 3 s)
     else if take 3 s = [CHR 0xE2, CHR 0x80, CHR 0xA9] then CHR 0x5C # ''u2029'' @ escape (drop 3 s)
     else take (utf8_len s) s @ escape (drop (utf8_len s) s))"
  by pat_completeness auto
termination
  by (relation "measure length") auto

declare escape.simps [simp del]

definition quote :: "string \<Rightarrow> string" where
  "quote s = CHR 0x22 # escape s @ [CHR 0x22]"

definition hex4 :: "string \<Rightarrow> (int \<times> string) option" where
  "hex4 s = (case s of a # b # c # d # r \<Rightarrow>
       if \<forall>x\<in>set [a, b, c, d]. is_digit x \<or> is_hex_letter x
       then Some (((hex_val a * 16 + hex_val b) * 16 + hex_val c) * 16 + hex_val d, r) else None
     | _ \<Rightarrow> None)"

definition utf8_encode :: "int \<Rightarrow> string" where
  "utf8_encode u =
     (if u < 128 then [char_of u]
      else if u < 2048 then [char_of (192 + u div 64), char_of (128 + u mod 64)]
      else if u < 65536 then
        [char_of (224 + u div 4096), char_of (128 + u div 64 mod 64), char_of (128 + u mod 64)]
      else [char_of (240 + u div 262144), char_of (128 + u div 4096 mod 64),
        char_of (128 + u div 64 mod 64), char_of (128 + u mod 64)])"

abbreviation replacement :: string where "replacement \<equiv> [CHR 0xEF, CHR 0xBF, CHR 0xBD]"

definition simple_escape :: "char \<Rightarrow> char option" where
  "simple_escape e =
     (if e = CHR 0x22 \<or> e = CHR 0x5C \<or> e = CHR ''/'' then Some e
      else if e = CHR ''b'' then Some (CHR 0x08)
      else if e = CHR ''f'' then Some (CHR 0x0C)
      else if e = CHR ''n'' then Some (CHR 0x0A)
      else if e = CHR ''r'' then Some (CHR 0x0D)
      else if e = CHR ''t'' then Some (CHR 0x09) else None)"

text \<open>The code point after \<open>\u\<close>, a surrogate pair joined, and the text after it.\<close>

definition unicode_escape :: "string \<Rightarrow> (string \<times> string) option" where
  "unicode_escape s = (case hex4 s of None \<Rightarrow> None
     | Some (u, r) \<Rightarrow>
         if 55296 \<le> u \<and> u < 56320 then
           (case (if take 2 r = [CHR 0x5C, CHR ''u''] then hex4 (drop 2 r) else None) of
              Some (v, r') \<Rightarrow> if 56320 \<le> v \<and> v < 57344
                then Some (utf8_encode (65536 + (u - 55296) * 1024 + (v - 56320)), r')
                else Some (replacement, r)
            | None \<Rightarrow> Some (replacement, r))
         else if 56320 \<le> u \<and> u < 57344 then Some (replacement, r)
         else Some (utf8_encode u, r))"

lemma hex4_shorter: "hex4 s = Some (u, r) \<Longrightarrow> length r < length s"
  by (auto simp: hex4_def split: list.splits if_splits)

lemma unicode_escape_shorter: "unicode_escape s = Some (t, r) \<Longrightarrow> length r < length s"
  using hex4_shorter [of "drop 2 r'" for r']
  by (auto simp: unicode_escape_def dest!: hex4_shorter split: option.splits if_splits)

text \<open>The contents of a string, from after its opening quote, and the text after its closing one.\<close>

function scan_str :: "string \<Rightarrow> (string \<times> string) option" where
  "scan_str s = (case s of [] \<Rightarrow> None | c # cs \<Rightarrow>
     if c = CHR 0x22 then Some ([], cs)
     else if c = CHR 0x5C then
       (case cs of [] \<Rightarrow> None
        | e # r \<Rightarrow> if e = CHR ''u''
            then (case unicode_escape r of None \<Rightarrow> None
              | Some (t, r') \<Rightarrow> map_option (apfst ((@) t)) (scan_str r'))
            else (case simple_escape e of None \<Rightarrow> None
              | Some x \<Rightarrow> map_option (apfst ((#) x)) (scan_str r)))
     else if byte c < 32 then None
     else if utf8_len s = 0 then map_option (apfst ((@) replacement)) (scan_str cs)
     else map_option (apfst ((@) (take (utf8_len s) s))) (scan_str (drop (utf8_len s) s)))"
  by pat_completeness auto
termination
  by (relation "measure length") (auto dest!: unicode_escape_shorter)

declare scan_str.simps [simp del]

section \<open>Writing\<close>

fun comma_sep :: "string list \<Rightarrow> string" where
  "comma_sep [] = []"
| "comma_sep [x] = x"
| "comma_sep (x # y # xs) = x @ CHR '','' # comma_sep (y # xs)"

fun render :: "json \<Rightarrow> string" where
  "render JNull = ''null''"
| "render (JBool b) = (if b then ''true'' else ''false'')"
| "render (JNum s) = s"
| "render (JStr s) = quote s"
| "render (JArr xs) = CHR ''['' # comma_sep (map render xs) @ '']''"
| "render (JObj ms) = CHR ''{'' # comma_sep (map (\<lambda>(k, v). quote k @ CHR '':'' # render v) ms) @ ''}''"

section \<open>Reading\<close>

datatype tok = TOpenObj | TCloseObj | TOpenArr | TCloseArr | TColon | TComma
  | TStr string | TNum string | TTrue | TFalse | TNull

text \<open>A number: sign, integer part without a leading zero, fraction and exponent.\<close>

definition scan_digits1 :: "string \<Rightarrow> (string \<times> string) option" where
  "scan_digits1 s = (let d = takeWhile is_digit s in
     if d = [] then None else Some (d, dropWhile is_digit s))"

definition scan_int :: "string \<Rightarrow> (string \<times> string) option" where
  "scan_int s = (case s of [] \<Rightarrow> None
     | c # cs \<Rightarrow> if c = CHR ''0'' then Some (''0'', cs) else scan_digits1 s)"

definition scan_frac :: "string \<Rightarrow> (string \<times> string) option" where
  "scan_frac s = (case s of [] \<Rightarrow> Some ([], [])
     | c # cs \<Rightarrow> if c = CHR ''.''
         then map_option (apfst ((#) c)) (scan_digits1 cs) else Some ([], s))"

definition scan_exp :: "string \<Rightarrow> (string \<times> string) option" where
  "scan_exp s = (case s of [] \<Rightarrow> Some ([], [])
     | c # cs \<Rightarrow> if c = CHR ''e'' \<or> c = CHR ''E''
         then (case cs of [] \<Rightarrow> None
           | d # ds \<Rightarrow> if d = CHR ''+'' \<or> d = CHR ''-''
               then map_option (apfst ((@) [c, d])) (scan_digits1 ds)
               else map_option (apfst ((#) c)) (scan_digits1 cs))
         else Some ([], s))"

definition scan_number :: "string \<Rightarrow> (string \<times> string) option" where
  "scan_number s =
     (let (sign, s0) = (case s of c # cs \<Rightarrow> if c = CHR ''-'' then (''-'', cs) else ([], s) | [] \<Rightarrow> ([], []))
      in case scan_int s0 of None \<Rightarrow> None
       | Some (a, s1) \<Rightarrow> (case scan_frac s1 of None \<Rightarrow> None
         | Some (b, s2) \<Rightarrow> (case scan_exp s2 of None \<Rightarrow> None
           | Some (c, s3) \<Rightarrow> Some (sign @ a @ b @ c, s3))))"

definition punctuation :: "char \<Rightarrow> tok option" where
  "punctuation c =
     (if c = CHR ''{'' then Some TOpenObj else if c = CHR ''}'' then Some TCloseObj
      else if c = CHR ''['' then Some TOpenArr else if c = CHR '']'' then Some TCloseArr
      else if c = CHR '':'' then Some TColon else if c = CHR '','' then Some TComma else None)"

definition json_space :: "char \<Rightarrow> bool" where
  "json_space c \<longleftrightarrow> c \<in> {CHR '' '', CHR 0x09, CHR 0x0A, CHR 0x0D}"

text \<open>The next token of a text that does not start with white space.\<close>

definition next_tok :: "string \<Rightarrow> (tok \<times> string) option" where
  "next_tok s = (case s of [] \<Rightarrow> None | c # cs \<Rightarrow>
     (case punctuation c of Some t \<Rightarrow> Some (t, cs)
      | None \<Rightarrow>
        if c = CHR 0x22 then map_option (apfst TStr) (scan_str cs)
        else if HasPrefix s ''true'' then Some (TTrue, drop 4 s)
        else if HasPrefix s ''false'' then Some (TFalse, drop 5 s)
        else if HasPrefix s ''null'' then Some (TNull, drop 4 s)
        else map_option (apfst TNum) (scan_number s)))"

lemma scan_str_shorter: "scan_str s = Some (t, r) \<Longrightarrow> length r < length s"
proof (induction s arbitrary: t r rule: scan_str.induct)
  case (1 s)
  note p = "1.prems" [unfolded scan_str.simps [of s]]
  show ?case
  proof (cases s)
    case Nil
    with p show ?thesis by simp
  next
    case (Cons c cs)
    note p = p [simplified Cons list.case, folded Cons]
    consider "c = CHR 0x22" | "c = CHR 0x5C" | "c \<noteq> CHR 0x22" "c \<noteq> CHR 0x5C" by blast
    then show ?thesis
    proof cases
      case 1
      with Cons p show ?thesis by simp
    next
      case 2
      then have q: "c \<noteq> CHR 0x22" by simp
      from 2 p obtain e r' where cs: "cs = e # r'" by (cases cs) auto
      show ?thesis
      proof (cases "e = CHR ''u''")
        case True
        with 2 cs p obtain x r2 t' where r2: "unicode_escape r' = Some (x, r2)" "scan_str r2 = Some (t', r)"
          by (auto split: option.splits)
        then have "length r < length r2" using "1.IH"(1) [OF Cons q 2 cs True r2(1) refl] by simp
        with unicode_escape_shorter [OF r2(1)] Cons cs show ?thesis by simp
      next
        case False
        with 2 cs p obtain x t' where x: "simple_escape e = Some x" "scan_str r' = Some (t', r)"
          by (auto split: option.splits)
        then have "length r < length r'" using "1.IH"(2) [OF Cons q 2 cs False] by simp
        with Cons cs show ?thesis by simp
      qed
    next
      case 3
      with p have b: "\<not> byte c < 32" by auto
      show ?thesis
      proof (cases "utf8_len s = 0")
        case True
        with 3 b p obtain t' where "scan_str cs = Some (t', r)" by auto
        then have "length r < length cs" using "1.IH"(3) [OF Cons 3 b True] by simp
        with Cons show ?thesis by simp
      next
        case False
        with 3 b p obtain t' where "scan_str (drop (utf8_len s) s) = Some (t', r)" by auto
        then have "length r < length (drop (utf8_len s) s)" using "1.IH"(4) [OF Cons 3 b False] by simp
        with Cons show ?thesis by simp
      qed
    qed
  qed
qed

lemma length_dropWhile_less: "takeWhile P s \<noteq> [] \<Longrightarrow> length (dropWhile P s) < length s"
  by (cases s) (auto simp: le_imp_less_Suc length_dropWhile_le split: if_splits)

lemma scan_digits1_shorter: "scan_digits1 s = Some (t, r) \<Longrightarrow> length r < length s"
  using length_dropWhile_less [of is_digit s] by (auto simp: scan_digits1_def Let_def split: if_splits)

lemma scan_int_shorter: "scan_int s = Some (t, r) \<Longrightarrow> length r < length s"
  by (auto simp: scan_int_def dest: scan_digits1_shorter split: list.splits if_splits)

lemma scan_frac_shorter: "scan_frac s = Some (t, r) \<Longrightarrow> length r \<le> length s"
  by (auto simp: scan_frac_def dest!: scan_digits1_shorter split: list.splits if_splits)

lemma scan_exp_shorter: "scan_exp s = Some (t, r) \<Longrightarrow> length r \<le> length s"
  by (auto simp: scan_exp_def dest!: scan_digits1_shorter split: list.splits if_splits)

lemma scan_number_shorter: "scan_number s = Some (t, r) \<Longrightarrow> length r < length s"
  by (auto simp: scan_number_def split: list.splits if_splits option.splits
      dest!: scan_int_shorter scan_frac_shorter scan_exp_shorter)

lemma next_tok_shorter: "next_tok s = Some (t, r) \<Longrightarrow> length r < length s"
  by (auto simp: next_tok_def split: list.splits option.splits if_splits
      dest: scan_str_shorter scan_number_shorter)

function lex_json :: "string \<Rightarrow> tok list option" where
  "lex_json s = (let s = dropWhile json_space s in
     if s = [] then Some []
     else case next_tok s of None \<Rightarrow> None
       | Some (t, r) \<Rightarrow> map_option ((#) t) (lex_json r))"
  by pat_completeness auto
termination
  by (relation "measure length")
    (auto dest!: next_tok_shorter intro: less_le_trans length_dropWhile_le)

declare lex_json.simps [simp del]

text \<open>
  The parser recurses with fuel: every call consumes a token, so one more than the number of tokens
  is enough.
\<close>

fun p_value :: "nat \<Rightarrow> tok list \<Rightarrow> (json \<times> tok list) option"
and p_elems :: "nat \<Rightarrow> tok list \<Rightarrow> (json list \<times> tok list) option"
and p_members :: "nat \<Rightarrow> tok list \<Rightarrow> ((string \<times> json) list \<times> tok list) option" where
  "p_value 0 ts = None"
| "p_value (Suc n) ts = (case ts of [] \<Rightarrow> None | t # r \<Rightarrow>
     (case t of TNull \<Rightarrow> Some (JNull, r) | TTrue \<Rightarrow> Some (JBool True, r) | TFalse \<Rightarrow> Some (JBool False, r)
      | TNum s \<Rightarrow> Some (JNum s, r) | TStr s \<Rightarrow> Some (JStr s, r)
      | TOpenArr \<Rightarrow> (case r of TCloseArr # r' \<Rightarrow> Some (JArr [], r')
          | _ \<Rightarrow> map_option (apfst JArr) (p_elems n r))
      | TOpenObj \<Rightarrow> (case r of TCloseObj # r' \<Rightarrow> Some (JObj [], r')
          | _ \<Rightarrow> map_option (apfst JObj) (p_members n r))
      | _ \<Rightarrow> None))"
| "p_elems 0 ts = None"
| "p_elems (Suc n) ts = (case p_value n ts of
     Some (x, TCloseArr # r) \<Rightarrow> Some ([x], r)
   | Some (x, TComma # r) \<Rightarrow> map_option (apfst ((#) x)) (p_elems n r)
   | _ \<Rightarrow> None)"
| "p_members 0 ts = None"
| "p_members (Suc n) ts = (case ts of TStr k # TColon # r0 \<Rightarrow>
     (case p_value n r0 of
       Some (x, TCloseObj # r) \<Rightarrow> Some ([(k, x)], r)
     | Some (x, TComma # r) \<Rightarrow> map_option (apfst ((#) (k, x))) (p_members n r)
     | _ \<Rightarrow> None) | _ \<Rightarrow> None)"

text \<open>Documents nested deeper than 10000 are refused.\<close>

fun nesting :: "int \<Rightarrow> tok list \<Rightarrow> int" where
  "nesting d [] = d"
| "nesting d (t # ts) = (if t = TOpenObj \<or> t = TOpenArr then nesting (d + 1) ts
     else if t = TCloseObj \<or> t = TCloseArr then max d (nesting (d - 1) ts)
     else nesting d ts)"

definition json_parse :: "string \<Rightarrow> json option" where
  "json_parse s = (case lex_json s of None \<Rightarrow> None
     | Some ts \<Rightarrow> if 10000 < nesting 0 ts then None
         else case p_value (2 * length ts + 1) ts of Some (j, []) \<Rightarrow> Some j | _ \<Rightarrow> None)"

section \<open>Printing float64\<close>

text \<open>
  \<open>shortest n d a\<close> looks for the fewest decimals \<open>d\<close> such that some \<open>m / 10 ^ d\<close> reads back as the
  positive value \<open>a\<close>, the nearest one first.  Every float64 is a multiple of \<open>2 ^ -1074\<close>, so the
  search ends at 1074 decimals at the latest.
\<close>

definition reads_back :: "rat \<Rightarrow> int \<Rightarrow> int \<Rightarrow> bool" where
  "reads_back a m d \<longleftrightarrow> 0 < m \<and> fl (of_int m * 10 powi (- d)) = Fin a"

fun shortest :: "nat \<Rightarrow> int \<Rightarrow> rat \<Rightarrow> int \<times> int" where
  "shortest 0 d a = (\<lfloor>a * 10 powi d\<rfloor>, d)"
| "shortest (Suc n) d a =
     (let m = rne (a * 10 powi d); l = \<lfloor>a * 10 powi d\<rfloor> in
      if reads_back a m d then (m, d)
      else if reads_back a l d then (l, d)
      else if reads_back a (l + 1) d then (l + 1, d)
      else shortest n (d + 1) a)"

definition fixed_point :: "int \<Rightarrow> int \<Rightarrow> string" where
  "fixed_point m d =
     (if d \<le> 0 then dec (m * 10 ^ nat (- d))
      else dec (m div 10 ^ nat d) @ CHR ''.'' # pad_dec (nat d) (m mod 10 ^ nat d))"

definition scientific :: "int \<Rightarrow> int \<Rightarrow> string" where
  "scientific m d = (let ds = dec m; e = int (length ds) - 1 - d in
     hd ds # (if tl ds = [] then [] else CHR ''.'' # tl ds) @ CHR ''e'' #
     (if e < 0 then CHR ''-'' # dec (- e) else CHR ''+'' # dec e))"

definition fmt_float :: "f64 \<Rightarrow> string option" where
  "fmt_float v = (case v of
     Fin x \<Rightarrow>
       (let a = \<bar>x\<bar>; sign = (if x < 0 then ''-'' else []) in
        if a = 0 then Some ''0''
        else if a < rnd (1 / 1000000) \<or> 1000000000000000000000 \<le> a
        then Some (sign @ (\<lambda>(m, d). scientific m d) (shortest 1384 (if a < 1 then 0 else - 309) a))
        else Some (sign @ (\<lambda>(m, d). fixed_point m d) (shortest 1096 (- 21) a)))
   | _ \<Rightarrow> None)"

section \<open>Decoding into Go values\<close>

definition ParseInt :: "string \<Rightarrow> int option" where
  "ParseInt s = (let (neg, t) = opt_sign s in
     if t = [] then None
     else case parse_digits 0 t of Inl e \<Rightarrow> None
       | Inr n \<Rightarrow> if (if neg then n \<le> 9223372036854775808 else n < 9223372036854775808)
           then Some (if neg then - n else n) else None)"

text \<open>A decoder takes the value found and the one already there; \<open>null\<close> leaves that one alone.\<close>

definition json_int :: "json \<Rightarrow> int \<Rightarrow> int option" where
  "json_int j x = (case j of JNull \<Rightarrow> Some x | JNum s \<Rightarrow> ParseInt s | _ \<Rightarrow> None)"

definition json_u64 :: "json \<Rightarrow> u64 \<Rightarrow> u64 option" where
  "json_u64 j x = (case j of JNull \<Rightarrow> Some x
     | JNum s \<Rightarrow> (case ParseUint s of Inl e \<Rightarrow> None | Inr n \<Rightarrow> Some n) | _ \<Rightarrow> None)"

definition json_f64 :: "json \<Rightarrow> f64 \<Rightarrow> f64 option" where
  "json_f64 j x = (case j of JNull \<Rightarrow> Some x
     | JNum s \<Rightarrow> (case ParseFloat s of Inl e \<Rightarrow> None | Inr v \<Rightarrow> Some v) | _ \<Rightarrow> None)"

definition json_str :: "json \<Rightarrow> string \<Rightarrow> string option" where
  "json_str j x = (case j of JNull \<Rightarrow> Some x | JStr s \<Rightarrow> Some s | _ \<Rightarrow> None)"

text \<open>
  A struct: the members in order, each into the field of its name, by the exact name or else without
  regard to case; unknown names are ignored, and a member of the wrong shape is an error.
\<close>

type_synonym 'r field_table = "(string \<times> (json \<Rightarrow> 'r \<Rightarrow> 'r option)) list"

definition find_field :: "'r field_table \<Rightarrow> string \<Rightarrow> (json \<Rightarrow> 'r \<Rightarrow> 'r option) option" where
  "find_field tab k = (case map_of tab k of Some f \<Rightarrow> Some f
     | None \<Rightarrow> map_of (map (\<lambda>(n, f). (map lower n, f)) tab) (map lower k))"

fun json_members :: "'r field_table \<Rightarrow> (string \<times> json) list \<Rightarrow> 'r \<Rightarrow> 'r option" where
  "json_members tab [] r = Some r"
| "json_members tab ((k, j) # ms) r =
     (case find_field tab k of None \<Rightarrow> json_members tab ms r
      | Some f \<Rightarrow> (case f j r of None \<Rightarrow> None | Some r' \<Rightarrow> json_members tab ms r'))"

definition json_struct :: "'r field_table \<Rightarrow> json \<Rightarrow> 'r \<Rightarrow> 'r option" where
  "json_struct tab j r = (case j of JNull \<Rightarrow> Some r | JObj ms \<Rightarrow> json_members tab ms r | _ \<Rightarrow> None)"

text \<open>A slice: decoded element by element from a zero value.\<close>

fun json_elems :: "(json \<Rightarrow> 'r \<Rightarrow> 'r option) \<Rightarrow> 'r \<Rightarrow> json list \<Rightarrow> 'r list option" where
  "json_elems f z [] = Some []"
| "json_elems f z (j # js) = (case f j z of None \<Rightarrow> None
     | Some x \<Rightarrow> map_option ((#) x) (json_elems f z js))"

definition json_slice :: "(json \<Rightarrow> 'r \<Rightarrow> 'r option) \<Rightarrow> 'r \<Rightarrow> json \<Rightarrow> 'r list \<Rightarrow> 'r list option" where
  "json_slice f z j xs = (case j of JNull \<Rightarrow> Some [] | JArr js \<Rightarrow> json_elems f z js | _ \<Rightarrow> None)"

end
