(* ===== verification/TimeText.thy ===== *)
theory TimeText
  imports GoTime GoText
begin

text \<open>
  Fixed-width decimal numbers and the RFC 3339 form in which \<open>encoding/json\<close> writes and reads an
  instant: the calendar, \<open>fmt_time\<close> and \<open>parse_time\<close>.  The reader accepts the forms of Go's
  RFC 3339 fast path, with a fraction of any length and a numeric zone; the more lenient layouts of
  its fallback (a one-digit hour, a comma before the fraction) are refused.

  The lemmas show that a fixed-width number keeps the order and the value of the number, and that
  reading a written instant gives it back to the nanosecond.
\<close>

section \<open>Fixed-width numbers\<close>

fun digs :: "nat \<Rightarrow> int \<Rightarrow> string" where
  "digs 0 n = []"
| "digs (Suc w) n = digs w (n div 10) @ [digit (n mod 10)]"

lemma length_digs [simp]: "length (digs w n) = w"
  by (induction w arbitrary: n) auto

lemma digit_0 [simp]: "digit 0 = CHR ''0''"
  by code_simp

lemma digs_0: "digs w 0 = replicate w (CHR ''0'')"
  by (induction w) (simp_all add: replicate_append_same)

lemma digs_dec:
  "0 \<le> n \<Longrightarrow> n < 10 ^ w \<Longrightarrow> 0 < w \<Longrightarrow>
     length (dec n) \<le> w \<and> digs w n = replicate (w - length (dec n)) (CHR ''0'') @ dec n"
proof (induction n arbitrary: w rule: dec.induct)
  case (1 n)
  obtain v where w: "w = Suc v" using "1.prems"(3) by (cases w) auto
  show ?case
  proof (cases "n < 10")
    case True
    then have "n div 10 = 0" "n mod 10 = n" using "1.prems"(1) by simp_all
    with True show ?thesis by (simp add: w digs_0 dec.simps [of n])
  next
    case False
    then have v: "0 < v" using "1.prems"(2) w by (cases v) auto
    have b: "n div 10 < 10 ^ v" "0 \<le> n div 10" using "1.prems"(1,2) w by auto
    have IH: "length (dec (n div 10)) \<le> v"
      "digs v (n div 10) = replicate (v - length (dec (n div 10))) (CHR ''0'') @ dec (n div 10)"
      using "1.IH" [OF False b(2,1) v] by auto
    have d: "dec n = dec (n div 10) @ [digit (n mod 10)]" using False by (subst dec.simps) simp
    show ?thesis using IH by (simp add: w d)
  qed
qed

lemma pad_dec_digs: "0 \<le> n \<Longrightarrow> n < 10 ^ w \<Longrightarrow> 0 < w \<Longrightarrow> pad_dec w n = digs w n"
  using digs_dec [of n w] by (simp add: pad_dec_def)

text \<open>The value of a text of digits.\<close>

fun num_from :: "int \<Rightarrow> string \<Rightarrow> int option" where
  "num_from n [] = Some n"
| "num_from n (c # cs) = (if is_digit c then num_from (n * 10 + digit_val c) cs else None)"

lemma num_from_append:
  "num_from n (xs @ ys) = (case num_from n xs of None \<Rightarrow> None | Some k \<Rightarrow> num_from k ys)"
  by (induction xs arbitrary: n) auto

lemma num_from_digs: "0 \<le> n \<Longrightarrow> num_from k (digs w n) = Some (k * 10 ^ w + n mod 10 ^ w)"
proof (induction w arbitrary: n)
  case (Suc w)
  have "n mod 10 ^ Suc w = n div 10 mod 10 ^ w * 10 + n mod 10"
    using zmod_zmult2_eq [of "10 ^ w" n 10] by (simp add: ac_simps)
  with Suc.IH [of "n div 10"] Suc.prems show ?case
    by (simp add: num_from_append digit_facts algebra_simps)
qed simp

lemma digs_digits: "0 \<le> n \<Longrightarrow> list_all is_digit (digs w n)"
  by (induction w arbitrary: n) (auto simp: digit_facts)

section \<open>The order of fixed-width numbers\<close>

lemma digit_less:
  assumes "0 \<le> a" "a < 10" "0 \<le> b" "b < 10"
  shows "digit a < digit b \<longleftrightarrow> a < b"
proof -
  have "digit a < digit b \<longleftrightarrow> (of_char (digit a) :: int) < of_char (digit b)"
    by (simp only: less_char_def of_nat_less_iff flip: of_nat_of_char [where 'a = int])
  then show ?thesis using assms by (simp add: digit_def)
qed

lemma append_less_same_length:
  fixes xs ys us vs :: "'a::linorder list"
  assumes "length xs = length ys"
  shows "xs @ us < ys @ vs \<longleftrightarrow> xs < ys \<or> xs = ys \<and> us < vs"
  using assms by (induction xs ys rule: list_induct2) auto

lemma num_from_digs_0: "0 \<le> n \<Longrightarrow> n < 10 ^ w \<Longrightarrow> num_from 0 (digs w n) = Some n"
  by (simp add: num_from_digs)

lemma digs_inject:
  assumes "0 \<le> m" "m < 10 ^ w" "0 \<le> n" "n < 10 ^ w"
  shows "digs w m = digs w n \<longleftrightarrow> m = n"
proof
  assume "digs w m = digs w n"
  then have "num_from 0 (digs w m) = num_from 0 (digs w n)" by (rule arg_cong)
  then show "m = n" using assms by (simp only: num_from_digs_0 option.inject)
qed simp

lemma div_mod_less: "m div 10 < n div 10 \<or> m div 10 = n div 10 \<and> m mod 10 < n mod 10 \<longleftrightarrow> m < (n::int)"
proof -
  have "m = 10 * (m div 10) + m mod 10" "n = 10 * (n div 10) + n mod 10" by simp_all
  moreover have "0 \<le> m mod 10" "m mod 10 < 10" "0 \<le> n mod 10" "n mod 10 < 10" by simp_all
  ultimately show ?thesis by linarith
qed

text \<open>Among numbers that fit the width, the order of the texts is the order of the numbers.\<close>

lemma digs_less:
  "0 \<le> m \<Longrightarrow> m < 10 ^ w \<Longrightarrow> 0 \<le> n \<Longrightarrow> n < 10 ^ w \<Longrightarrow> digs w m < digs w n \<longleftrightarrow> m < n"
proof (induction w arbitrary: m n)
  case (Suc w)
  have b: "0 \<le> m div 10" "m div 10 < 10 ^ w" "0 \<le> n div 10" "n div 10 < 10 ^ w" using Suc.prems by auto
  have "digs (Suc w) m < digs (Suc w) n
      \<longleftrightarrow> m div 10 < n div 10 \<or> m div 10 = n div 10 \<and> m mod 10 < n mod 10"
    by (simp add: append_less_same_length Suc.IH [OF b] digs_inject [OF b] digit_less)
  also have "\<dots> \<longleftrightarrow> m < n" by (rule div_mod_less)
  finally show ?case .
qed simp

section \<open>The calendar\<close>

definition leap_year :: "int \<Rightarrow> bool" where
  "leap_year y \<longleftrightarrow> y mod 4 = 0 \<and> (y mod 100 \<noteq> 0 \<or> y mod 400 = 0)"

definition month_lengths :: "bool \<Rightarrow> int list" where
  "month_lengths leap = [31, if leap then 29 else 28, 31, 30, 31, 30, 31, 31, 30, 31, 30, 31]"

fun month_day :: "int list \<Rightarrow> int \<Rightarrow> int \<Rightarrow> int \<times> int" where
  "month_day [] m n = (m, n + 1)"
| "month_day (l # ls) m n = (if n < l then (m, n + 1) else month_day ls (m + 1) (n - l))"

definition year_start :: "int \<Rightarrow> int" where
  "year_start y = 365 * (y - 1) + (y - 1) div 4 - (y - 1) div 100 + (y - 1) div 400"

text \<open>Year and day of the year from the days since 1 January of year 1.\<close>

definition year_day :: "int \<Rightarrow> int \<times> int" where
  "year_day n =
     (let e = n div 146097; n = n mod 146097;
          c = n div 36524 - n div 36524 div 4; n = n - 36524 * c;
          q = n div 1461; n = n - 1461 * q;
          y = n div 365 - n div 365 div 4
      in (400 * e + 100 * c + 4 * q + y + 1, n - 365 * y))"

definition civil :: "int \<Rightarrow> int \<times> int \<times> int" where
  "civil n = (let (y, yd) = year_day n; (m, d) = month_day (month_lengths (leap_year y)) 1 yd
     in (y, m, d))"

definition days_of :: "int \<Rightarrow> int \<Rightarrow> int \<Rightarrow> int" where
  "days_of y m d =
     year_start y + sum_list (take (nat (m - 1)) (month_lengths (leap_year y))) + d - 1"

definition day_ns :: int where "day_ns = 86400000000000"

section \<open>Writing and reading instants\<close>

definition frac_digits :: "int \<Rightarrow> string" where
  "frac_digits ns = rev (dropWhile (\<lambda>c. c = CHR ''0'') (rev (pad_dec 9 ns)))"

definition fmt_time :: "time \<Rightarrow> string option" where
  "fmt_time t =
     (let (y, m, d) = civil (t div day_ns); r = t mod day_ns; s = r div 1000000000; ns = r mod 1000000000
      in if y < 0 \<or> 9999 < y then None
         else Some (pad_dec 4 y @ ''-'' @ pad_dec 2 m @ ''-'' @ pad_dec 2 d @ ''T''
           @ pad_dec 2 (s div 3600) @ '':'' @ pad_dec 2 (s div 60 mod 60) @ '':'' @ pad_dec 2 (s mod 60)
           @ (if ns = 0 then [] else CHR ''.'' # frac_digits ns) @ ''Z''))"

definition num_in :: "string \<Rightarrow> nat \<Rightarrow> nat \<Rightarrow> int \<Rightarrow> int \<Rightarrow> int option" where
  "num_in s i w lo hi = (case num_from 0 (take w (drop i s)) of
     Some n \<Rightarrow> if lo \<le> n \<and> n \<le> hi then Some n else None | None \<Rightarrow> None)"

definition char_at :: "string \<Rightarrow> nat \<Rightarrow> char \<Rightarrow> bool" where
  "char_at s i c \<longleftrightarrow> i < length s \<and> s ! i = c"

text \<open>The fraction, in nanoseconds: nine digits count, and the rest of the text.\<close>

definition parse_frac :: "string \<Rightarrow> int \<times> string" where
  "parse_frac s = (case s of [] \<Rightarrow> (0, []) | c # cs \<Rightarrow>
     (let ds = takeWhile is_digit cs in
      if c = CHR ''.'' \<and> ds \<noteq> [] then
        (case num_from 0 (take 9 (ds @ replicate 9 (CHR ''0''))) of
           Some n \<Rightarrow> (n, dropWhile is_digit cs) | None \<Rightarrow> (0, s))
      else (0, s)))"

definition parse_zone :: "string \<Rightarrow> int option" where
  "parse_zone s =
     (if s = ''Z'' then Some 0
      else if length s \<noteq> 6 then None
      else case (num_in s 1 2 0 23, num_in s 4 2 0 59) of
        (Some h, Some m) \<Rightarrow>
          if char_at s 3 (CHR '':'') \<and> char_at s 0 (CHR ''+'') then Some ((h * 60 + m) * 60)
          else if char_at s 3 (CHR '':'') \<and> char_at s 0 (CHR ''-'') then Some (- ((h * 60 + m) * 60))
          else None
      | _ \<Rightarrow> None)"

definition days_in :: "int \<Rightarrow> int \<Rightarrow> int" where
  "days_in m y = month_lengths (leap_year y) ! nat (m - 1)"

definition bind_opt :: "'a option \<Rightarrow> ('a \<Rightarrow> 'b option) \<Rightarrow> 'b option" where
  "bind_opt x f = (case x of None \<Rightarrow> None | Some v \<Rightarrow> f v)"

lemma bind_opt_simps [simp]: "bind_opt None f = None" "bind_opt (Some v) f = f v"
  by (simp_all add: bind_opt_def)

definition parse_time :: "string \<Rightarrow> time option" where
  "parse_time s =
     (if length s < 19 then None
      else bind_opt (num_in s 0 4 0 9999) (\<lambda>y. bind_opt (num_in s 5 2 1 12) (\<lambda>m.
        bind_opt (num_in s 8 2 1 (days_in m y)) (\<lambda>d. bind_opt (num_in s 11 2 0 23) (\<lambda>h.
        bind_opt (num_in s 14 2 0 59) (\<lambda>mi. bind_opt (num_in s 17 2 0 59) (\<lambda>sec.
        if char_at s 4 (CHR ''-'') \<and> char_at s 7 (CHR ''-'') \<and> char_at s 10 (CHR ''T'')
          \<and> char_at s 13 (CHR '':'') \<and> char_at s 16 (CHR '':'')
        then let (ns, z) = parse_frac (drop 19 s) in
          map_option (\<lambda>off. days_of y m d * day_ns + ((h * 60 + mi) * 60 + sec - off) * 1000000000 + ns)
            (parse_zone z)
        else None)))))))"

section \<open>The calendar is right\<close>

lemma quarter:
  fixes n l r k :: int
  assumes "0 \<le> n" "n \<le> 4 * l" "k = n div l" "0 < l" "r = k - k div 4"
  shows "0 \<le> r" "r \<le> 3" "0 \<le> n - l * r" "n - l * r \<le> l" "n - l * r < l \<or> r = 3 \<and> n = 4 * l"
proof -
  have k: "n = l * k + n mod l" "0 \<le> n mod l" "n mod l < l" using assms by simp_all
  have "0 \<le> k" using assms by (simp add: pos_imp_zdiv_nonneg_iff)
  have "k \<le> 4"
  proof (rule ccontr)
    assume "\<not> k \<le> 4"
    then have "l * 5 \<le> l * k" using assms(4) by (intro mult_left_mono) auto
    with k assms(2,4) show False by linarith
  qed
  consider "k = 4" | "0 \<le> k" "k \<le> 3" using \<open>0 \<le> k\<close> \<open>k \<le> 4\<close> by linarith
  then show "0 \<le> r" "r \<le> 3" "0 \<le> n - l * r" "n - l * r \<le> l" "n - l * r < l \<or> r = 3 \<and> n = 4 * l"
    using k assms(2,5) by (cases; simp)+
qed

text \<open>The year of a day number and the day in it, from the cycles of 400, 100, 4 and 1 years.\<close>

lemma year_start_cycles:
  assumes "0 \<le> c" "c \<le> 3" "0 \<le> q" "q \<le> 24" "0 \<le> r" "r \<le> 3"
  shows "year_start (400 * e + 100 * c + 4 * q + r + 1) = 146097 * e + 36524 * c + 1461 * q + 365 * r"
    and "leap_year (400 * e + 100 * c + 4 * q + r + 1) \<longleftrightarrow> r = 3 \<and> (q = 24 \<longrightarrow> c = 3)"
proof -
  let ?y = "400 * e + 100 * c + 4 * q + r"
  have "?y div 4 = 100 * e + 25 * c + q" by (rule int_div_pos_eq [where r = r]) (use assms in simp_all)
  moreover have "?y div 100 = 4 * e + c" by (rule int_div_pos_eq [where r = "4 * q + r"]) (use assms in simp_all)
  moreover have "?y div 400 = e" by (rule int_div_pos_eq [where r = "100 * c + 4 * q + r"]) (use assms in simp_all)
  ultimately show "year_start (?y + 1) = 146097 * e + 36524 * c + 1461 * q + 365 * r"
    by (simp add: year_start_def)
  define z where "z = ?y + 1"
  have m4: "z mod 4 = (if r = 3 then 0 else r + 1)"
    by (rule int_mod_pos_eq [where q = "100 * e + 25 * c + q + (if r = 3 then 1 else 0)"])
      (use assms in \<open>simp_all add: z_def\<close>)
  have m100: "z mod 100 = (if q = 24 then 0 else 4 * q + 4)" if "r = 3"
    by (rule int_mod_pos_eq [where q = "4 * e + c + (if q = 24 then 1 else 0)"])
      (use assms that in \<open>simp_all add: z_def\<close>)
  have m400: "z mod 400 = (if c = 3 then 0 else 100 * c + 100)" if "r = 3" "q = 24"
    by (rule int_mod_pos_eq [where q = "e + (if c = 3 then 1 else 0)"])
      (use assms that in \<open>simp_all add: z_def\<close>)
  have "leap_year z \<longleftrightarrow> r = 3 \<and> (q = 24 \<longrightarrow> c = 3)"
  proof (cases "r = 3")
    case True
    with m4 m100 m400 assms show ?thesis by (cases "q = 24"; cases "c = 3") (simp_all add: leap_year_def)
  qed (use m4 assms in \<open>simp add: leap_year_def\<close>)
  then show "leap_year (?y + 1) \<longleftrightarrow> r = 3 \<and> (q = 24 \<longrightarrow> c = 3)" by (simp add: z_def)
qed

lemma year_day_correct:
  assumes "year_day n = (y, yd)"
  shows "n = year_start y + yd" "0 \<le> yd" "yd < (if leap_year y then 366 else 365)"
proof -
  define e where "e = n div 146097"
  define n1 where "n1 = n mod 146097"
  define c where "c = n1 div 36524 - n1 div 36524 div 4"
  define n2 where "n2 = n1 - 36524 * c"
  define q where "q = n2 div 1461"
  define n3 where "n3 = n2 - 1461 * q"
  define r where "r = n3 div 365 - n3 div 365 div 4"
  have y: "y = 400 * e + 100 * c + 4 * q + r + 1" "yd = n3 - 365 * r"
    using assms unfolding year_day_def Let_def e_def n1_def c_def n2_def q_def n3_def r_def by simp_all
  have n: "n = 146097 * e + n1" "0 \<le> n1" "n1 \<le> 4 * 36524" by (simp_all add: e_def n1_def)
  note c = quarter [OF n(2,3) refl _ c_def, simplified, folded n2_def]
  have n2: "0 \<le> n2" "n2 \<le> 36524" using c(3,4) by (simp_all add: n2_def)
  then have q: "0 \<le> q" "q \<le> 24"
    using zdiv_mono1 [of n2 36524 1461] by (simp_all add: q_def pos_imp_zdiv_nonneg_iff)
  have n3: "0 \<le> n3" "n3 \<le> 4 * 365"
    using pos_mod_bound [of 1461 n2] by (simp_all add: n3_def q_def minus_mult_div_eq_mod)
  note r = quarter [OF n3 refl _ r_def, simplified, folded y(2)]
  note s = year_start_cycles [OF c(1,2) q r(1,2), of e, folded y(1)]
  show "n = year_start y + yd" using n(1) s(1) by (simp add: y(2) n3_def n2_def)
  show "0 \<le> yd" using r(3) by (simp add: y(2))
  have "q = 24 \<Longrightarrow> n3 = 1460 \<Longrightarrow> c = 3" using c(5) by (auto simp: n3_def)
  then show "yd < (if leap_year y then 366 else 365)" using r(4,5) s(2) by auto
qed

lemma month_day_correct:
  assumes "month_day ls m n = (m', d)" "0 \<le> n" "n < sum_list ls"
  shows "\<exists>i < length ls. m' = m + int i \<and> 1 \<le> d \<and> d \<le> ls ! i \<and> n = sum_list (take i ls) + d - 1"
  using assms
proof (induction ls arbitrary: m n)
  case (Cons l ls)
  show ?case
  proof (cases "n < l")
    case True
    with Cons.prems show ?thesis by (intro exI [of _ 0]) auto
  next
    case False
    with Cons obtain i where "i < length ls" "m' = m + 1 + int i" "1 \<le> d" "d \<le> ls ! i"
      "n - l = sum_list (take i ls) + d - 1" by fastforce
    then show ?thesis by (intro exI [of _ "Suc i"]) auto
  qed
qed simp

lemma civil_correct:
  assumes "civil n = (y, m, d)"
  shows "days_of y m d = n" "1 \<le> m" "m \<le> 12" "1 \<le> d" "d \<le> days_in m y"
proof -
  obtain yd where yd: "year_day n = (y, yd)" "month_day (month_lengths (leap_year y)) 1 yd = (m, d)"
    using assms by (auto simp: civil_def split: prod.splits)
  have "yd < sum_list (month_lengths (leap_year y))"
    using year_day_correct(3) [OF yd(1)] by (simp add: month_lengths_def split: if_splits)
  then obtain i where "i < length (month_lengths (leap_year y))" "m = 1 + int i" "1 \<le> d"
    "d \<le> month_lengths (leap_year y) ! i" "yd = sum_list (take i (month_lengths (leap_year y))) + d - 1"
    using month_day_correct [OF yd(2) year_day_correct(2) [OF yd(1)]] by blast
  then show "days_of y m d = n" "1 \<le> m" "m \<le> 12" "1 \<le> d" "d \<le> days_in m y"
    using year_day_correct(1) [OF yd(1)] by (simp_all add: days_of_def days_in_def month_lengths_def)
qed

lemma days_in_le: "1 \<le> m \<Longrightarrow> m \<le> 12 \<Longrightarrow> days_in m y \<le> 31"
proof -
  assume "1 \<le> m" "m \<le> 12"
  then have "nat (m - 1) < length (month_lengths (leap_year y))" by (simp add: month_lengths_def)
  then have "days_in m y \<in> set (month_lengths (leap_year y))" unfolding days_in_def by (rule nth_mem)
  then show ?thesis by (auto simp: month_lengths_def split: if_splits)
qed

section \<open>A written instant reads back\<close>

lemma digs_2: "digs 2 n = [digit (n div 10 mod 10), digit (n mod 10)]"
  by (simp add: numeral_2_eq_2)

lemma strip_zeros: "\<exists>k. s = rev (dropWhile (\<lambda>c. c = z) (rev s)) @ replicate k z"
proof -
  have "takeWhile (\<lambda>c. c = z) (rev s) = replicate (length (takeWhile (\<lambda>c. c = z) (rev s))) z"
    by (rule replicate_length_same [symmetric]) (auto dest: set_takeWhileD)
  then obtain k where "takeWhile (\<lambda>c. c = z) (rev s) = replicate k z" by blast
  moreover have "s = rev (takeWhile (\<lambda>c. c = z) (rev s) @ dropWhile (\<lambda>c. c = z) (rev s))" by simp
  ultimately show ?thesis by (intro exI [of _ k]) (simp del: takeWhile_dropWhile_id)
qed

lemma frac_digits_facts:
  assumes "0 < ns" "ns < 1000000000"
  shows "frac_digits ns \<noteq> []" "list_all is_digit (frac_digits ns)"
    "take 9 (frac_digits ns @ replicate 9 (CHR ''0'')) = digs 9 ns"
proof -
  have p: "pad_dec 9 ns = digs 9 ns" using assms by (intro pad_dec_digs) auto
  obtain k where k: "digs 9 ns = frac_digits ns @ replicate k (CHR ''0'')"
    using strip_zeros [of "digs 9 ns" "CHR ''0''"] by (auto simp: frac_digits_def p)
  then have l: "length (frac_digits ns) + k = 9" using length_digs [of 9 ns] by simp
  then have "take 9 (frac_digits ns @ replicate 9 (CHR ''0'')) = frac_digits ns @ replicate k (CHR ''0'')"
    by (simp add: take_append min_def)
  then show "take 9 (frac_digits ns @ replicate 9 (CHR ''0'')) = digs 9 ns" using k by simp
  have d: "list_all is_digit (digs 9 ns)" using assms by (intro digs_digits) simp
  then show "list_all is_digit (frac_digits ns)" by (simp add: k)
  show "frac_digits ns \<noteq> []"
  proof
    assume "frac_digits ns = []"
    with k l have "digs 9 ns = digs 9 0" by (simp add: digs_0)
    with digs_inject [of ns 9 0] assms show False by simp
  qed
qed

definition frac_part :: "int \<Rightarrow> string" where
  "frac_part ns = (if ns = 0 then [] else CHR ''.'' # frac_digits ns)"

lemma parse_frac_part:
  assumes "0 \<le> ns" "ns < 1000000000"
  shows "parse_frac (frac_part ns @ ''Z'') = (ns, ''Z'')"
proof (cases "ns = 0")
  case False
  then have n: "0 < ns" using assms by simp
  note f = frac_digits_facts [OF n assms(2)]
  have "takeWhile is_digit (frac_digits ns @ ''Z'') = frac_digits ns" "dropWhile is_digit (frac_digits ns @ ''Z'') = ''Z''"
    using f(2) by (simp_all add: takeWhile_append dropWhile_append list_all_iff is_digit_def)
  then show ?thesis using False f(1,3) num_from_digs_0 [OF assms(1), of 9] assms(2)
    by (simp add: frac_part_def parse_frac_def Let_def)
qed (simp add: frac_part_def parse_frac_def is_digit_def)

lemma num_in_digs:
  assumes "take w (drop i s) = digs w n" "0 \<le> n" "n < 10 ^ w" "lo \<le> n" "n \<le> hi"
  shows "num_in s i w lo hi = Some n"
  using assms num_from_digs_0 [of n w] by (simp add: num_in_def)

text \<open>The text of a date and a time of day, field by field.\<close>

lemma parse_time_fields:
  assumes y: "0 \<le> y" "y \<le> 9999" and m: "1 \<le> m" "m \<le> 12" and d: "1 \<le> d" "d \<le> days_in m y"
    and h: "0 \<le> h" "h \<le> 23" and mi: "0 \<le> mi" "mi \<le> 59" and sec: "0 \<le> sec" "sec \<le> 59"
    and ns: "0 \<le> ns" "ns < 1000000000"
  shows "parse_time (digs 4 y @ ''-'' @ digs 2 m @ ''-'' @ digs 2 d @ ''T'' @ digs 2 h @ '':'' @ digs 2 mi
      @ '':'' @ digs 2 sec @ frac_part ns @ ''Z'')
    = Some (days_of y m d * day_ns + ((h * 60 + mi) * 60 + sec) * 1000000000 + ns)"
proof -
  let ?s = "digs 4 y @ ''-'' @ digs 2 m @ ''-'' @ digs 2 d @ ''T'' @ digs 2 h @ '':'' @ digs 2 mi
      @ '':'' @ digs 2 sec @ frac_part ns @ ''Z''"
  have "days_in m y \<le> 31" using m by (rule days_in_le)
  have n: "num_in ?s 0 4 0 9999 = Some y" "num_in ?s 5 2 1 12 = Some m" "num_in ?s 8 2 1 (days_in m y) = Some d"
    "num_in ?s 11 2 0 23 = Some h" "num_in ?s 14 2 0 59 = Some mi" "num_in ?s 17 2 0 59 = Some sec"
    using y m d h mi sec \<open>days_in m y \<le> 31\<close> by (intro num_in_digs; simp)+
  have c: "char_at ?s 4 (CHR ''-'')" "char_at ?s 7 (CHR ''-'')" "char_at ?s 10 (CHR ''T'')"
    "char_at ?s 13 (CHR '':'')" "char_at ?s 16 (CHR '':'')"
    by (simp_all add: char_at_def nth_append)
  have f: "drop 19 ?s = frac_part ns @ ''Z''" by simp
  have l: "\<not> length ?s < 19" by simp
  show ?thesis unfolding parse_time_def n bind_opt_simps f parse_frac_part [OF ns]
    using c l by (simp add: parse_zone_def)
qed

lemma time_of_day:
  fixes s :: int
  assumes "0 \<le> s" "s < 86400"
  shows "(s div 3600 * 60 + s div 60 mod 60) * 60 + s mod 60 = s" "s div 3600 \<le> 23"
proof -
  have "s div 60 div 60 = s div 3600" using zdiv_zmult2_eq [of 60 s 60] by simp
  then have "s div 60 = s div 3600 * 60 + s div 60 mod 60" using div_mult_mod_eq [of "s div 60" 60] by simp
  then show "(s div 3600 * 60 + s div 60 mod 60) * 60 + s mod 60 = s" by (simp flip: \<open>s div 60 = _\<close>)
  show "s div 3600 \<le> 23" using assms zdiv_mono1 [of s 86399 3600] by simp
qed

text \<open>Reading a written instant gives the instant, to the nanosecond.\<close>

lemma parse_fmt_time:
  assumes "fmt_time t = Some s"
  shows "parse_time s = Some t"
proof -
  obtain y m d where c: "civil (t div day_ns) = (y, m, d)" by (cases "civil (t div day_ns)") auto
  define r where "r = t mod day_ns"
  define sec where "sec = r div 1000000000"
  define ns where "ns = r mod 1000000000"
  note cc = civil_correct [OF c]
  have r: "0 \<le> r" "r < day_ns" by (simp_all add: r_def day_ns_def)
  then have sec: "0 \<le> sec" "sec < 86400" by (simp_all add: sec_def day_ns_def pos_imp_zdiv_nonneg_iff)
  have ns: "0 \<le> ns" "ns < 1000000000" by (simp_all add: ns_def)
  note tod = time_of_day [OF sec]
  have y: "0 \<le> y" "y \<le> 9999" using assms c by (auto simp: fmt_time_def Let_def split: if_splits)
  have d31: "d \<le> 31" using cc(5) days_in_le [OF cc(2,3), of y] by simp
  have tod': "0 \<le> sec div 3600" "0 \<le> sec div 60 mod 60" "sec div 60 mod 60 \<le> 59" "0 \<le> sec mod 60" "sec mod 60 \<le> 59"
    using sec(1) by (simp_all add: pos_imp_zdiv_nonneg_iff)
  have two: "pad_dec 2 k = digs 2 k" if "0 \<le> k" "k \<le> 59" for k using that by (intro pad_dec_digs) auto
  have p: "pad_dec 4 y = digs 4 y" "pad_dec 2 m = digs 2 m" "pad_dec 2 d = digs 2 d"
    "pad_dec 2 (sec div 3600) = digs 2 (sec div 3600)"
    "pad_dec 2 (sec div 60 mod 60) = digs 2 (sec div 60 mod 60)" "pad_dec 2 (sec mod 60) = digs 2 (sec mod 60)"
    using y by (intro pad_dec_digs; simp) (rule two; use cc(2-4) d31 tod(2) tod' in linarith)+
  have s: "s = digs 4 y @ ''-'' @ digs 2 m @ ''-'' @ digs 2 d @ ''T'' @ digs 2 (sec div 3600) @ '':''
      @ digs 2 (sec div 60 mod 60) @ '':'' @ digs 2 (sec mod 60) @ frac_part ns @ ''Z''"
    using assms y unfolding fmt_time_def Let_def c prod.case r_def [symmetric] sec_def [symmetric]
      ns_def [symmetric] p frac_part_def [symmetric]
    by simp
  have "parse_time s = Some (days_of y m d * day_ns
      + ((sec div 3600 * 60 + sec div 60 mod 60) * 60 + sec mod 60) * 1000000000 + ns)"
    unfolding s by (rule parse_time_fields [OF y cc(2-5) tod'(1) tod(2) tod'(2-5) ns])
  also have "days_of y m d * day_ns + ((sec div 3600 * 60 + sec div 60 mod 60) * 60 + sec mod 60) * 1000000000 + ns = t"
    unfolding tod(1) cc(1) by (simp add: r_def sec_def ns_def)
  finally show ?thesis .
qed

end
