(* ===== verification/Derive.thy ===== *)
theory Derive
  imports Sample
begin

text \<open>
  Rates between two consecutive readings (\<open>internal/metrics/derive.go\<close>).  \<open>Derive\<close> returns
  \<open>None\<close> where the code returns \<open>false\<close>; the closures \<open>share\<close> and \<open>rate\<close> take the variables they
  capture as arguments.  The lemmas give the exact condition under which a derivation exists, the
  accuracy and the range of the CPU percentages under binary64 rounding, and the reading for
  which the busy share comes out negative.
\<close>

record Rates =
  r_Interval :: duration
  r_CPUBusy :: f64
  r_CPUIOWait :: f64
  r_CPUIdle :: f64
  r_CPUUser :: f64
  r_CPUSystem :: f64
  r_CPUSteal :: f64
  r_MemUsed :: u64
  r_MemTotal :: u64
  r_SwapUsed :: u64
  r_SwapTotal :: u64
  r_Load1 :: f64
  r_Load5 :: f64
  r_Load15 :: f64
  r_NetRx :: f64
  r_NetTx :: f64
  r_DiskRead :: f64
  r_DiskWrite :: f64
  r_FS :: "Filesystem list"

definition saturatingSub :: "u64 \<Rightarrow> u64 \<Rightarrow> u64" where
  "saturatingSub a b = (if a < b then 0 else a - b)"

definition share :: "u64 \<Rightarrow> u64 \<Rightarrow> u64 \<Rightarrow> f64" where
  "share tot now before =
     (if now < before then Fin 0 else of_u64 (now - before) / of_u64 tot * Fin 100)"

definition rate :: "f64 \<Rightarrow> u64 \<Rightarrow> u64 \<Rightarrow> f64 option" where
  "rate seconds now before =
     (if now < before then None else Some (of_u64 (now - before) / seconds))"

definition Derive :: "Sample \<Rightarrow> Sample \<Rightarrow> Rates option" where
  "Derive prev cur =
     (let interval = Sub (At cur) (At prev) in
      if interval \<le> 0 then None
      else if BootID cur \<noteq> BootID prev then None
      else let tot = Total (CPU cur) - Total (CPU prev) in
      if Total (CPU cur) < Total (CPU prev) \<or> tot = 0 then None
      else let idle = share tot (cpu_Idle (CPU cur)) (cpu_Idle (CPU prev));
               iowait = share tot (cpu_IOWait (CPU cur)) (cpu_IOWait (CPU prev));
               seconds = Seconds interval in
      (case (rate seconds (net_RxBytes (Net cur)) (net_RxBytes (Net prev)),
             rate seconds (net_TxBytes (Net cur)) (net_TxBytes (Net prev)),
             rate seconds (disk_ReadBytes (Disk cur)) (disk_ReadBytes (Disk prev)),
             rate seconds (disk_WriteBytes (Disk cur)) (disk_WriteBytes (Disk prev))) of
         (Some netRx, Some netTx, Some diskRead, Some diskWrite) \<Rightarrow>
           Some \<lparr>r_Interval = interval,
                 r_CPUBusy = Fin 100 - idle - iowait,
                 r_CPUIOWait = iowait,
                 r_CPUIdle = idle,
                 r_CPUUser = share tot (cpu_User (CPU cur)) (cpu_User (CPU prev))
                           + share tot (cpu_Nice (CPU cur)) (cpu_Nice (CPU prev)),
                 r_CPUSystem = share tot (cpu_System (CPU cur)) (cpu_System (CPU prev)),
                 r_CPUSteal = share tot (cpu_Steal (CPU cur)) (cpu_Steal (CPU prev)),
                 r_MemUsed = saturatingSub (mem_Total (Mem cur)) (mem_Available (Mem cur)),
                 r_MemTotal = mem_Total (Mem cur),
                 r_SwapUsed = saturatingSub (mem_SwapTotal (Mem cur)) (mem_SwapFree (Mem cur)),
                 r_SwapTotal = mem_SwapTotal (Mem cur),
                 r_Load1 = load_One (LoadAvg cur),
                 r_Load5 = load_Five (LoadAvg cur),
                 r_Load15 = load_Fifteen (LoadAvg cur),
                 r_NetRx = netRx,
                 r_NetTx = netTx,
                 r_DiskRead = diskRead,
                 r_DiskWrite = diskWrite,
                 r_FS = FS cur\<rparr>
       | _ \<Rightarrow> None))"

section \<open>When a derivation exists\<close>

definition derivable :: "Sample \<Rightarrow> Sample \<Rightarrow> bool" where
  "derivable p c \<longleftrightarrow> At p < At c \<and> BootID c = BootID p \<and> Total (CPU p) < Total (CPU c)
     \<and> net_RxBytes (Net p) \<le> net_RxBytes (Net c) \<and> net_TxBytes (Net p) \<le> net_TxBytes (Net c)
     \<and> disk_ReadBytes (Disk p) \<le> disk_ReadBytes (Disk c)
     \<and> disk_WriteBytes (Disk p) \<le> disk_WriteBytes (Disk c)"

lemma interval_positive: "Sub t u \<le> 0 \<longleftrightarrow> t \<le> u"
  using Sub_pos_iff [of t u] by linarith

lemma word_gap: "(a :: u64) < b \<longleftrightarrow> \<not> (b < a \<or> b - a = 0)"
  by auto

lemma Derive_defined: "Derive p c \<noteq> None \<longleftrightarrow> derivable p c"
  unfolding derivable_def word_gap [of "Total (CPU p)"]
  by (auto simp: Derive_def Let_def rate_def interval_positive not_le not_less
      split: option.splits if_splits)

text \<open>
  C21.  A rate is derived exactly when the readings are in time order, come from the same boot, the
  CPU clock advanced, and none of the four counters of network and disk bytes moved backwards: a reboot, a counter reset or
  a clock step never yields a number.
\<close>

theorem Derive_iff: "Derive p c \<noteq> None \<longleftrightarrow> derivable p c"
  by (rule Derive_defined)

section \<open>The CPU percentages\<close>

lemma u2r_ge_1: "w \<noteq> 0 \<Longrightarrow> 1 \<le> u2r w"
  unfolding u2r_def using uint_bounds(1) [of w]
  by (metis int_one_le_iff_zero_less of_int_1_le_iff order_le_less uint_0_iff)

text \<open>A share of the total, for a counter that did not move backwards, is a percentage.\<close>

definition share_val :: "u64 \<Rightarrow> u64 \<Rightarrow> rat" where
  "share_val tot d = rnd (rnd (rnd (u2r d) / rnd (u2r tot)) * 100)"

lemma share_quotient:
  assumes "d \<le> tot" and "tot \<noteq> 0"
  shows "0 \<le> rnd (u2r d) / rnd (u2r tot)" and "rnd (u2r d) / rnd (u2r tot) \<le> 1"
  using b64.rd_nonneg [of "u2r d"] b64.mono [OF u2r_mono [OF assms(1)]] rnd_u2r_ge_1 [OF assms(2)]
  by (auto simp: divide_le_eq_1)

lemma share_Fin:
  assumes "before \<le> now" and "now - before \<le> tot" and "tot \<noteq> 0"
  shows "share tot now before = Fin (share_val tot (now - before))"
proof -
  let ?q = "rnd (u2r (now - before)) / rnd (u2r tot)"
  note q = share_quotient [OF assms(2,3)]
  have rq: "0 \<le> rnd ?q" "rnd ?q \<le> 1"
    using q by (auto intro!: b64.rd_nonneg b64.rd_le b64.rep_numerals)
  have "rnd (u2r tot) \<noteq> 0" using rnd_u2r_ge_1 [OF assms(3)] by auto
  then have d: "Fin (rnd (u2r (now - before))) / Fin (rnd (u2r tot)) = Fin (rnd ?q)"
    using q by (simp add: go_simps fl_128)
  have "Fin (rnd ?q) * Fin 100 = Fin (share_val tot (now - before))"
    using rq by (simp add: go_simps fl_128 share_val_def)
  moreover have "\<not> now < before" using assms(1) by simp
  ultimately show ?thesis by (simp add: share_def of_u64_Fin d)
qed

lemma share_val_range:
  assumes "d \<le> tot"
  shows "0 \<le> share_val tot d" and "share_val tot d \<le> 100"
  unfolding share_val_def using u2r_mono [OF assms] by (auto intro!: b64.percentage)

lemma share_val_error:
  assumes "d \<le> tot" and "tot \<noteq> 0"
  shows "\<bar>share_val tot d - 100 * (u2r d / u2r tot)\<bar> \<le> 1000 / 9007199254740992"
  unfolding share_val_def
  using u2r_mono [OF assms(1)] u2r_ge_1 [of d] u2r_ge_1 [OF assms(2)]
  by (intro b64.percentage_error) (auto simp: u2r_eq_0 [symmetric] simp del: u2r_eq_0)

text \<open>The busy share: two subtractions from 100, each rounded.\<close>

lemma busy_Fin:
  assumes "0 \<le> i" "i \<le> 100" "0 \<le> w" "w \<le> 100"
  shows "Fin 100 - Fin i - Fin w = Fin (rnd (rnd (100 - i) - w))"
    and "\<bar>rnd (rnd (100 - i) - w) - (100 - i - w)\<bar> \<le> 202 / 9007199254740992"
    and "rnd (rnd (100 - i) - w) \<le> 100"
proof -
  have a: "0 \<le> rnd (100 - i)" "rnd (100 - i) \<le> 100"
    using assms by (auto intro!: b64.rd_nonneg b64.rd_le b64.rep_numerals)
  show "Fin 100 - Fin i - Fin w = Fin (rnd (rnd (100 - i) - w))"
    using assms a by (simp add: go_simps fl_128)
  show "rnd (rnd (100 - i) - w) \<le> 100"
    using assms a by (intro b64.rd_le b64.rep_numerals) simp
  have "\<bar>rnd (100 - i) - (100 - i)\<bar> \<le> 101 / 9007199254740992"
    using assms b64.error_upto [of "100 - i" 100] by simp
  moreover have "\<bar>rnd (rnd (100 - i) - w) - (rnd (100 - i) - w)\<bar> \<le> 101 / 9007199254740992"
    using assms a b64.error_upto [of "rnd (100 - i) - w" 100] by simp
  ultimately show "\<bar>rnd (rnd (100 - i) - w) - (100 - i - w)\<bar> \<le> 202 / 9007199254740992"
    by linarith
qed

lemma share_delta_le:
  assumes "cpu_monotone p c"
  shows "cpu_Idle c - cpu_Idle p \<le> Total c - Total p"
    and "cpu_IOWait c - cpu_IOWait p \<le> Total c - Total p"
    and "cpu_System c - cpu_System p \<le> Total c - Total p"
    and "cpu_Steal c - cpu_Steal p \<le> Total c - Total p"
    and "cpu_User c - cpu_User p \<le> Total c - Total p"
    and "cpu_Nice c - cpu_Nice p \<le> Total c - Total p"
proof -
  have le: "a \<le> b" if "u2r a \<le> u2r b" for a b
    using that unfolding u2r_def word_le_def by (simp only: of_int_le_iff)
  note s = cpu_delta_sum [OF assms]
  show "cpu_Idle c - cpu_Idle p \<le> Total c - Total p"
    and "cpu_IOWait c - cpu_IOWait p \<le> Total c - Total p"
    and "cpu_System c - cpu_System p \<le> Total c - Total p"
    and "cpu_Steal c - cpu_Steal p \<le> Total c - Total p"
    and "cpu_User c - cpu_User p \<le> Total c - Total p"
    and "cpu_Nice c - cpu_Nice p \<le> Total c - Total p"
    by (rule le, unfold s, intro add_increasing add_increasing2 u2r_nonneg order_refl)+
qed

text \<open>The jiffies spent in neither idle nor iowait.\<close>

definition busy_jiffies :: "CPUTimes \<Rightarrow> CPUTimes \<Rightarrow> rat" where
  "busy_jiffies p c = u2r (cpu_User c - cpu_User p) + u2r (cpu_Nice c - cpu_Nice p)
     + u2r (cpu_System c - cpu_System p) + u2r (cpu_IRQ c - cpu_IRQ p)
     + u2r (cpu_SoftIRQ c - cpu_SoftIRQ p) + u2r (cpu_Steal c - cpu_Steal p)"

lemma Derive_fields:
  assumes "Derive p c = Some r"
  shows "r_CPUBusy r = Fin 100 - r_CPUIdle r - r_CPUIOWait r"
    and "r_CPUIdle r = share (Total (CPU c) - Total (CPU p)) (cpu_Idle (CPU c)) (cpu_Idle (CPU p))"
    and "r_CPUIOWait r =
           share (Total (CPU c) - Total (CPU p)) (cpu_IOWait (CPU c)) (cpu_IOWait (CPU p))"
    and "r_CPUSystem r =
           share (Total (CPU c) - Total (CPU p)) (cpu_System (CPU c)) (cpu_System (CPU p))"
    and "r_CPUSteal r =
           share (Total (CPU c) - Total (CPU p)) (cpu_Steal (CPU c)) (cpu_Steal (CPU p))"
    and "r_MemTotal r = mem_Total (Mem c)" and "r_SwapTotal r = mem_SwapTotal (Mem c)"
    and "r_MemUsed r = saturatingSub (mem_Total (Mem c)) (mem_Available (Mem c))"
    and "r_SwapUsed r = saturatingSub (mem_SwapTotal (Mem c)) (mem_SwapFree (Mem c))"
  using assms by (auto simp: Derive_def Let_def split: option.splits if_splits)

lemma Derive_derivable: "Derive p c = Some r \<Longrightarrow> derivable p c"
  using Derive_defined [of p c] by simp

text \<open>
  C17.  While the CPU counters move forward, idle and iowait are percentages, the three shares add
  up to 100 and the busy share is the true one: each within a millionth of a millionth, all
  binary64 roundings included.
\<close>

theorem Derive_cpu_shares:
  assumes "Derive p c = Some r" and "cpu_monotone (CPU p) (CPU c)"
  shows "\<exists>b w i. r_CPUBusy r = Fin b \<and> r_CPUIOWait r = Fin w \<and> r_CPUIdle r = Fin i
     \<and> 0 \<le> i \<and> i \<le> 100 \<and> 0 \<le> w \<and> w \<le> 100 \<and> b \<le> 100
     \<and> \<bar>b + w + i - 100\<bar> \<le> 1 / 1000000000000
     \<and> \<bar>b - 100 * (busy_jiffies (CPU p) (CPU c) / u2r (Total (CPU c) - Total (CPU p)))\<bar>
         \<le> 1 / 1000000000000"
proof -
  let ?t = "Total (CPU c) - Total (CPU p)"
  let ?di = "cpu_Idle (CPU c) - cpu_Idle (CPU p)" and ?dw = "cpu_IOWait (CPU c) - cpu_IOWait (CPU p)"
  let ?i = "share_val ?t ?di" and ?w = "share_val ?t ?dw"
  have t: "?t \<noteq> 0" using Derive_derivable [OF assms(1)] by (auto simp: derivable_def)
  note le = share_delta_le [OF assms(2)]
  have fi: "r_CPUIdle r = Fin ?i" and fw: "r_CPUIOWait r = Fin ?w"
    using assms le t by (simp_all add: Derive_fields share_Fin cpu_monotone_def)
  note ri = share_val_range [OF le(1)] and rw = share_val_range [OF le(2)]
  note B = busy_Fin [OF ri rw]
  let ?b = "rnd (rnd (100 - ?i) - ?w)"
  have fb: "r_CPUBusy r = Fin ?b" using assms(1) fi fw B(1) by (simp add: Derive_fields)
  have "busy_jiffies (CPU p) (CPU c) = u2r ?t - u2r ?di - u2r ?dw"
    using cpu_delta_sum [OF assms(2)] by (simp add: busy_jiffies_def)
  then have bj: "100 * (busy_jiffies (CPU p) (CPU c) / u2r ?t)
      = 100 - 100 * (u2r ?di / u2r ?t) - 100 * (u2r ?dw / u2r ?t)"
    using t by (simp add: diff_divide_distrib)
  have "\<bar>?b + ?w + ?i - 100\<bar> \<le> 1 / 1000000000000" using B(2) by linarith
  moreover have "\<bar>?b - 100 * (busy_jiffies (CPU p) (CPU c) / u2r ?t)\<bar> \<le> 1 / 1000000000000"
    using B(2) share_val_error [OF le(1) t] share_val_error [OF le(2) t] unfolding bj by linarith
  ultimately show ?thesis using fi fw fb ri rw B(3) by blast
qed

section \<open>An interval in which iowait stepped back\<close>

text \<open>
  The kernel documents that its iowait counter may decrease.  In this interval ten idle jiffies
  passed and iowait fell by five: the total advanced by five, so idle alone is 200 percent.
\<close>

definition example_cpu :: "u64 \<Rightarrow> u64 \<Rightarrow> u64 \<Rightarrow> CPUTimes" where
  "example_cpu user idle iowait = \<lparr>cpu_User = user, cpu_Nice = 0, cpu_System = 0, cpu_Idle = idle,
     cpu_IOWait = iowait, cpu_IRQ = 0, cpu_SoftIRQ = 0, cpu_Steal = 0\<rparr>"

definition example_sample :: "time \<Rightarrow> string \<Rightarrow> CPUTimes \<Rightarrow> Sample" where
  "example_sample t boot cpu = \<lparr>At = t, BootID = boot, Uptime = 0, CPU = cpu,
     Mem = \<lparr>mem_Total = 100, mem_Available = 60, mem_Free = 10, mem_Buffers = 0, mem_Cached = 0,
            mem_SwapTotal = 0, mem_SwapFree = 0\<rparr>,
     LoadAvg = \<lparr>load_One = Fin 0, load_Five = Fin 0, load_Fifteen = Fin 0\<rparr>,
     Net = \<lparr>net_RxBytes = 0, net_TxBytes = 0, net_RxPackets = 0, net_TxPackets = 0,
            net_RxErrors = 0, net_TxErrors = 0\<rparr>,
     Disk = \<lparr>disk_ReadBytes = 0, disk_WriteBytes = 0, disk_ReadOps = 0, disk_WriteOps = 0\<rparr>,
     FS = []\<rparr>"

lemma representable_step: "\<bar>m\<bar> \<le> 9007199254740992 \<Longrightarrow> representable (of_int m / 1099511627776)"
  using representableI [of m "- 40"] by (simp add: power_int_minus field_simps)

lemma share_above:
  assumes "before \<le> now" and "tot < now - before" and "tot \<noteq> 0" and "u2r (now - before) \<le> 1099511627776"
  shows "\<exists>x. share tot now before = Fin x \<and> 100 + 100 / 1099511627776 \<le> x \<and> x \<le> 109951162777600"
proof -
  let ?D = "u2r (now - before)" and ?T = "u2r tot"
  let ?q = "?D / ?T"
  have T: "1 \<le> ?T" by (rule u2r_ge_1 [OF assms(3)])
  have "uint tot + 1 \<le> uint (now - before)" using assms(2) by (simp add: word_less_def)
  then have DT: "?T + 1 \<le> ?D" unfolding u2r_def by (metis of_int_1 of_int_add of_int_le_iff)
  have r: "rnd (u2r w) = u2r w" if "u2r w \<le> 1099511627776" for w
  proof -
    have "uint w \<le> 1099511627776" using that unfolding u2r_def by (metis of_int_le_iff of_int_numeral)
    then show ?thesis unfolding u2r_def by (intro b64.rd_of_int) simp
  qed
  have "1 + 1 / 1099511627776 \<le> 1 + 1 / ?T" using T DT assms(4) by (simp add: frac_le)
  also have "\<dots> \<le> ?q" using T DT by (simp add: field_simps)
  finally have lo: "1099511627777 / 1099511627776 \<le> ?q" by simp
  have hi: "?q \<le> 1099511627776" using T DT assms(4) by (simp add: divide_le_eq)
  have lo': "1099511627777 / 1099511627776 \<le> rnd ?q"
    using representable_step [of 1099511627777] lo by (intro b64.rd_ge) simp_all
  have hi': "rnd ?q \<le> 1099511627776"
    using representable_of_int [of 1099511627776] hi by (intro b64.rd_le) simp_all
  have "109951162777700 / 1099511627776 \<le> rnd (rnd ?q * 100)"
    using representable_step [of 109951162777700] lo' by (intro b64.rd_ge) simp_all
  moreover have "rnd (rnd ?q * 100) \<le> 109951162777600"
    using representable_of_int [of 109951162777600] hi' by (intro b64.rd_le) simp_all
  moreover have "share tot now before = Fin (rnd (rnd ?q * 100))"
  proof -
    have "\<bar>?q\<bar> \<le> 1099511627776" using hi by simp
    then have "fl ?q = Fin (rnd ?q)" by (intro fl_128) simp
    moreover have "?T \<noteq> 0" using T by linarith
    ultimately have q: "Fin ?D / Fin ?T = Fin (rnd ?q)" by (simp add: go_simps)
    have "of_u64 (now - before) = Fin ?D" "of_u64 tot = Fin ?T"
      using r [of "now - before"] r [of tot] DT assms(4) by (simp_all add: of_u64_Fin)
    moreover have "Fin (rnd ?q) * Fin 100 = Fin (rnd (rnd ?q * 100))" using lo' hi' by (simp add: go_simps fl_128)
    ultimately show ?thesis using assms(1) q by (simp add: share_def leD)
  qed
  ultimately show ?thesis by (intro exI [of _ "rnd (rnd ?q * 100)"]) simp
qed

text \<open>
  C37.  \<open>CPUBusy\<close>, \<open>CPUIOWait\<close> and \<open>CPUIdle\<close> do not partition every interval \<open>Derive\<close> accepts.  When iowait
  stepped back and idle did not, iowait is reported as 0, and the busy share is negative exactly when
  idle advanced by more than the total did, that is, when less other time passed than iowait lost.  Idle is
  assumed to advance by at most \<open>2^40\<close> ticks, three centuries at a hundred a second.
\<close>

theorem Derive_busy_negative:
  assumes "Derive p c = Some r" and "cpu_IOWait (CPU c) < cpu_IOWait (CPU p)"
    and "cpu_Idle (CPU p) \<le> cpu_Idle (CPU c)"
    and "uint (cpu_Idle (CPU c) - cpu_Idle (CPU p)) \<le> 1099511627776"
  shows "\<exists>x. r_CPUBusy r = Fin x \<and> r_CPUIOWait r = Fin 0
     \<and> (x < 0 \<longleftrightarrow> Total (CPU c) - Total (CPU p) < cpu_Idle (CPU c) - cpu_Idle (CPU p))"
proof -
  let ?t = "Total (CPU c) - Total (CPU p)" and ?d = "cpu_Idle (CPU c) - cpu_Idle (CPU p)"
  have t: "?t \<noteq> 0" using Derive_derivable [OF assms(1)] by (auto simp: derivable_def)
  have w: "r_CPUIOWait r = Fin 0" using assms(1,2) by (simp add: Derive_fields share_def)
  have b: "r_CPUBusy r = Fin 100 - r_CPUIdle r - Fin 0" using Derive_fields(1) [OF assms(1)] w by simp
  show ?thesis
  proof (cases "?t < ?d")
    case True
    have "u2r ?d \<le> 1099511627776" using assms(4) unfolding u2r_def by (metis of_int_le_iff of_int_numeral)
    then obtain i where i: "r_CPUIdle r = Fin i" "100 + 100 / 1099511627776 \<le> i" "i \<le> 109951162777600"
      using share_above [OF assms(3) True t] by (auto simp: Derive_fields(2) [OF assms(1)])
    let ?b = "rnd (100 - i)"
    have "?b \<le> - 100 / 1099511627776"
      using representable_step [of "- 100"] i(2) by (intro b64.rd_le) simp_all
    moreover have "- 109951162777600 \<le> ?b"
      using representable_of_int [of "- 109951162777600"] i(3) by (intro b64.rd_ge) simp_all
    moreover from this calculation have "Fin 100 - Fin i - Fin 0 = Fin ?b"
      using i(2,3) by (simp add: go_simps fl_128 b64.rd_rd)
    ultimately show ?thesis using True w b i(1) by (intro exI [of _ ?b]) simp
  next
    case False
    then have le: "?d \<le> ?t" by simp
    let ?i = "share_val ?t ?d"
    have i: "r_CPUIdle r = Fin ?i" using share_Fin [OF assms(3) le t] by (simp add: Derive_fields(2) [OF assms(1)])
    note ri = share_val_range [OF le]
    have "r_CPUBusy r = Fin (rnd (rnd (100 - ?i) - 0))" using busy_Fin(1) [OF ri, of 0] b i by simp
    moreover have "0 \<le> rnd (rnd (100 - ?i) - 0)" using ri by (simp add: b64.rd_nonneg)
    ultimately show ?thesis using False w by (intro exI [of _ "rnd (rnd (100 - ?i) - 0)"]) simp
  qed
qed

theorem Derive_busy_negative_witness:
  "\<exists>r x. Derive (example_sample 0 ''b'' (example_cpu 0 0 5)) (example_sample second ''b'' (example_cpu 0 10 0)) = Some r
     \<and> r_CPUBusy r = Fin x \<and> x < 0"
proof -
  let ?p = "example_sample 0 ''b'' (example_cpu 0 0 5)"
  let ?c = "example_sample second ''b'' (example_cpu 0 10 0)"
  have "derivable ?p ?c"
    by (simp add: derivable_def example_sample_def example_cpu_def Total_def second_def)
  then obtain r where r: "Derive ?p ?c = Some r" using Derive_defined [of ?p ?c] by auto
  have "cpu_IOWait (CPU ?c) < cpu_IOWait (CPU ?p)" "cpu_Idle (CPU ?p) \<le> cpu_Idle (CPU ?c)"
    "uint (cpu_Idle (CPU ?c) - cpu_Idle (CPU ?p)) \<le> 1099511627776"
    "Total (CPU ?c) - Total (CPU ?p) < cpu_Idle (CPU ?c) - cpu_Idle (CPU ?p)"
    by (simp_all add: example_sample_def example_cpu_def Total_def)
  with Derive_busy_negative [OF r this(1-3)] r show ?thesis by blast
qed

theorem Derive_cpu_shares_witness:
  "\<exists>r b w i. Derive (example_sample 0 ''b'' (example_cpu 0 0 0))
        (example_sample second ''b'' (example_cpu 2 5 1)) = Some r
     \<and> r_CPUBusy r = Fin b \<and> r_CPUIOWait r = Fin w \<and> r_CPUIdle r = Fin i
     \<and> \<bar>b + w + i - 100\<bar> \<le> 1 / 1000000000000"
proof -
  let ?p = "example_sample 0 ''b'' (example_cpu 0 0 0)"
  let ?c = "example_sample second ''b'' (example_cpu 2 5 1)"
  have "derivable ?p ?c"
    by (simp add: derivable_def example_sample_def example_cpu_def Total_def second_def)
  then obtain r where r: "Derive ?p ?c = Some r" using Derive_defined [of ?p ?c] by auto
  have "cpu_monotone (CPU ?p) (CPU ?c)"
    by (simp add: cpu_monotone_def example_sample_def example_cpu_def cpu_sum_def)
  from Derive_cpu_shares [OF r this] r show ?thesis by blast
qed

section \<open>Throughput and memory\<close>

lemma rate_Fin:
  assumes "before \<le> now" and "1 / 1073741824 \<le> s"
  shows "rate (Fin s) now before = Some (Fin (rnd (rnd (u2r (now - before)) / s)))"
    and "0 \<le> rnd (rnd (u2r (now - before)) / s)"
proof -
  let ?d = "rnd (u2r (now - before))"
  have d: "0 \<le> ?d" "?d \<le> 18446744073709551616" by (simp_all add: b64.rd_nonneg rnd_u2r_le)
  have s: "0 < s" using assms(2) by (rule order_less_le_trans [rotated]) simp
  have "?d / s \<le> 18446744073709551616 / (1 / 1073741824)"
    using d s assms(2) by (intro frac_le) auto
  then have "\<bar>?d / s\<bar> \<le> 1298074214633706907132624082305024" using d s by simp
  then show "rate (Fin s) now before = Some (Fin (rnd (?d / s)))"
    using assms(1) s by (simp add: rate_def of_u64_Fin go_simps fl_128 leD)
  show "0 \<le> rnd (?d / s)" using d s by (intro b64.rd_nonneg) simp
qed

text \<open>
  Every derived throughput is a finite, non-negative number: the counter's advance divided by
  the positive length of the interval in seconds, rounded.  No NaN and no infinity leaves \<open>Derive\<close>
  through the network and disk rates.
\<close>

theorem Derive_throughput:
  assumes "Derive p c = Some r" and "Sub (At c) (At p) = d"
  shows "\<exists>s. Seconds d = Fin s \<and> 0 < s
     \<and> r_NetRx r = Fin (rnd (rnd (u2r (net_RxBytes (Net c) - net_RxBytes (Net p))) / s))
     \<and> r_NetTx r = Fin (rnd (rnd (u2r (net_TxBytes (Net c) - net_TxBytes (Net p))) / s))
     \<and> r_DiskRead r = Fin (rnd (rnd (u2r (disk_ReadBytes (Disk c) - disk_ReadBytes (Disk p))) / s))
     \<and> r_DiskWrite r = Fin (rnd (rnd (u2r (disk_WriteBytes (Disk c) - disk_WriteBytes (Disk p))) / s))
     \<and> (\<forall>x\<in>{r_NetRx r, r_NetTx r, r_DiskRead r, r_DiskWrite r}. Fin 0 \<le> x)"
proof -
  have dv: "derivable p c" using assms(1) by (rule Derive_derivable)
  then have "0 < d" using assms(2) Sub_pos_iff [of "At c" "At p"] by (simp add: derivable_def)
  moreover have "d < 9223372036854775808" using Sub_range [of "At c" "At p"] assms(2) by simp
  ultimately obtain s where s: "Seconds d = Fin s" "1 / 1073741824 \<le> s" using Seconds_pos by blast
  then have sp: "0 < s" by (intro order_less_le_trans [OF _ s(2)]) simp
  note R = rate_Fin [OF _ s(2)]
  have le: "net_RxBytes (Net p) \<le> net_RxBytes (Net c)" "net_TxBytes (Net p) \<le> net_TxBytes (Net c)"
    "disk_ReadBytes (Disk p) \<le> disk_ReadBytes (Disk c)"
    "disk_WriteBytes (Disk p) \<le> disk_WriteBytes (Disk c)"
    using dv by (simp_all add: derivable_def)
  from le assms have f:
    "r_NetRx r = Fin (rnd (rnd (u2r (net_RxBytes (Net c) - net_RxBytes (Net p))) / s))"
    "r_NetTx r = Fin (rnd (rnd (u2r (net_TxBytes (Net c) - net_TxBytes (Net p))) / s))"
    "r_DiskRead r = Fin (rnd (rnd (u2r (disk_ReadBytes (Disk c) - disk_ReadBytes (Disk p))) / s))"
    "r_DiskWrite r = Fin (rnd (rnd (u2r (disk_WriteBytes (Disk c) - disk_WriteBytes (Disk p))) / s))"
    by (auto simp: Derive_def Let_def s(1) R(1) split: if_splits)
  from f s(1) sp R(2) [OF le(1)] R(2) [OF le(2)] R(2) [OF le(3)] R(2) [OF le(4)]
  show ?thesis by (auto simp: go_simps)
qed

lemma example_derive:
  "\<exists>r. Derive (example_sample 0 ''b'' (example_cpu 0 0 0))
        (example_sample second ''b'' (example_cpu 2 5 1)) = Some r"
proof -
  let ?p = "example_sample 0 ''b'' (example_cpu 0 0 0)"
  let ?c = "example_sample second ''b'' (example_cpu 2 5 1)"
  have "derivable ?p ?c"
    by (simp add: derivable_def example_sample_def example_cpu_def Total_def second_def)
  then show ?thesis using Derive_defined [of ?p ?c] by auto
qed

theorem Derive_throughput_witness:
  "\<exists>r. Derive (example_sample 0 ''b'' (example_cpu 0 0 0))
        (example_sample second ''b'' (example_cpu 2 5 1)) = Some r
     \<and> (\<forall>x\<in>{r_NetRx r, r_NetTx r, r_DiskRead r, r_DiskWrite r}. Fin 0 \<le> x)"
proof -
  obtain r where r: "Derive (example_sample 0 ''b'' (example_cpu 0 0 0))
        (example_sample second ''b'' (example_cpu 2 5 1)) = Some r"
    using example_derive by blast
  from Derive_throughput [OF r refl] r show ?thesis by blast
qed

text \<open>
  Used memory and used swap never exceed their totals: they are the total minus what is
  available when the kernel's figures are consistent, and 0 instead of a wrapped-around huge
  number when they are not.
\<close>

theorem Derive_memory:
  assumes "Derive p c = Some r"
  shows "r_MemUsed r \<le> r_MemTotal r \<and> r_SwapUsed r \<le> r_SwapTotal r
     \<and> (mem_Available (Mem c) \<le> mem_Total (Mem c) \<longrightarrow>
          uint (r_MemUsed r) = uint (mem_Total (Mem c)) - uint (mem_Available (Mem c)))
     \<and> (mem_Total (Mem c) < mem_Available (Mem c) \<longrightarrow> r_MemUsed r = 0)"
proof -
  have sat: "saturatingSub a b \<le> a" for a b
    by (auto simp: saturatingSub_def word_le_def word_less_def uint_sub_lem [THEN iffD1] not_less)
  have ex: "uint (saturatingSub a b) = uint a - uint b" if "b \<le> a" for a b
    using that by (simp add: saturatingSub_def leD word_le_def uint_sub_lem [THEN iffD1])
  show ?thesis
    using sat ex by (simp add: Derive_fields [OF assms] saturatingSub_def)
qed

theorem Derive_memory_witness:
  "\<exists>r. Derive (example_sample 0 ''b'' (example_cpu 0 0 0))
        (example_sample second ''b'' (example_cpu 2 5 1)) = Some r \<and> uint (r_MemUsed r) = 40"
proof -
  obtain r where r: "Derive (example_sample 0 ''b'' (example_cpu 0 0 0))
        (example_sample second ''b'' (example_cpu 2 5 1)) = Some r"
    using example_derive by blast
  have "uint (r_MemUsed r) = 40"
    using Derive_memory [OF r] by (simp add: example_sample_def)
  with r show ?thesis by blast
qed

end
