(* ===== verification/Bucket.thy ===== *)
theory Bucket
  imports Derive
begin

text \<open>
  Windows (\<open>internal/metrics/bucket.go\<close>): the running statistic of one metric, the bucket that
  holds twelve of them, and the aggregator that folds a stream of readings into clock-aligned
  buckets.  A pointer to a bucket is a \<open>Bucket option\<close>, and the pair \<open>prev\<close>/\<open>hasPrev\<close> is one
  \<open>Sample option\<close>.

  The first group of lemmas shows what the statistic computes; the second the invariant of the
  aggregator; the third that a run of the aggregator over any stream refines a specification that
  groups the derivable intervals, so that no reading is lost or counted twice.
\<close>

section \<open>The running statistic\<close>

record Stat =
  s_Min :: f64
  s_Avg :: f64
  s_Max :: f64
  s_N :: int

definition zero_stat :: Stat where
  "zero_stat = \<lparr>s_Min = Fin 0, s_Avg = Fin 0, s_Max = Fin 0, s_N = 0\<rparr>"

definition Stat_Add :: "f64 \<Rightarrow> Stat \<Rightarrow> Stat" where
  "Stat_Add v s =
     (let s1 = (if s_N s = 0 \<or> v < s_Min s then s\<lparr>s_Min := v\<rparr> else s);
          s2 = (if s_N s1 = 0 \<or> s_Max s1 < v then s1\<lparr>s_Max := v\<rparr> else s1);
          s3 = s2\<lparr>s_N := i64 (s_N s2 + 1)\<rparr>
      in s3\<lparr>s_Avg := s_Avg s3 + (v - s_Avg s3) / of_i64 (s_N s3)\<rparr>)"

section \<open>The bucket\<close>

record Counters =
  c_NetRxBytes :: u64
  c_NetTxBytes :: u64
  c_DiskReadBytes :: u64
  c_DiskWriteBytes :: u64
  c_UptimeSeconds :: u64

record Bucket =
  b_Start :: time
  b_End :: time
  b_Samples :: int
  b_BootID :: string
  b_CPUBusy :: Stat
  b_CPUIOWait :: Stat
  b_CPUSteal :: Stat
  b_CPUUser :: Stat
  b_CPUSystem :: Stat
  b_MemUsed :: Stat
  b_SwapUsed :: Stat
  b_Load1 :: Stat
  b_NetRx :: Stat
  b_NetTx :: Stat
  b_DiskRead :: Stat
  b_DiskWrite :: Stat
  b_MemTotal :: u64
  b_SwapTotal :: u64
  b_FS :: "Filesystem list"
  b_Counters :: Counters

definition new_bucket :: "time \<Rightarrow> time \<Rightarrow> Bucket" where
  "new_bucket start stop = \<lparr>b_Start = start, b_End = stop, b_Samples = 0, b_BootID = [],
     b_CPUBusy = zero_stat, b_CPUIOWait = zero_stat, b_CPUSteal = zero_stat,
     b_CPUUser = zero_stat, b_CPUSystem = zero_stat, b_MemUsed = zero_stat,
     b_SwapUsed = zero_stat, b_Load1 = zero_stat, b_NetRx = zero_stat, b_NetTx = zero_stat,
     b_DiskRead = zero_stat, b_DiskWrite = zero_stat, b_MemTotal = 0, b_SwapTotal = 0, b_FS = [],
     b_Counters = \<lparr>c_NetRxBytes = 0, c_NetTxBytes = 0, c_DiskReadBytes = 0,
       c_DiskWriteBytes = 0, c_UptimeSeconds = 0\<rparr>\<rparr>"

definition bucket_add :: "Rates \<Rightarrow> Sample \<Rightarrow> Bucket \<Rightarrow> Bucket" where
  "bucket_add r s b = b\<lparr>
     b_Samples := i64 (b_Samples b + 1),
     b_BootID := BootID s,
     b_CPUBusy := Stat_Add (r_CPUBusy r) (b_CPUBusy b),
     b_CPUIOWait := Stat_Add (r_CPUIOWait r) (b_CPUIOWait b),
     b_CPUSteal := Stat_Add (r_CPUSteal r) (b_CPUSteal b),
     b_CPUUser := Stat_Add (r_CPUUser r) (b_CPUUser b),
     b_CPUSystem := Stat_Add (r_CPUSystem r) (b_CPUSystem b),
     b_MemUsed := Stat_Add (of_u64 (r_MemUsed r)) (b_MemUsed b),
     b_SwapUsed := Stat_Add (of_u64 (r_SwapUsed r)) (b_SwapUsed b),
     b_Load1 := Stat_Add (r_Load1 r) (b_Load1 b),
     b_NetRx := Stat_Add (r_NetRx r) (b_NetRx b),
     b_NetTx := Stat_Add (r_NetTx r) (b_NetTx b),
     b_DiskRead := Stat_Add (r_DiskRead r) (b_DiskRead b),
     b_DiskWrite := Stat_Add (r_DiskWrite r) (b_DiskWrite b),
     b_MemTotal := r_MemTotal r,
     b_SwapTotal := r_SwapTotal r,
     b_FS := r_FS r,
     b_Counters := \<lparr>c_NetRxBytes = net_RxBytes (Net s), c_NetTxBytes = net_TxBytes (Net s),
       c_DiskReadBytes = disk_ReadBytes (Disk s), c_DiskWriteBytes = disk_WriteBytes (Disk s),
       c_UptimeSeconds = to_u64 (Seconds (Uptime s))\<rparr>\<rparr>"

section \<open>The aggregator\<close>

definition DefaultWindow :: duration where "DefaultWindow = 10 * second"

record Aggregator =
  agg_Window :: duration
  agg_prev :: "Sample option"
  agg_current :: "Bucket option"

definition new_aggregator :: "duration \<Rightarrow> Aggregator" where
  "new_aggregator w = \<lparr>agg_Window = w, agg_prev = None, agg_current = None\<rparr>"

definition agg_window :: "Aggregator \<Rightarrow> duration" where
  "agg_window a = (if agg_Window a \<le> 0 then DefaultWindow else agg_Window a)"

definition agg_Flush :: "Aggregator \<Rightarrow> Aggregator \<times> Bucket option" where
  "agg_Flush a = (a\<lparr>agg_current := None\<rparr>,
     (case agg_current a of None \<Rightarrow> None | Some b \<Rightarrow> if b_Samples b = 0 then None else Some b))"

definition agg_Add :: "Sample \<Rightarrow> Aggregator \<Rightarrow> Aggregator \<times> Bucket option" where
  "agg_Add s a0 =
     (let prev = agg_prev a0; a = a0\<lparr>agg_prev := Some s\<rparr> in
      case prev of
        None \<Rightarrow> (a, None)
      | Some p \<Rightarrow>
        (case Derive p s of
           None \<Rightarrow> agg_Flush a
         | Some rates \<Rightarrow>
             (let start = Truncate (At s) (agg_window a);
                  (a, completed) =
                    (case agg_current a of
                       Some b \<Rightarrow> if b_Start b \<noteq> start then agg_Flush a else (a, None)
                     | None \<Rightarrow> (a, None));
                  b = (case agg_current a of
                         None \<Rightarrow> new_bucket start (start + agg_window a) | Some b \<Rightarrow> b)
              in (a\<lparr>agg_current := Some (bucket_add rates s b)\<rparr>, completed))))"

section \<open>What the statistic computes\<close>

definition stat_of :: "f64 list \<Rightarrow> Stat" where
  "stat_of vs = fold Stat_Add vs zero_stat"

text \<open>A reading the statistic can take: a number float64 holds, far from overflow.\<close>

definition reading :: "rat \<Rightarrow> bool" where
  "reading x \<longleftrightarrow> representable x \<and> \<bar>x\<bar> \<le> 2 powi 1000"

lemma reading_small: "reading x \<Longrightarrow> \<bar>x\<bar> \<le> 2 powi 1000"
  by (simp only: reading_def)

lemma reading_sum_bound:
  assumes "\<bar>x\<bar> \<le> 2 powi 1000" and "\<bar>y\<bar> \<le> 2 powi 1001"
  shows "\<bar>x + y\<bar> \<le> (2::rat) powi 1002" and "\<bar>y\<bar> \<le> 2 powi 1002"
proof -
  have s: "(2::rat) powi 1002 = 2 powi 1001 + 2 powi 1001" "(2::rat) powi 1001 = 2 powi 1000 + 2 powi 1000"
    using powi_add [of 1001 1] powi_add [of 1000 1] by (simp_all only: power_int_1_right) simp_all
  have "0 < (2::rat) powi 1000" by (rule powi_pos)
  with assms s show "\<bar>x + y\<bar> \<le> (2::rat) powi 1002" and "\<bar>y\<bar> \<le> 2 powi 1002" by linarith+
qed

lemma fl_1002: "\<bar>x\<bar> \<le> 2 powi 1002 \<Longrightarrow> fl x = Fin (rnd x)"
  by (rule fl_small [of x 1002]) simp_all

lemma of_i64_count:
  assumes "2 \<le> n" and "n < 9223372036854775808"
  shows "\<exists>k. of_i64 n = Fin k \<and> 2 \<le> k"
proof -
  have "2 \<le> (of_int n :: rat)" using assms(1) by (intro numeral_le_of_int)
  then have "2 \<le> rnd (of_int n)" using b64.rep_int [of 2] by (intro b64.rd_ge) simp_all
  then show ?thesis using assms by (simp add: of_i64_Fin)
qed

lemma Stat_Add_first:
  assumes "reading v"
  shows "Stat_Add (Fin v) zero_stat = \<lparr>s_Min = Fin v, s_Avg = Fin v, s_Max = Fin v, s_N = 1\<rparr>"
proof -
  have "fl v = Fin v"
    using assms fl_small [of v 1000] by (simp add: reading_def b64.rd_rep del: power_int_numeral)
  moreover have "of_i64 1 = Fin 1" using of_i64_Fin [of 1] b64.rd_of_int [of 1] by simp
  ultimately show ?thesis
    by (simp add: Stat_Add_def zero_stat_def Let_def go_simps)
qed

lemma Stat_Add_next:
  assumes "reading v" "reading lo" "reading hi" "representable a" "lo \<le> a" "a \<le> hi"
    and "1 \<le> n" and "n < 9223372036854775807"
  shows "\<exists>a'. Stat_Add (Fin v) \<lparr>s_Min = Fin lo, s_Avg = Fin a, s_Max = Fin hi, s_N = n\<rparr>
      = \<lparr>s_Min = Fin (min v lo), s_Avg = Fin a', s_Max = Fin (max v hi), s_N = n + 1\<rparr>
    \<and> representable a' \<and> min v lo \<le> a' \<and> a' \<le> max v hi"
proof -
  have "2 \<le> n + 1" "n + 1 < 9223372036854775808" using assms by auto
  from of_i64_count [OF this] obtain k where k: "of_i64 (n + 1) = Fin k" "2 \<le> k" by blast
  have w: "i64 (n + 1) = n + 1" using assms by (intro i64_id) auto
  let ?d = "rnd (v - a)" and ?a' = "rnd (a + rnd (rnd (v - a) / k))"
  note b = reading_small [OF assms(1)] reading_small [OF assms(2)] reading_small [OF assms(3)]
  have ab: "\<bar>a\<bar> \<le> 2 powi 1000" using b assms(5,6) by linarith
  have s: "(2::rat) powi 1001 = 2 powi 1000 + 2 powi 1000"
    using powi_add [of 1000 1] by (simp only: power_int_1_right) simp
  have va: "\<bar>v - a\<bar> \<le> 2 powi 1001" unfolding s using b(1) ab by linarith
  then have d: "\<bar>?d\<bar> \<le> 2 powi 1001" by (intro rnd_abs_le_powi) auto
  have "\<bar>?d / k\<bar> = \<bar>?d\<bar> / k" using k(2) by simp
  also have "\<dots> \<le> \<bar>?d\<bar>" using k(2) by (simp add: pos_divide_le_eq mult_le_cancel_left1)
  also note d
  finally have dk: "\<bar>?d / k\<bar> \<le> 2 powi 1001" .
  then have e: "\<bar>rnd (?d / k)\<bar> \<le> 2 powi 1001" by (intro rnd_abs_le_powi) auto
  have ops: "fl (v - a) = Fin ?d" "fl (?d / k) = Fin (rnd (?d / k))"
    "fl (a + rnd (?d / k)) = Fin ?a'"
    using reading_sum_bound [OF ab va] reading_sum_bound [OF ab dk] reading_sum_bound [OF ab e]
    by (simp_all only: fl_1002)
  have "Fin a + (Fin v - Fin a) / Fin k = Fin ?a'"
    using k(2) ops by (simp add: go_simps)
  then have "Stat_Add (Fin v) \<lparr>s_Min = Fin lo, s_Avg = Fin a, s_Max = Fin hi, s_N = n\<rparr>
      = \<lparr>s_Min = Fin (min v lo), s_Avg = Fin ?a', s_Max = Fin (max v hi), s_N = n + 1\<rparr>"
    using assms(7) k(1) w by (auto simp: Stat_Add_def Let_def go_simps min_def max_def)
  moreover have "representable (min v lo)" "representable (max v hi)"
    using assms(1,2,3) by (auto simp: min_def max_def reading_def)
  then have "min v lo \<le> ?a' \<and> ?a' \<le> max v hi"
    using assms k(2) mean_step [of a v "min v lo" "max v hi" k] by (auto simp: reading_def)
  ultimately show ?thesis using b64.rep_rd by blast
qed

lemma stat_of_snoc: "stat_of (vs @ [v]) = Stat_Add v (stat_of vs)"
  by (simp add: stat_of_def)

lemma reading_Min_Max:
  assumes "xs \<noteq> []" and "\<forall>x\<in>set xs. reading x"
  shows "reading (Min (set xs))" and "reading (Max (set xs))"
  using assms by (auto intro: Min_in Max_in)

lemma stat_of_range:
  assumes "xs \<noteq> []" and "\<forall>x\<in>set xs. reading x" and "int (length xs) < 9223372036854775807"
  shows "\<exists>a. stat_of (map Fin xs) = \<lparr>s_Min = Fin (Min (set xs)), s_Avg = Fin a,
       s_Max = Fin (Max (set xs)), s_N = int (length xs)\<rparr>
     \<and> Min (set xs) \<le> a \<and> a \<le> Max (set xs)"
proof -
  have "\<exists>a. stat_of (map Fin xs) = \<lparr>s_Min = Fin (Min (set xs)), s_Avg = Fin a,
       s_Max = Fin (Max (set xs)), s_N = int (length xs)\<rparr>
     \<and> representable a \<and> Min (set xs) \<le> a \<and> a \<le> Max (set xs)"
    using assms
  proof (induction xs rule: rev_nonempty_induct)
    case (single x)
    then show ?case by (auto simp: stat_of_def Stat_Add_first reading_def)
  next
    case (snoc x xs)
    then obtain a where a: "stat_of (map Fin xs) = \<lparr>s_Min = Fin (Min (set xs)), s_Avg = Fin a,
        s_Max = Fin (Max (set xs)), s_N = int (length xs)\<rparr>"
      "representable a" "Min (set xs) \<le> a" "a \<le> Max (set xs)" by auto
    have r: "reading x" "reading (Min (set xs))" "reading (Max (set xs))"
      using snoc.prems snoc.hyps reading_Min_Max [of xs] by auto
    have n: "1 \<le> int (length xs)" "int (length xs) < 9223372036854775807"
      using snoc.hyps snoc.prems(2) by (cases xs, simp_all)
    have m: "Min (set (xs @ [x])) = min x (Min (set xs))" "Max (set (xs @ [x])) = max x (Max (set xs))"
      using snoc.hyps by simp_all
    from Stat_Add_next [OF r a(2,3,4) n] show ?case
      unfolding m by (simp add: stat_of_snoc a(1) add.commute)
  qed
  then show ?thesis by blast
qed

text \<open>
  C18.  After any non-empty sequence of readings the statistic holds the exact minimum and maximum,
  the number of readings, and a mean that lies between the two: the incremental update never
  drifts out of the range of its data, whatever the roundings.
\<close>

theorem stat_of_correct:
  assumes "xs \<noteq> []" and "\<forall>x\<in>set xs. reading x" and "int (length xs) < 9223372036854775807"
  shows "\<exists>a. stat_of (map Fin xs) = \<lparr>s_Min = Fin (Min (set xs)), s_Avg = Fin a,
       s_Max = Fin (Max (set xs)), s_N = int (length xs)\<rparr>
     \<and> Min (set xs) \<le> a \<and> a \<le> Max (set xs)"
  using assms by (rule stat_of_range)

section \<open>Lemmas on the bucket\<close>

lemma bucket_add_simps [simp]:
  "b_Start (bucket_add r s b) = b_Start b" "b_End (bucket_add r s b) = b_End b"
  "b_Samples (bucket_add r s b) = i64 (b_Samples b + 1)" "b_BootID (bucket_add r s b) = BootID s"
  by (simp_all add: bucket_add_def)

lemma new_bucket_simps [simp]:
  "b_Start (new_bucket s e) = s" "b_End (new_bucket s e) = e" "b_Samples (new_bucket s e) = 0"
  by (simp_all add: new_bucket_def)

lemma agg_window_pos: "0 < agg_window a"
  by (simp add: agg_window_def DefaultWindow_def second_def)

lemma agg_Flush_simps [simp]:
  "agg_current (fst (agg_Flush a)) = None" "agg_prev (fst (agg_Flush a)) = agg_prev a"
  "agg_Window (fst (agg_Flush a)) = agg_Window a"
  by (simp_all add: agg_Flush_def)

theorem stat_of_correct_witness:
  "\<exists>a. stat_of [Fin 3, Fin 1, Fin 2] = \<lparr>s_Min = Fin 1, s_Avg = Fin a, s_Max = Fin 3, s_N = 3\<rparr>
     \<and> 1 \<le> a \<and> a \<le> 3"
proof -
  have p: "(3::rat) \<le> 2 powi 1000" using powi_le [of 2 1000] by (simp del: powi_le)
  have "reading 1" "reading 2" "reading 3"
    using p b64.rep_int [of 1] b64.rep_int [of 2] b64.rep_int [of 3] by (simp_all add: reading_def)
  then show ?thesis using stat_of_correct [of "[3, 1, 2]"] by simp
qed

section \<open>The aggregator refines a grouping of the derivable intervals\<close>

fun agg_run :: "Aggregator \<Rightarrow> Sample list \<Rightarrow> Aggregator \<times> Bucket list" where
  "agg_run a [] = (a, [])"
| "agg_run a (s # ss) =
     (let (a', out) = agg_Add s a; (a'', bs) = agg_run a' ss
      in (a'', (case out of None \<Rightarrow> bs | Some b \<Rightarrow> b # bs)))"

text \<open>Everything a run emits, with the flush at the end.\<close>

definition agg_output :: "Aggregator \<Rightarrow> Sample list \<Rightarrow> Bucket list" where
  "agg_output a ss = (let (a', bs) = agg_run a ss in
     bs @ (case snd (agg_Flush a') of None \<Rightarrow> [] | Some b \<Rightarrow> [b]))"

lemma agg_output_Cons:
  "agg_output a (s # ss) = (case agg_Add s a of (a', None) \<Rightarrow> agg_output a' ss | (a', Some b) \<Rightarrow> b # agg_output a' ss)"
  by (auto simp: agg_output_def case_prod_beta split: option.splits)

lemma agg_output_Nil: "agg_output a [] = (case snd (agg_Flush a) of None \<Rightarrow> [] | Some b \<Rightarrow> [b])"
  by (simp add: agg_output_def)

text \<open>The specification: the intervals of the stream, \<open>None\<close> where no rate can be derived.\<close>

type_synonym interval = "Rates \<times> Sample"

fun intervals :: "Sample \<Rightarrow> Sample list \<Rightarrow> interval option list" where
  "intervals p [] = []"
| "intervals p (s # ss) = map_option (\<lambda>r. (r, s)) (Derive p s) # intervals s ss"

definition window_of :: "duration \<Rightarrow> interval \<Rightarrow> time" where
  "window_of w x = Truncate (At (snd x)) w"

text \<open>Consecutive derivable intervals of one window form a group; a gap closes the group.\<close>

fun group :: "duration \<Rightarrow> interval list \<Rightarrow> interval option list \<Rightarrow> interval list list" where
  "group w cur [] = (if cur = [] then [] else [cur])"
| "group w cur (None # xs) = (if cur = [] then [] else [cur]) @ group w [] xs"
| "group w cur (Some x # xs) =
     (if cur = [] \<or> window_of w (hd cur) = window_of w x then group w (cur @ [x]) xs
      else cur # group w [x] xs)"

definition bucket_of :: "duration \<Rightarrow> interval list \<Rightarrow> Bucket" where
  "bucket_of w g = (let start = window_of w (hd g) in
     fold (\<lambda>(r, s) b. bucket_add r s b) g (new_bucket start (start + w)))"

lemma bucket_of_snoc: "g \<noteq> [] \<Longrightarrow> bucket_of w (g @ [(r, s)]) = bucket_add r s (bucket_of w g)"
  by (simp add: bucket_of_def Let_def)

lemma bucket_of_single: "bucket_of w [(r, s)] =
    bucket_add r s (new_bucket (Truncate (At s) w) (Truncate (At s) w + w))"
  by (simp add: bucket_of_def window_of_def Let_def)

lemma fold_bucket_add_frame:
  "b_Start (fold (\<lambda>(r, s) b. bucket_add r s b) g b) = b_Start b
   \<and> b_End (fold (\<lambda>(r, s) b. bucket_add r s b) g b) = b_End b"
  by (induction g arbitrary: b) auto

lemma bucket_of_Start: "b_Start (bucket_of w g) = window_of w (hd g)"
  and bucket_of_End: "b_End (bucket_of w g) = window_of w (hd g) + w"
  by (simp_all add: bucket_of_def Let_def fold_bucket_add_frame)

lemma bucket_of_Samples:
  assumes "int (length g) < 9223372036854775808"
  shows "b_Samples (bucket_of w g) = int (length g)"
proof -
  have "b_Samples (fold (\<lambda>(r, s) b. bucket_add r s b) g b) = b_Samples b + int (length g)"
    if "0 \<le> b_Samples b" "b_Samples b + int (length g) < 9223372036854775808" for b
    using that
  proof (induction g arbitrary: b)
    case (Cons x g)
    then have "i64 (b_Samples b + 1) = b_Samples b + 1" by (intro i64_id) auto
    with Cons.prems Cons.IH [of "bucket_add (fst x) (snd x) b"] show ?case
      by (simp add: case_prod_beta)
  qed simp
  with assms show ?thesis by (simp add: bucket_of_def Let_def)
qed

text \<open>The state of the aggregator, read as the open group of the specification.\<close>

definition agg_repr :: "Aggregator \<Rightarrow> Sample \<Rightarrow> interval list \<Rightarrow> bool" where
  "agg_repr a p cur \<longleftrightarrow> agg_prev a = Some p
     \<and> agg_current a = (if cur = [] then None else Some (bucket_of (agg_window a) cur))"

definition emitted :: "duration \<Rightarrow> interval list \<Rightarrow> Bucket option" where
  "emitted w cur = (if cur = [] then None else Some (bucket_of w cur))"

lemma agg_Flush_repr:
  assumes "agg_current a = emitted w cur" and "int (length cur) < 9223372036854775808"
  shows "agg_Flush a = (a\<lparr>agg_current := None\<rparr>, emitted w cur)"
  using assms by (simp add: agg_Flush_def emitted_def bucket_of_Samples)

lemma agg_window_upd [simp]:
  "agg_window (a\<lparr>agg_prev := p\<rparr>) = agg_window a" "agg_window (a\<lparr>agg_current := c\<rparr>) = agg_window a"
  by (simp_all add: agg_window_def)

text \<open>One step of the code is one step of the specification.\<close>

lemma agg_Add_gap:
  assumes "agg_repr a p cur" "int (length cur) < 9223372036854775808" "Derive p s = None"
  shows "\<exists>a'. agg_Add s a = (a', emitted (agg_window a) cur) \<and> agg_repr a' s []
     \<and> agg_window a' = agg_window a"
proof -
  have "agg_Add s a = agg_Flush (a\<lparr>agg_prev := Some s\<rparr>)"
    using assms by (simp add: agg_Add_def agg_repr_def)
  moreover have "agg_current (a\<lparr>agg_prev := Some s\<rparr>) = emitted (agg_window a) cur"
    using assms(1) by (simp add: agg_repr_def emitted_def)
  ultimately show ?thesis
    using assms(2) by (simp add: agg_Flush_repr agg_repr_def)
qed

lemma agg_Add_same:
  assumes "agg_repr a p cur" "Derive p s = Some r"
    and "cur = [] \<or> window_of (agg_window a) (hd cur) = window_of (agg_window a) (r, s)"
  shows "\<exists>a'. agg_Add s a = (a', None) \<and> agg_repr a' s (cur @ [(r, s)])
     \<and> agg_window a' = agg_window a"
proof (cases "cur = []")
  case True
  with assms show ?thesis
    by (simp add: agg_Add_def agg_repr_def Let_def bucket_of_single)
next
  case False
  with assms(3) have w: "b_Start (bucket_of (agg_window a) cur) = Truncate (At s) (agg_window a)"
    by (simp add: bucket_of_Start) (simp add: window_of_def)
  with False assms(1,2) show ?thesis
    by (simp add: agg_Add_def agg_repr_def Let_def bucket_of_snoc)
qed

lemma agg_Add_next:
  assumes "agg_repr a p cur" "int (length cur) < 9223372036854775808" "Derive p s = Some r"
    and "cur \<noteq> []" "window_of (agg_window a) (hd cur) \<noteq> window_of (agg_window a) (r, s)"
  shows "\<exists>a'. agg_Add s a = (a', Some (bucket_of (agg_window a) cur)) \<and> agg_repr a' s [(r, s)]
     \<and> agg_window a' = agg_window a"
proof -
  have w: "b_Start (bucket_of (agg_window a) cur) \<noteq> Truncate (At s) (agg_window a)"
    using assms(5) by (simp add: bucket_of_Start) (simp add: window_of_def)
  with assms show ?thesis
    by (simp add: agg_Add_def agg_repr_def Let_def agg_Flush_def bucket_of_Samples bucket_of_single)
qed

lemma agg_run_refines:
  assumes "agg_repr a p cur" and "int (length cur) + int (length ss) < 9223372036854775808"
  shows "agg_output a ss = map (bucket_of (agg_window a)) (group (agg_window a) cur (intervals p ss))"
  using assms
proof (induction ss arbitrary: a p cur)
  case Nil
  then have "snd (agg_Flush a) = emitted (agg_window a) cur"
    using agg_Flush_repr [of a "agg_window a" cur] by (simp add: agg_repr_def emitted_def)
  then show ?case by (simp add: agg_output_def emitted_def)
next
  case (Cons s ss)
  have len: "int (length cur) < 9223372036854775808" using Cons.prems(2) by simp
  show ?case
  proof (cases "Derive p s")
    case None
    from agg_Add_gap [OF Cons.prems(1) len None] obtain a' where
      a': "agg_Add s a = (a', emitted (agg_window a) cur)" "agg_repr a' s []"
      "agg_window a' = agg_window a" by blast
    from Cons.IH [OF a'(2)] Cons.prems(2) None show ?thesis
      by (simp add: agg_output_def a'(1,3) emitted_def case_prod_beta)
  next
    case (Some r)
    show ?thesis
    proof (cases "cur = [] \<or> window_of (agg_window a) (hd cur) = window_of (agg_window a) (r, s)")
      case True
      from agg_Add_same [OF Cons.prems(1) Some True] obtain a' where
        a': "agg_Add s a = (a', None)" "agg_repr a' s (cur @ [(r, s)])"
        "agg_window a' = agg_window a" by blast
      from Cons.IH [OF a'(2)] Cons.prems(2) Some True show ?thesis
        by (simp add: agg_output_def a'(1,3) case_prod_beta)
    next
      case False
      then have F: "cur \<noteq> []" "window_of (agg_window a) (hd cur) \<noteq> window_of (agg_window a) (r, s)"
        by auto
      from agg_Add_next [OF Cons.prems(1) len Some F] obtain a' where
        a': "agg_Add s a = (a', Some (bucket_of (agg_window a) cur))" "agg_repr a' s [(r, s)]"
        "agg_window a' = agg_window a" by blast
      from Cons.IH [OF a'(2)] Cons.prems(2) Some F show ?thesis
        by (simp add: agg_output_def a'(1,3) case_prod_beta)
    qed
  qed
qed

lemma agg_output_groups:
  assumes "int (length ss) < 9223372036854775808"
  shows "agg_output (new_aggregator w) (s # ss) =
    map (bucket_of (agg_window (new_aggregator w)))
      (group (agg_window (new_aggregator w)) [] (intervals s ss))"
proof -
  let ?a = "new_aggregator w\<lparr>agg_prev := Some s\<rparr>"
  have "agg_Add s (new_aggregator w) = (?a, None)"
    by (simp add: agg_Add_def new_aggregator_def)
  then have "agg_output (new_aggregator w) (s # ss) = agg_output ?a ss"
    by (simp add: agg_output_def case_prod_beta)
  moreover have "agg_repr ?a s []" by (simp add: agg_repr_def new_aggregator_def)
  ultimately show ?thesis using agg_run_refines [of ?a s "[]" ss] assms by simp
qed

text \<open>
  C12.  Fed any stream of readings and flushed at the end, the aggregator emits exactly one bucket
  per group of the specification, in order, each folding the readings of its group: a reboot, a
  counter reset or a step into another window closes the bucket in progress, and nothing else does.
\<close>

theorem aggregator_refines:
  assumes "int (length ss) < 9223372036854775808"
  shows "agg_output (new_aggregator w) (s # ss) =
    map (bucket_of (agg_window (new_aggregator w)))
      (group (agg_window (new_aggregator w)) [] (intervals s ss))"
  using assms by (rule agg_output_groups)

section \<open>What the groups are\<close>

lemma concat_group: "concat (group w cur xs) = cur @ map the (filter (\<lambda>x. x \<noteq> None) xs)"
  by (induction w cur xs rule: group.induct) auto

definition one_window :: "duration \<Rightarrow> interval list \<Rightarrow> bool" where
  "one_window w g \<longleftrightarrow> (\<forall>x\<in>set g. window_of w x = window_of w (hd g))"

lemma one_window_Nil [simp]: "one_window w []" and one_window_single [simp]: "one_window w [x]"
  by (simp_all add: one_window_def)

lemma one_window_snoc:
  assumes "one_window w cur" and "cur = [] \<or> window_of w (hd cur) = window_of w x"
  shows "one_window w (cur @ [x])"
proof (cases "cur = []")
  case False
  then have "hd (cur @ [x]) = hd cur" by (rule hd_append2)
  moreover have "y \<in> set (cur @ [x]) \<Longrightarrow> y = x \<or> y \<in> set cur" for y by auto
  ultimately show ?thesis using assms False unfolding one_window_def by metis
qed simp

lemma group_windows:
  "g \<in> set (group w cur xs) \<Longrightarrow> one_window w cur \<Longrightarrow> g \<noteq> [] \<and> one_window w g"
proof (induction w cur xs rule: group.induct)
  case (3 w cur x xs)
  then show ?case using one_window_snoc [of w cur x] by (auto split: if_splits)
qed (auto split: if_splits)

lemma group_boot:
  assumes "g \<in> set (group w cur (intervals p ss))" and "\<forall>x\<in>set cur. BootID (snd x) = BootID p"
  shows "\<exists>boot. \<forall>x\<in>set g. BootID (snd x) = boot"
  using assms
proof (induction ss arbitrary: cur p)
  case Nil
  then show ?case by (auto split: if_splits)
next
  case (Cons s ss)
  show ?case
  proof (cases "Derive p s")
    case None
    with Cons.prems have "g = cur \<or> g \<in> set (group w [] (intervals s ss))"
      by (auto split: if_splits)
    with Cons.prems(2) Cons.IH [of "[]" s] show ?thesis by auto
  next
    case (Some r)
    then have "BootID s = BootID p" using Derive_derivable by (simp add: derivable_def)
    then have "\<forall>x\<in>set (cur @ [(r, s)]). BootID (snd x) = BootID s" using Cons.prems(2) by auto
    moreover have "\<forall>x\<in>set [(r, s)]. BootID (snd x) = BootID s" by simp
    moreover have "g = cur \<or> g \<in> set (group w (cur @ [(r, s)]) (intervals s ss))
        \<or> g \<in> set (group w [(r, s)] (intervals s ss))"
      using Cons.prems(1) Some by (auto split: if_splits)
    ultimately show ?thesis using Cons.IH Cons.prems(2) by blast
  qed
qed

lemma sum_list_lengths: "sum_list (map (\<lambda>g. int (length g)) gs) = int (length (concat gs))"
  by (induction gs) auto

lemma length_in_concat: "g \<in> set gs \<Longrightarrow> length g \<le> length (concat gs)"
  by (induction gs) auto

lemma length_intervals [simp]: "length (intervals p ss) = length ss"
  by (induction ss arbitrary: p) auto

text \<open>
  C20.  Conservation and shape: over any stream, the samples of the emitted buckets add up to the
  number of intervals a rate could be derived for (no reading is lost or counted twice), and every
  emitted bucket is non-empty, starts on a multiple of the window and ends one window later.
\<close>

theorem aggregator_conserves:
  assumes "int (length ss) < 9223372036854775808"
    and "w' = agg_window (new_aggregator w)" and "bs = agg_output (new_aggregator w) (s # ss)"
  shows "sum_list (map b_Samples bs) = int (length (filter (\<lambda>x. x \<noteq> None) (intervals s ss)))
     \<and> (\<forall>b\<in>set bs. 1 \<le> b_Samples b \<and> w' dvd b_Start b \<and> b_End b = b_Start b + w')"
proof -
  let ?gs = "group w' [] (intervals s ss)"
  have bs: "bs = map (bucket_of w') ?gs" using agg_output_groups [OF assms(1)] assms(2,3) by simp
  have total: "concat ?gs = map the (filter (\<lambda>x. x \<noteq> None) (intervals s ss))"
    by (simp add: concat_group)
  then have "length (concat ?gs) \<le> length ss" by (metis length_filter_le length_intervals length_map)
  then have small: "int (length g) < 9223372036854775808" if "g \<in> set ?gs" for g
    using length_in_concat [OF that] assms(1) by linarith
  then have "map b_Samples bs = map (\<lambda>g. int (length g)) ?gs"
    unfolding bs by (simp add: bucket_of_Samples)
  then have "sum_list (map b_Samples bs) = int (length (filter (\<lambda>x. x \<noteq> None) (intervals s ss)))"
    by (simp add: sum_list_lengths total)
  moreover have "1 \<le> b_Samples b \<and> w' dvd b_Start b \<and> b_End b = b_Start b + w'" if b: "b \<in> set bs" for b
  proof -
    from b bs obtain g where g: "g \<in> set ?gs" "b = bucket_of w' g" by auto
    have "g \<noteq> []" using group_windows [OF g(1) one_window_Nil] by (rule conjunct1)
    then have "1 \<le> int (length g)" by (cases g) auto
    moreover have "w' dvd window_of w' (hd g)"
      using Truncate_aligned agg_window_pos assms(2) by (simp add: window_of_def)
    ultimately show ?thesis
      using g small [OF g(1)] by (simp add: bucket_of_Samples bucket_of_Start bucket_of_End)
  qed
  ultimately show ?thesis by blast
qed

text \<open>The twelve statistics of a bucket, each the statistic of its column.\<close>

lemma fold_bucket_add_stats:
  "b_CPUBusy (fold (\<lambda>(r, s) b. bucket_add r s b) g b) = fold Stat_Add (map (r_CPUBusy \<circ> fst) g) (b_CPUBusy b)"
  "b_CPUIOWait (fold (\<lambda>(r, s) b. bucket_add r s b) g b) = fold Stat_Add (map (r_CPUIOWait \<circ> fst) g) (b_CPUIOWait b)"
  "b_CPUSteal (fold (\<lambda>(r, s) b. bucket_add r s b) g b) = fold Stat_Add (map (r_CPUSteal \<circ> fst) g) (b_CPUSteal b)"
  "b_CPUUser (fold (\<lambda>(r, s) b. bucket_add r s b) g b) = fold Stat_Add (map (r_CPUUser \<circ> fst) g) (b_CPUUser b)"
  "b_CPUSystem (fold (\<lambda>(r, s) b. bucket_add r s b) g b) = fold Stat_Add (map (r_CPUSystem \<circ> fst) g) (b_CPUSystem b)"
  "b_MemUsed (fold (\<lambda>(r, s) b. bucket_add r s b) g b) = fold Stat_Add (map (of_u64 \<circ> r_MemUsed \<circ> fst) g) (b_MemUsed b)"
  "b_SwapUsed (fold (\<lambda>(r, s) b. bucket_add r s b) g b) = fold Stat_Add (map (of_u64 \<circ> r_SwapUsed \<circ> fst) g) (b_SwapUsed b)"
  "b_Load1 (fold (\<lambda>(r, s) b. bucket_add r s b) g b) = fold Stat_Add (map (r_Load1 \<circ> fst) g) (b_Load1 b)"
  "b_NetRx (fold (\<lambda>(r, s) b. bucket_add r s b) g b) = fold Stat_Add (map (r_NetRx \<circ> fst) g) (b_NetRx b)"
  "b_NetTx (fold (\<lambda>(r, s) b. bucket_add r s b) g b) = fold Stat_Add (map (r_NetTx \<circ> fst) g) (b_NetTx b)"
  "b_DiskRead (fold (\<lambda>(r, s) b. bucket_add r s b) g b) = fold Stat_Add (map (r_DiskRead \<circ> fst) g) (b_DiskRead b)"
  "b_DiskWrite (fold (\<lambda>(r, s) b. bucket_add r s b) g b) = fold Stat_Add (map (r_DiskWrite \<circ> fst) g) (b_DiskWrite b)"
  by (induction g arbitrary: b) (auto simp: bucket_add_def)

lemma fold_bucket_add_last:
  "g \<noteq> [] \<Longrightarrow> b_MemTotal (fold (\<lambda>(r, s) b. bucket_add r s b) g b) = r_MemTotal (fst (last g))"
  "g \<noteq> [] \<Longrightarrow> b_BootID (fold (\<lambda>(r, s) b. bucket_add r s b) g b) = BootID (snd (last g))"
  "g \<noteq> [] \<Longrightarrow> b_SwapTotal (fold (\<lambda>(r, s) b. bucket_add r s b) g b) = r_SwapTotal (fst (last g))"
  "g \<noteq> [] \<Longrightarrow> b_FS (fold (\<lambda>(r, s) b. bucket_add r s b) g b) = r_FS (fst (last g))"
  "g \<noteq> [] \<Longrightarrow> b_Counters (fold (\<lambda>(r, s) b. bucket_add r s b) g b) = \<lparr>c_NetRxBytes = net_RxBytes (Net (snd (last g))), c_NetTxBytes = net_TxBytes (Net (snd (last g))),
       c_DiskReadBytes = disk_ReadBytes (Disk (snd (last g))), c_DiskWriteBytes = disk_WriteBytes (Disk (snd (last g))),
       c_UptimeSeconds = to_u64 (Seconds (Uptime (snd (last g))))\<rparr>"
  by (induction g arbitrary: b rule: rev_induct; auto simp: bucket_add_def)+

lemma new_bucket_stats:
  "b_CPUBusy (new_bucket x y) = zero_stat" "b_CPUIOWait (new_bucket x y) = zero_stat"
  "b_CPUSteal (new_bucket x y) = zero_stat" "b_CPUUser (new_bucket x y) = zero_stat"
  "b_CPUSystem (new_bucket x y) = zero_stat" "b_MemUsed (new_bucket x y) = zero_stat"
  "b_SwapUsed (new_bucket x y) = zero_stat" "b_Load1 (new_bucket x y) = zero_stat"
  "b_NetRx (new_bucket x y) = zero_stat" "b_NetTx (new_bucket x y) = zero_stat"
  "b_DiskRead (new_bucket x y) = zero_stat" "b_DiskWrite (new_bucket x y) = zero_stat"
  by (simp_all add: new_bucket_def)

lemma bucket_of_columns:
  assumes "g \<noteq> []"
  shows "b_CPUBusy (bucket_of w g) = stat_of (map (r_CPUBusy \<circ> fst) g)"
    and "b_CPUIOWait (bucket_of w g) = stat_of (map (r_CPUIOWait \<circ> fst) g)"
    and "b_CPUSteal (bucket_of w g) = stat_of (map (r_CPUSteal \<circ> fst) g)"
    and "b_CPUUser (bucket_of w g) = stat_of (map (r_CPUUser \<circ> fst) g)"
    and "b_CPUSystem (bucket_of w g) = stat_of (map (r_CPUSystem \<circ> fst) g)"
    and "b_MemUsed (bucket_of w g) = stat_of (map (of_u64 \<circ> r_MemUsed \<circ> fst) g)"
    and "b_SwapUsed (bucket_of w g) = stat_of (map (of_u64 \<circ> r_SwapUsed \<circ> fst) g)"
    and "b_Load1 (bucket_of w g) = stat_of (map (r_Load1 \<circ> fst) g)"
    and "b_NetRx (bucket_of w g) = stat_of (map (r_NetRx \<circ> fst) g)"
    and "b_NetTx (bucket_of w g) = stat_of (map (r_NetTx \<circ> fst) g)"
    and "b_DiskRead (bucket_of w g) = stat_of (map (r_DiskRead \<circ> fst) g)"
    and "b_DiskWrite (bucket_of w g) = stat_of (map (r_DiskWrite \<circ> fst) g)"
    and "b_MemTotal (bucket_of w g) = r_MemTotal (fst (last g))"
    and "b_SwapTotal (bucket_of w g) = r_SwapTotal (fst (last g))"
    and "b_FS (bucket_of w g) = r_FS (fst (last g))"
    and "b_Counters (bucket_of w g) = \<lparr>c_NetRxBytes = net_RxBytes (Net (snd (last g))), c_NetTxBytes = net_TxBytes (Net (snd (last g))),
       c_DiskReadBytes = disk_ReadBytes (Disk (snd (last g))), c_DiskWriteBytes = disk_WriteBytes (Disk (snd (last g))),
       c_UptimeSeconds = to_u64 (Seconds (Uptime (snd (last g))))\<rparr>"
  using assms by (simp_all add: bucket_of_def Let_def stat_of_def fold_bucket_add_stats
      fold_bucket_add_last new_bucket_stats)

text \<open>What a bucket says about the group of intervals it stands for.\<close>

definition describes :: "duration \<Rightarrow> interval list \<Rightarrow> Bucket \<Rightarrow> bool" where
  "describes w g b \<longleftrightarrow> g \<noteq> []
     \<and> (\<forall>x\<in>set g. Truncate (At (snd x)) w = b_Start b \<and> BootID (snd x) = b_BootID b)
     \<and> b_CPUBusy b = stat_of (map (r_CPUBusy \<circ> fst) g)
     \<and> b_CPUIOWait b = stat_of (map (r_CPUIOWait \<circ> fst) g)
     \<and> b_CPUSteal b = stat_of (map (r_CPUSteal \<circ> fst) g)
     \<and> b_CPUUser b = stat_of (map (r_CPUUser \<circ> fst) g)
     \<and> b_CPUSystem b = stat_of (map (r_CPUSystem \<circ> fst) g)
     \<and> b_MemUsed b = stat_of (map (of_u64 \<circ> r_MemUsed \<circ> fst) g)
     \<and> b_SwapUsed b = stat_of (map (of_u64 \<circ> r_SwapUsed \<circ> fst) g)
     \<and> b_Load1 b = stat_of (map (r_Load1 \<circ> fst) g)
     \<and> b_NetRx b = stat_of (map (r_NetRx \<circ> fst) g)
     \<and> b_NetTx b = stat_of (map (r_NetTx \<circ> fst) g)
     \<and> b_DiskRead b = stat_of (map (r_DiskRead \<circ> fst) g)
     \<and> b_DiskWrite b = stat_of (map (r_DiskWrite \<circ> fst) g)
     \<and> b_MemTotal b = r_MemTotal (fst (last g))
     \<and> b_SwapTotal b = r_SwapTotal (fst (last g)) \<and> b_FS b = r_FS (fst (last g))
     \<and> b_Counters b = \<lparr>c_NetRxBytes = net_RxBytes (Net (snd (last g))), c_NetTxBytes = net_TxBytes (Net (snd (last g))),
       c_DiskReadBytes = disk_ReadBytes (Disk (snd (last g))), c_DiskWriteBytes = disk_WriteBytes (Disk (snd (last g))),
       c_UptimeSeconds = to_u64 (Seconds (Uptime (snd (last g))))\<rparr>"

text \<open>
  C19.  A bucket the aggregator emits describes one group of intervals: all its readings fall in the
  window and carry the same boot id, which is the bucket's, each of its twelve statistics is that
  of its column of derived rates, and its closing figures are those of the last reading.
\<close>

theorem bucket_contents:
  assumes "int (length ss) < 9223372036854775808"
    and "w' = agg_window (new_aggregator w)"
    and "b \<in> set (agg_output (new_aggregator w) (s # ss))"
  shows "\<exists>g\<in>set (group w' [] (intervals s ss)). describes w' g b"
proof -
  from assms agg_output_groups [OF assms(1)] obtain g where
    g: "g \<in> set (group w' [] (intervals s ss))" "b = bucket_of w' g" by auto
  have w: "g \<noteq> []" "one_window w' g" using group_windows [OF g(1) one_window_Nil] by (rule conjunct1, rule conjunct2)
  obtain boot where boot: "\<forall>x\<in>set g. BootID (snd x) = boot" using group_boot [OF g(1)] by auto
  have st: "b_Start b = window_of w' (hd g)" by (simp add: g(2) bucket_of_Start)
  have "last g \<in> set g" using w(1) by simp
  then have bid: "b_BootID b = boot"
    using boot w(1) by (simp add: g(2) bucket_of_def Let_def fold_bucket_add_last)
  have all: "\<forall>x\<in>set g. Truncate (At (snd x)) w' = b_Start b \<and> BootID (snd x) = b_BootID b"
    using w(2) boot unfolding st bid one_window_def window_of_def by blast
  note columns = bucket_of_columns [OF w(1), of w', folded g(2)]
  have "describes w' g b" unfolding describes_def by (intro conjI w(1) all columns)
  with g(1) show ?thesis ..
qed

section \<open>A concrete stream\<close>

text \<open>Two readings one second apart, the second derivable from the first.\<close>

definition example_first :: Sample where
  "example_first = example_sample 0 ''b'' (example_cpu 0 0 0)"

definition example_second :: Sample where
  "example_second = example_sample second ''b'' (example_cpu 2 5 1)"

lemma example_pair: "\<exists>r. Derive example_first example_second = Some r"
  unfolding example_first_def example_second_def by (rule example_derive)

theorem aggregator_refines_witness:
  "\<exists>r. agg_output (new_aggregator 0) [example_first, example_second]
     = [bucket_of DefaultWindow [(r, example_second)]]"
proof -
  obtain r where "Derive example_first example_second = Some r" using example_pair by blast
  then show ?thesis
    using aggregator_refines [of "[example_second]" 0 example_first]
    by (auto simp: agg_window_def new_aggregator_def)
qed

theorem aggregator_conserves_witness:
  "sum_list (map b_Samples (agg_output (new_aggregator 0) [example_first, example_second])) = 1"
proof -
  obtain r where "Derive example_first example_second = Some r" using example_pair by blast
  then show ?thesis
    using aggregator_conserves [of "[example_second]" _ 0 _ example_first, OF _ refl refl] by simp
qed

theorem bucket_contents_witness:
  "\<exists>b g. b \<in> set (agg_output (new_aggregator 0) [example_first, example_second])
     \<and> describes (agg_window (new_aggregator 0)) g b"
proof -
  obtain r where r: "Derive example_first example_second = Some r" using example_pair by blast
  let ?b = "bucket_of DefaultWindow [(r, example_second)]"
  have w: "agg_window (new_aggregator 0) = DefaultWindow"
    by (simp add: agg_window_def new_aggregator_def)
  have "agg_output (new_aggregator 0) [example_first, example_second] = [?b]"
    using agg_run_refines [of "new_aggregator 0\<lparr>agg_prev := Some example_first\<rparr>" example_first "[]"
        "[example_second]"] r
    by (simp add: agg_output_def agg_Add_def new_aggregator_def agg_repr_def agg_window_def
        case_prod_beta)
  then have b: "?b \<in> set (agg_output (new_aggregator 0) [example_first, example_second])" by simp
  have len: "int (length [example_second]) < 9223372036854775808" by simp
  from bucket_contents [OF len refl b] b show ?thesis by blast
qed

end
