(* ===== verification/Wire.thy ===== *)
theory Wire
  imports GoTime
begin

text \<open>
  The contract with the platform (\<open>internal/wire/wire.go\<close>): the configuration a reply may
  carry, its bounds, and \<open>Config.Apply\<close>, which adopts the whole configuration or none of it.
  The lemmas characterise \<open>Apply\<close> where the seconds fit in a \<open>Duration\<close>, show that whatever it
  accepts is within bounds, and exhibit the multiplication that wraps.
\<close>

record config =
  IntervalSeconds :: int
  FlushSeconds :: int
  WindowSeconds :: int

record response =
  Accepted :: int
  Config :: config

record settings =
  Interval :: duration
  Flush :: duration
  Window :: duration

definition MinInterval :: duration where "MinInterval = second"
definition MaxInterval :: duration where "MaxInterval = 5 * minute"
definition MinFlush :: duration where "MinFlush = 10 * second"
definition MaxFlush :: duration where "MaxFlush = hour"
definition MinWindow :: duration where "MinWindow = second"
definition MaxWindow :: duration where "MaxWindow = 5 * minute"

lemmas bound_defs = MinInterval_def MaxInterval_def MinFlush_def MaxFlush_def
  MinWindow_def MaxWindow_def duration_defs

datatype wire_error = OutOfRange string duration

type_synonym config_field =
  "string \<times> int \<times> duration \<times> duration \<times> (duration \<Rightarrow> settings \<Rightarrow> settings)"

text \<open>The loop over the table of fields; \<open>target\<close> stores into the settings under construction.\<close>

fun apply_fields :: "config_field list \<Rightarrow> settings \<Rightarrow> wire_error + settings" where
  "apply_fields [] s = Inr s"
| "apply_fields ((name, secs, lo, hi, target) # fs) s =
     (if secs = 0 then apply_fields fs s
      else let d = i64 (secs * second) in
        if d < lo \<or> hi < d then Inl (OutOfRange name d)
        else apply_fields fs (target d s))"

definition config_fields :: "config \<Rightarrow> config_field list" where
  "config_fields c =
     [(''interval'', IntervalSeconds c, MinInterval, MaxInterval, \<lambda>d s. s\<lparr>Interval := d\<rparr>),
      (''flush'', FlushSeconds c, MinFlush, MaxFlush, \<lambda>d s. s\<lparr>Flush := d\<rparr>),
      (''window'', WindowSeconds c, MinWindow, MaxWindow, \<lambda>d s. s\<lparr>Window := d\<rparr>)]"

definition Apply :: "config \<Rightarrow> settings \<Rightarrow> settings \<times> wire_error option" where
  "Apply c current = (case apply_fields (config_fields c) current of
     Inl e \<Rightarrow> (current, Some e) | Inr s \<Rightarrow> (s, None))"

section \<open>What Apply accepts\<close>

definition settings_ok :: "settings \<Rightarrow> bool" where
  "settings_ok s \<longleftrightarrow> MinInterval \<le> Interval s \<and> Interval s \<le> MaxInterval
     \<and> MinFlush \<le> Flush s \<and> Flush s \<le> MaxFlush
     \<and> MinWindow \<le> Window s \<and> Window s \<le> MaxWindow"

text \<open>What the documentation promises, over unbounded integers.\<close>

definition field_ok :: "int \<Rightarrow> duration \<Rightarrow> duration \<Rightarrow> bool" where
  "field_ok secs lo hi \<longleftrightarrow> secs = 0 \<or> (lo \<le> secs * second \<and> secs * second \<le> hi)"

definition config_ok :: "config \<Rightarrow> bool" where
  "config_ok c \<longleftrightarrow> field_ok (IntervalSeconds c) MinInterval MaxInterval
     \<and> field_ok (FlushSeconds c) MinFlush MaxFlush
     \<and> field_ok (WindowSeconds c) MinWindow MaxWindow"

definition override :: "int \<Rightarrow> duration \<Rightarrow> duration" where
  "override secs d = (if secs = 0 then d else secs * second)"

definition config_small :: "config \<Rightarrow> bool" where
  "config_small c \<longleftrightarrow> \<bar>IntervalSeconds c\<bar> \<le> 9223372036 \<and> \<bar>FlushSeconds c\<bar> \<le> 9223372036
     \<and> \<bar>WindowSeconds c\<bar> \<le> 9223372036"

lemma i64_seconds: "\<bar>n\<bar> \<le> 9223372036 \<Longrightarrow> i64 (n * second) = n * second"
  by (rule i64_id) (auto simp: second_def abs_le_iff)

text \<open>
  C31.  For seconds that fit in a \<open>Duration\<close>, \<open>Apply\<close> succeeds exactly when every field the
  platform set is within its bounds, and then replaces exactly those fields; otherwise it returns
  the current settings untouched, with an error.
\<close>

theorem Apply_spec:
  assumes "config_small c"
  shows "(config_ok c \<longrightarrow> Apply c s =
       (s\<lparr>Interval := override (IntervalSeconds c) (Interval s),
          Flush := override (FlushSeconds c) (Flush s),
          Window := override (WindowSeconds c) (Window s)\<rparr>, None))
     \<and> (\<not> config_ok c \<longrightarrow> (\<exists>e. Apply c s = (s, Some e)))"
  using assms
  by (cases s) (auto simp: Apply_def config_fields_def config_small_def config_ok_def field_ok_def
      override_def i64_seconds Let_def)

theorem Apply_spec_witness:
  "Apply \<lparr>IntervalSeconds = 5, FlushSeconds = 0, WindowSeconds = 30\<rparr>
      \<lparr>Interval = second, Flush = minute, Window = 10 * second\<rparr>
    = (\<lparr>Interval = 5 * second, Flush = minute, Window = 30 * second\<rparr>, None)"
proof -
  let ?c = "\<lparr>IntervalSeconds = 5, FlushSeconds = 0, WindowSeconds = 30\<rparr>"
  have "config_small ?c" by (simp add: config_small_def)
  from Apply_spec [OF this, of "\<lparr>Interval = second, Flush = minute, Window = 10 * second\<rparr>"]
  show ?thesis by (simp add: config_ok_def field_ok_def override_def bound_defs)
qed

lemma Apply_settings_ok: "settings_ok s \<Longrightarrow> settings_ok (fst (Apply c s))"
  by (auto simp: Apply_def config_fields_def settings_ok_def Let_def)

lemma Apply_error_unchanged: "snd (Apply c s) = Some e \<Longrightarrow> fst (Apply c s) = s"
  by (auto simp: Apply_def split: sum.splits)

text \<open>
  Whatever the reply says, even where the multiplication wraps, settings within the bounds
  stay within the bounds, and a refused configuration changes nothing.
\<close>

theorem Apply_safe:
  "(settings_ok s \<longrightarrow> settings_ok (fst (Apply c s)))
   \<and> (snd (Apply c s) \<noteq> None \<longrightarrow> fst (Apply c s) = s)"
  using Apply_settings_ok [of s c] Apply_error_unchanged [of c s] by auto

theorem Apply_safe_witness:
  "settings_ok (fst (Apply \<lparr>IntervalSeconds = 1, FlushSeconds = 5, WindowSeconds = 10\<rparr>
      \<lparr>Interval = second, Flush = minute, Window = 10 * second\<rparr>))"
  using Apply_safe [of "\<lparr>Interval = second, Flush = minute, Window = 10 * second\<rparr>"
      "\<lparr>IntervalSeconds = 1, FlushSeconds = 5, WindowSeconds = 10\<rparr>"]
  by (simp add: settings_ok_def bound_defs)

text \<open>
  A number of seconds in the order of a thousand million years, for every multiple of 512 nanoseconds:
  \<open>second\<close> is \<open>512 * 5 ^ 9\<close>, and \<open>5 ^ 9\<close> has an inverse modulo \<open>2 ^ 55\<close>.
\<close>

lemma seconds_wrap:
  assumes "512 dvd d" and "0 \<le> d" and "d < 9223372036854775808"
  shows "\<exists>k. 36028797018963968 \<le> k \<and> i64 (k * second) = d"
proof -
  obtain e where e: "d = 512 * e" using assms(1) by blast
  define q r where "q = 20211507185753197 * e div 36028797018963968" and "r = 20211507185753197 * e mod 36028797018963968"
  have "36028797018963968 * q + r = 20211507185753197 * e" by (simp add: q_def r_def)
  then have r: "r = 20211507185753197 * e - 36028797018963968 * q" by simp
  have k: "(36028797018963968 + r) * second = d + 18446744073709551616 * (1953125 * (1 - q) + 1095668 * e)"
    unfolding e second_def r by (simp add: algebra_simps)
  have "i64 (d + 18446744073709551616 * m) = d" for m
  proof -
    have "d + 18446744073709551616 * m + 9223372036854775808 = (d + 9223372036854775808) + m * 18446744073709551616" by simp
    then show ?thesis using assms(2,3) by (simp only: i64_def mod_mult_self1) simp
  qed
  then have "i64 ((36028797018963968 + r) * second) = d" unfolding k .
  moreover have "0 \<le> r" unfolding r_def by (rule pos_mod_sign) simp
  ultimately show ?thesis by (intro exI [of _ "36028797018963968 + r"]) simp
qed

text \<open>
  C39.  The conversion to nanoseconds wraps before the bounds are checked.  Whatever schedule within the
  bounds one picks, its periods being multiples of 512 ns, there is a configuration that asks for three
  periods of more than a thousand million years, each out of its bounds, and that \<open>Apply\<close> accepts as
  this schedule, whatever the current one is.
\<close>

theorem Apply_overflow_accepted:
  assumes "settings_ok s'" and "512 dvd Interval s'" and "512 dvd Flush s'" and "512 dvd Window s'"
  shows "\<exists>c. Apply c s = (s', None)
     \<and> \<not> field_ok (IntervalSeconds c) MinInterval MaxInterval
     \<and> \<not> field_ok (FlushSeconds c) MinFlush MaxFlush
     \<and> \<not> field_ok (WindowSeconds c) MinWindow MaxWindow
     \<and> 36028797018963968 \<le> IntervalSeconds c \<and> 36028797018963968 \<le> FlushSeconds c
     \<and> 36028797018963968 \<le> WindowSeconds c"
proof -
  have r: "0 \<le> Interval s'" "Interval s' < 9223372036854775808" "0 \<le> Flush s'" "Flush s' < 9223372036854775808"
    "0 \<le> Window s'" "Window s' < 9223372036854775808"
    using assms(1) by (simp_all add: settings_ok_def bound_defs)
  obtain k1 k2 k3 where k: "36028797018963968 \<le> k1" "i64 (k1 * second) = Interval s'"
    "36028797018963968 \<le> k2" "i64 (k2 * second) = Flush s'" "36028797018963968 \<le> k3" "i64 (k3 * second) = Window s'"
    using seconds_wrap [OF assms(2) r(1,2)] seconds_wrap [OF assms(3) r(3,4)] seconds_wrap [OF assms(4) r(5,6)] by blast
  let ?c = "\<lparr>IntervalSeconds = k1, FlushSeconds = k2, WindowSeconds = k3\<rparr>"
  have "Apply ?c s = (s', None)"
    using assms(1) k by (cases s') (auto simp: Apply_def config_fields_def settings_ok_def Let_def)
  moreover have "\<not> field_ok k lo hi" if "36028797018963968 \<le> k" "hi \<le> 3600000000000" for k lo hi
    using that by (auto simp: field_ok_def second_def)
  ultimately show ?thesis using k by (intro exI [of _ ?c]) (simp add: bound_defs)
qed

theorem Apply_overflow_accepted_witness:
  "\<exists>c. Apply c \<lparr>Interval = 10 * second, Flush = minute, Window = 10 * second\<rparr>
       = (\<lparr>Interval = second, Flush = hour, Window = 2 * second\<rparr>, None) \<and> 36028797018963968 \<le> IntervalSeconds c"
  using Apply_overflow_accepted [of "\<lparr>Interval = second, Flush = hour, Window = 2 * second\<rparr>"
      "\<lparr>Interval = 10 * second, Flush = minute, Window = 10 * second\<rparr>"]
  by (auto simp: settings_ok_def bound_defs)

end
