(* ===== verification/Codec.thy ===== *)
theory Codec
  imports Json TimeText Bucket Wire
begin

text \<open>
  How the program's structs become JSON and come back: the struct tags of \<open>bucket.go\<close>,
  \<open>sample.go\<close> and \<open>wire.go\<close>, \<open>Stat.MarshalJSON\<close> with its rounding to two decimals, the upload
  batch and the platform's reply.  A struct tag is a triple of the name, the encoder of the field
  and its decoder.

  What encoding and decoding again yields is shown in \<open>CodecLaws\<close>.
\<close>

section \<open>Struct tags\<close>

type_synonym 'r tag = "string \<times> ('r \<Rightarrow> json option) \<times> (json \<Rightarrow> 'r \<Rightarrow> 'r option)"
type_synonym 'r tags = "'r tag list"

fun enc_fields :: "'r tags \<Rightarrow> 'r \<Rightarrow> (string \<times> json) list option" where
  "enc_fields [] r = Some []"
| "enc_fields ((k, e, d) # tags) r =
     (case e r of None \<Rightarrow> None | Some j \<Rightarrow> map_option ((#) (k, j)) (enc_fields tags r))"

definition enc_struct :: "'r tags \<Rightarrow> 'r \<Rightarrow> json option" where
  "enc_struct tags r = map_option JObj (enc_fields tags r)"

definition dec_table :: "'r tags \<Rightarrow> 'r field_table" where
  "dec_table tags = map (\<lambda>(k, e, d). (k, d)) tags"

definition dec_struct :: "'r tags \<Rightarrow> json \<Rightarrow> 'r \<Rightarrow> 'r option" where
  "dec_struct tags = json_struct (dec_table tags)"

fun enc_list :: "('a \<Rightarrow> json option) \<Rightarrow> 'a list \<Rightarrow> json list option" where
  "enc_list e [] = Some []"
| "enc_list e (x # xs) = (case e x of None \<Rightarrow> None | Some j \<Rightarrow> map_option ((#) j) (enc_list e xs))"

text \<open>A field of each kind: how it is written, read and stored.\<close>

definition u64_field :: "string \<Rightarrow> ('r \<Rightarrow> u64) \<Rightarrow> (u64 \<Rightarrow> 'r \<Rightarrow> 'r) \<Rightarrow> 'r tag" where
  "u64_field k get upd = (k, \<lambda>r. Some (JNum (dec (uint (get r)))),
     \<lambda>j r. map_option (\<lambda>x. upd x r) (json_u64 j (get r)))"

definition int_field :: "string \<Rightarrow> ('r \<Rightarrow> int) \<Rightarrow> (int \<Rightarrow> 'r \<Rightarrow> 'r) \<Rightarrow> 'r tag" where
  "int_field k get upd = (k, \<lambda>r. Some (JNum (dec_signed (get r))),
     \<lambda>j r. map_option (\<lambda>x. upd x r) (json_int j (get r)))"

definition str_field :: "string \<Rightarrow> ('r \<Rightarrow> string) \<Rightarrow> (string \<Rightarrow> 'r \<Rightarrow> 'r) \<Rightarrow> 'r tag" where
  "str_field k get upd = (k, \<lambda>r. Some (JStr (get r)),
     \<lambda>j r. map_option (\<lambda>x. upd x r) (json_str j (get r)))"

definition f64_field :: "string \<Rightarrow> ('r \<Rightarrow> f64) \<Rightarrow> (f64 \<Rightarrow> 'r \<Rightarrow> 'r) \<Rightarrow> 'r tag" where
  "f64_field k get upd = (k, \<lambda>r. map_option JNum (fmt_float (get r)),
     \<lambda>j r. map_option (\<lambda>x. upd x r) (json_f64 j (get r)))"

definition json_time :: "json \<Rightarrow> time \<Rightarrow> time option" where
  "json_time j t = (case j of JNull \<Rightarrow> Some t | JStr s \<Rightarrow> parse_time s | _ \<Rightarrow> None)"

definition time_field :: "string \<Rightarrow> ('r \<Rightarrow> time) \<Rightarrow> (time \<Rightarrow> 'r \<Rightarrow> 'r) \<Rightarrow> 'r tag" where
  "time_field k get upd = (k, \<lambda>r. map_option JStr (fmt_time (get r)),
     \<lambda>j r. map_option (\<lambda>x. upd x r) (json_time j (get r)))"

definition struct_field :: "string \<Rightarrow> 'a tags \<Rightarrow> ('r \<Rightarrow> 'a) \<Rightarrow> ('a \<Rightarrow> 'r \<Rightarrow> 'r) \<Rightarrow> 'r tag" where
  "struct_field k tags get upd = (k, \<lambda>r. enc_struct tags (get r),
     \<lambda>j r. map_option (\<lambda>x. upd x r) (dec_struct tags j (get r)))"

definition slice_field :: "string \<Rightarrow> 'a tags \<Rightarrow> 'a \<Rightarrow> ('r \<Rightarrow> 'a list) \<Rightarrow> ('a list \<Rightarrow> 'r \<Rightarrow> 'r) \<Rightarrow> 'r tag" where
  "slice_field k tags zero get upd = (k, \<lambda>r. map_option JArr (enc_list (enc_struct tags) (get r)),
     \<lambda>j r. map_option (\<lambda>x. upd x r) (json_slice (dec_struct tags) zero j (get r)))"

section \<open>The statistic\<close>

definition round2 :: "f64 \<Rightarrow> f64" where
  "round2 v = math_Round (v * Fin 100) / Fin 100"

definition stat_tags :: "Stat tags" where
  "stat_tags = [f64_field ''min'' s_Min (\<lambda>x r. r\<lparr>s_Min := x\<rparr>),
     f64_field ''avg'' s_Avg (\<lambda>x r. r\<lparr>s_Avg := x\<rparr>),
     f64_field ''max'' s_Max (\<lambda>x r. r\<lparr>s_Max := x\<rparr>)]"

definition Stat_MarshalJSON :: "Stat \<Rightarrow> json option" where
  "Stat_MarshalJSON s = enc_struct stat_tags
     (s\<lparr>s_Min := round2 (s_Min s), s_Avg := round2 (s_Avg s), s_Max := round2 (s_Max s)\<rparr>)"

definition stat_field :: "string \<Rightarrow> ('r \<Rightarrow> Stat) \<Rightarrow> (Stat \<Rightarrow> 'r \<Rightarrow> 'r) \<Rightarrow> 'r tag" where
  "stat_field k get upd = (k, \<lambda>r. Stat_MarshalJSON (get r),
     \<lambda>j r. map_option (\<lambda>x. upd x r) (dec_struct stat_tags j (get r)))"

section \<open>The bucket\<close>

definition counters_tags :: "Counters tags" where
  "counters_tags =
     [u64_field ''net_rx_bytes'' c_NetRxBytes (\<lambda>x r. r\<lparr>c_NetRxBytes := x\<rparr>),
      u64_field ''net_tx_bytes'' c_NetTxBytes (\<lambda>x r. r\<lparr>c_NetTxBytes := x\<rparr>),
      u64_field ''disk_read_bytes'' c_DiskReadBytes (\<lambda>x r. r\<lparr>c_DiskReadBytes := x\<rparr>),
      u64_field ''disk_write_bytes'' c_DiskWriteBytes (\<lambda>x r. r\<lparr>c_DiskWriteBytes := x\<rparr>),
      u64_field ''uptime_seconds'' c_UptimeSeconds (\<lambda>x r. r\<lparr>c_UptimeSeconds := x\<rparr>)]"

definition filesystem_tags :: "Filesystem tags" where
  "filesystem_tags =
     [str_field ''mount'' fs_Mount (\<lambda>x r. r\<lparr>fs_Mount := x\<rparr>),
      u64_field ''total'' fs_Total (\<lambda>x r. r\<lparr>fs_Total := x\<rparr>),
      u64_field ''used'' fs_Used (\<lambda>x r. r\<lparr>fs_Used := x\<rparr>)]"

definition zero_filesystem :: Filesystem where
  "zero_filesystem = \<lparr>fs_Mount = [], fs_Total = 0, fs_Used = 0\<rparr>"

definition bucket_tags :: "Bucket tags" where
  "bucket_tags =
     [time_field ''start'' b_Start (\<lambda>x r. r\<lparr>b_Start := x\<rparr>),
      time_field ''end'' b_End (\<lambda>x r. r\<lparr>b_End := x\<rparr>),
      int_field ''samples'' b_Samples (\<lambda>x r. r\<lparr>b_Samples := x\<rparr>),
      str_field ''boot_id'' b_BootID (\<lambda>x r. r\<lparr>b_BootID := x\<rparr>),
      stat_field ''cpu_busy'' b_CPUBusy (\<lambda>x r. r\<lparr>b_CPUBusy := x\<rparr>),
      stat_field ''cpu_iowait'' b_CPUIOWait (\<lambda>x r. r\<lparr>b_CPUIOWait := x\<rparr>),
      stat_field ''cpu_steal'' b_CPUSteal (\<lambda>x r. r\<lparr>b_CPUSteal := x\<rparr>),
      stat_field ''cpu_user'' b_CPUUser (\<lambda>x r. r\<lparr>b_CPUUser := x\<rparr>),
      stat_field ''cpu_system'' b_CPUSystem (\<lambda>x r. r\<lparr>b_CPUSystem := x\<rparr>),
      stat_field ''mem_used'' b_MemUsed (\<lambda>x r. r\<lparr>b_MemUsed := x\<rparr>),
      stat_field ''swap_used'' b_SwapUsed (\<lambda>x r. r\<lparr>b_SwapUsed := x\<rparr>),
      stat_field ''load1'' b_Load1 (\<lambda>x r. r\<lparr>b_Load1 := x\<rparr>),
      stat_field ''net_rx'' b_NetRx (\<lambda>x r. r\<lparr>b_NetRx := x\<rparr>),
      stat_field ''net_tx'' b_NetTx (\<lambda>x r. r\<lparr>b_NetTx := x\<rparr>),
      stat_field ''disk_read'' b_DiskRead (\<lambda>x r. r\<lparr>b_DiskRead := x\<rparr>),
      stat_field ''disk_write'' b_DiskWrite (\<lambda>x r. r\<lparr>b_DiskWrite := x\<rparr>),
      u64_field ''mem_total'' b_MemTotal (\<lambda>x r. r\<lparr>b_MemTotal := x\<rparr>),
      u64_field ''swap_total'' b_SwapTotal (\<lambda>x r. r\<lparr>b_SwapTotal := x\<rparr>),
      slice_field ''fs'' filesystem_tags zero_filesystem b_FS (\<lambda>x r. r\<lparr>b_FS := x\<rparr>),
      struct_field ''counters'' counters_tags b_Counters (\<lambda>x r. r\<lparr>b_Counters := x\<rparr>)]"

definition bucket_json :: "Bucket \<Rightarrow> json option" where
  "bucket_json = enc_struct bucket_tags"

text \<open>\<open>json.Marshal\<close> and \<open>json.Unmarshal\<close> of a bucket; the zero time is the zero of the model.\<close>

definition marshal_bucket :: "Bucket \<Rightarrow> string option" where
  "marshal_bucket b = map_option render (bucket_json b)"

definition unmarshal_bucket :: "string \<Rightarrow> Bucket option" where
  "unmarshal_bucket s = (case json_parse s of None \<Rightarrow> None
     | Some j \<Rightarrow> dec_struct bucket_tags j (new_bucket 0 0))"

section \<open>The upload and the reply\<close>

record batch =
  Agent_version :: string
  SentAt :: time
  Buckets :: "Bucket list"

definition batch_json :: "batch \<Rightarrow> json option" where
  "batch_json b =
     (case (fmt_time (SentAt b), enc_list bucket_json (Buckets b)) of
        (Some t, Some bs) \<Rightarrow> Some (JObj [(''agent'', JStr (Agent_version b)),
           (''sent_at'', JStr t), (''buckets'', JArr bs)])
      | _ \<Rightarrow> None)"

definition config_tags :: "config tags" where
  "config_tags =
     [int_field ''interval'' IntervalSeconds (\<lambda>x r. r\<lparr>IntervalSeconds := x\<rparr>),
      int_field ''flush'' FlushSeconds (\<lambda>x r. r\<lparr>FlushSeconds := x\<rparr>),
      int_field ''window'' WindowSeconds (\<lambda>x r. r\<lparr>WindowSeconds := x\<rparr>)]"

definition response_tags :: "response tags" where
  "response_tags =
     [int_field ''accepted'' Accepted (\<lambda>x r. r\<lparr>Accepted := x\<rparr>),
      struct_field ''config'' config_tags Config (\<lambda>x r. r\<lparr>Config := x\<rparr>)]"

definition zero_response :: response where
  "zero_response = \<lparr>Accepted = 0,
     Config = \<lparr>IntervalSeconds = 0, FlushSeconds = 0, WindowSeconds = 0\<rparr>\<rparr>"

definition unmarshal_response :: "string \<Rightarrow> response option" where
  "unmarshal_response s = (case json_parse s of None \<Rightarrow> None
     | Some j \<Rightarrow> dec_struct response_tags j zero_response)"

section \<open>The raw sample\<close>

definition cpu_tags :: "CPUTimes tags" where
  "cpu_tags =
     [u64_field ''user'' cpu_User (\<lambda>x r. r\<lparr>cpu_User := x\<rparr>),
      u64_field ''nice'' cpu_Nice (\<lambda>x r. r\<lparr>cpu_Nice := x\<rparr>),
      u64_field ''system'' cpu_System (\<lambda>x r. r\<lparr>cpu_System := x\<rparr>),
      u64_field ''idle'' cpu_Idle (\<lambda>x r. r\<lparr>cpu_Idle := x\<rparr>),
      u64_field ''iowait'' cpu_IOWait (\<lambda>x r. r\<lparr>cpu_IOWait := x\<rparr>),
      u64_field ''irq'' cpu_IRQ (\<lambda>x r. r\<lparr>cpu_IRQ := x\<rparr>),
      u64_field ''softirq'' cpu_SoftIRQ (\<lambda>x r. r\<lparr>cpu_SoftIRQ := x\<rparr>),
      u64_field ''steal'' cpu_Steal (\<lambda>x r. r\<lparr>cpu_Steal := x\<rparr>)]"

definition memory_tags :: "Memory tags" where
  "memory_tags =
     [u64_field ''total'' mem_Total (\<lambda>x r. r\<lparr>mem_Total := x\<rparr>),
      u64_field ''available'' mem_Available (\<lambda>x r. r\<lparr>mem_Available := x\<rparr>),
      u64_field ''free'' mem_Free (\<lambda>x r. r\<lparr>mem_Free := x\<rparr>),
      u64_field ''buffers'' mem_Buffers (\<lambda>x r. r\<lparr>mem_Buffers := x\<rparr>),
      u64_field ''cached'' mem_Cached (\<lambda>x r. r\<lparr>mem_Cached := x\<rparr>),
      u64_field ''swap_total'' mem_SwapTotal (\<lambda>x r. r\<lparr>mem_SwapTotal := x\<rparr>),
      u64_field ''swap_free'' mem_SwapFree (\<lambda>x r. r\<lparr>mem_SwapFree := x\<rparr>)]"

definition load_tags :: "Load tags" where
  "load_tags = [f64_field ''one'' load_One (\<lambda>x r. r\<lparr>load_One := x\<rparr>),
     f64_field ''five'' load_Five (\<lambda>x r. r\<lparr>load_Five := x\<rparr>),
     f64_field ''fifteen'' load_Fifteen (\<lambda>x r. r\<lparr>load_Fifteen := x\<rparr>)]"

definition net_tags :: "NetCounters tags" where
  "net_tags =
     [u64_field ''rx_bytes'' net_RxBytes (\<lambda>x r. r\<lparr>net_RxBytes := x\<rparr>),
      u64_field ''tx_bytes'' net_TxBytes (\<lambda>x r. r\<lparr>net_TxBytes := x\<rparr>),
      u64_field ''rx_packets'' net_RxPackets (\<lambda>x r. r\<lparr>net_RxPackets := x\<rparr>),
      u64_field ''tx_packets'' net_TxPackets (\<lambda>x r. r\<lparr>net_TxPackets := x\<rparr>),
      u64_field ''rx_errors'' net_RxErrors (\<lambda>x r. r\<lparr>net_RxErrors := x\<rparr>),
      u64_field ''tx_errors'' net_TxErrors (\<lambda>x r. r\<lparr>net_TxErrors := x\<rparr>)]"

definition disk_tags :: "DiskCounters tags" where
  "disk_tags =
     [u64_field ''read_bytes'' disk_ReadBytes (\<lambda>x r. r\<lparr>disk_ReadBytes := x\<rparr>),
      u64_field ''write_bytes'' disk_WriteBytes (\<lambda>x r. r\<lparr>disk_WriteBytes := x\<rparr>),
      u64_field ''read_ops'' disk_ReadOps (\<lambda>x r. r\<lparr>disk_ReadOps := x\<rparr>),
      u64_field ''write_ops'' disk_WriteOps (\<lambda>x r. r\<lparr>disk_WriteOps := x\<rparr>)]"

definition sample_tags :: "Sample tags" where
  "sample_tags =
     [time_field ''at'' At (\<lambda>x r. r\<lparr>At := x\<rparr>),
      str_field ''boot_id'' BootID (\<lambda>x r. r\<lparr>BootID := x\<rparr>),
      int_field ''uptime'' Uptime (\<lambda>x r. r\<lparr>Uptime := x\<rparr>),
      struct_field ''cpu'' cpu_tags CPU (\<lambda>x r. r\<lparr>CPU := x\<rparr>),
      struct_field ''mem'' memory_tags Mem (\<lambda>x r. r\<lparr>Mem := x\<rparr>),
      struct_field ''load'' load_tags LoadAvg (\<lambda>x r. r\<lparr>LoadAvg := x\<rparr>),
      struct_field ''net'' net_tags Net (\<lambda>x r. r\<lparr>Net := x\<rparr>),
      struct_field ''disk'' disk_tags Disk (\<lambda>x r. r\<lparr>Disk := x\<rparr>),
      slice_field ''fs'' filesystem_tags zero_filesystem FS (\<lambda>x r. r\<lparr>FS := x\<rparr>)]"

definition sample_json :: "Sample \<Rightarrow> json option" where
  "sample_json = enc_struct sample_tags"

end
