(* ===== verification/Spool.thy ===== *)
theory Spool
  imports Codec "HOL-Library.List_Lexorder" "HOL-Library.Char_ord"
begin

text \<open>
  The disk-backed queue (\<open>internal/spool/spool.go\<close>).  The directory \<open>Dir\<close> is an association list
  from names to nodes, \<open>None\<close> when it does not exist; an operation takes and returns it.  Every
  system call may fail: \<open>faults\<close> says which ones do during one operation, how much a failed write
  left in its file, and the digits that \<open>CreateTemp\<close> put in its name.  File modes and the path
  \<open>Dir\<close> itself are not modelled, and no other process writes into the directory during a call.

  The lemmas show what each operation does to the list of decodable entries in name order, that no
  intermediate state of a write is visible, that the cap drops a minimal prefix, and that the order
  of the names is the order of the windows.
\<close>

section \<open>The directory\<close>

datatype node = SubDir | File string

type_synonym directory = "(string \<times> node) list"

definition del :: "string \<Rightarrow> directory \<Rightarrow> directory" where
  "del n d = filter (\<lambda>p. fst p \<noteq> n) d"

definition put :: "string \<Rightarrow> node \<Rightarrow> directory \<Rightarrow> directory" where
  "put n x d = (n, x) # del n d"

definition contents :: "directory \<Rightarrow> string \<Rightarrow> string" where
  "contents d n = (case map_of d n of Some (File p) \<Rightarrow> p | _ \<Rightarrow> [])"

datatype stat_outcome = StatOk | StatMissing | StatFailed

record faults =
  ft_mkdir :: bool
  ft_create :: bool
  ft_suffix :: string
  ft_write :: "nat option"
  ft_sync :: bool
  ft_close :: bool
  ft_chmod :: bool
  ft_rename :: bool
  ft_cleanup :: bool
  ft_readdir :: bool
  ft_read :: "string \<Rightarrow> bool"
  ft_remove :: "string \<Rightarrow> bool"
  ft_stat :: "string \<Rightarrow> stat_outcome"

definition no_faults :: "string \<Rightarrow> faults" where
  "no_faults suffix = \<lparr>ft_mkdir = False, ft_create = False, ft_suffix = suffix, ft_write = None,
     ft_sync = False, ft_close = False, ft_chmod = False, ft_rename = False, ft_cleanup = False,
     ft_readdir = False, ft_read = (\<lambda>_. False), ft_remove = (\<lambda>_. False), ft_stat = (\<lambda>_. StatOk)\<rparr>"

datatype spool_error = CreateDirError | EncodeError | TempFileError | WriteError | SyncError
  | CloseError | ChmodError | RenameError | ReadDirError | ReadError string | StatError string
  | RemoveError string | DropError string | MakePanic

section \<open>The spool\<close>

definition DefaultMaxBytes :: int where "DefaultMaxBytes = 33554432"

definition ext :: string where "ext = ''.json''"

text \<open>\<open>sp_OnDrop\<close> says whether the callback is set; its calls are part of the results.\<close>

record Spool =
  sp_MaxBytes :: int
  sp_OnDrop :: bool
  sp_seq :: u32

type_synonym Entry = "string \<times> Bucket"

definition maxBytes :: "Spool \<Rightarrow> int" where
  "maxBytes s = (if sp_MaxBytes s \<le> 0 then DefaultMaxBytes else sp_MaxBytes s)"

text \<open>The name under a sequence number, and \<open>spool_name\<close> (\<open>name\<close>), which first advances it.\<close>

definition entry_name :: "u32 \<Rightarrow> Bucket \<Rightarrow> string" where
  "entry_name k b = pad_dec 20 (UnixNano (b_Start b)) @ ''-'' @ pad_dec 6 (uint k) @ ext"

definition spool_name :: "Spool \<Rightarrow> Bucket \<Rightarrow> Spool \<times> string" where
  "spool_name s b = (let s = s\<lparr>sp_seq := sp_seq s + 1\<rparr> in (s, entry_name (sp_seq s) b))"

definition filepath_Ext :: "string \<Rightarrow> string" where
  "filepath_Ext n = (if CHR ''.'' \<in> set n
     then CHR ''.'' # rev (takeWhile (\<lambda>c. c \<noteq> CHR ''.'') (rev n)) else [])"

text \<open>\<open>spool_write\<close> is \<open>write\<close>: the directory after every system call, and the error if there was one.\<close>

definition spool_write :: "faults \<Rightarrow> string \<Rightarrow> string \<Rightarrow> directory \<Rightarrow> directory list \<times> spool_error option" where
  "spool_write f final payload d =
     (let tmp = ''tmp-'' @ ft_suffix f in
      if ft_create f \<or> map_of d tmp \<noteq> None then ([d], Some TempFileError)
      else
       let d1 = put tmp (File []) d;
           cleanup = (\<lambda>d. if ft_cleanup f then d else del tmp d)
       in case ft_write f of
            Some n \<Rightarrow> let d2 = put tmp (File (take n payload)) d1 in
              ([d1, d2, cleanup d2], Some WriteError)
          | None \<Rightarrow> let d2 = put tmp (File payload) d1 in
              if ft_sync f then ([d1, d2, cleanup d2], Some SyncError)
              else if ft_close f then ([d1, d2, cleanup d2], Some CloseError)
              else if ft_chmod f then ([d1, d2, cleanup d2], Some ChmodError)
              else if ft_rename f \<or> map_of d2 final = Some SubDir
              then ([d1, d2, cleanup d2], Some RenameError)
              else let d3 = put final (File payload) (del tmp d2) in
                ([d1, d2, d3, cleanup d3], None))"

definition files :: "faults \<Rightarrow> directory option \<Rightarrow> spool_error + string list" where
  "files f disk = (case disk of None \<Rightarrow> Inr []
     | Some d \<Rightarrow> if ft_readdir f then Inl ReadDirError
         else Inr (sort (map fst (filter (\<lambda>(n, x). \<not> (x = SubDir \<or> filepath_Ext n \<noteq> ext)) d))))"

text \<open>The sizes that could be read, and their sum.\<close>

definition cap_sizes :: "faults \<Rightarrow> directory \<Rightarrow> string list \<Rightarrow> (string \<times> int) list" where
  "cap_sizes f d names = map (\<lambda>n. (n, int (length (contents d n))))
     (filter (\<lambda>n. ft_stat f n = StatOk) names)"

fun cap_loop :: "faults \<Rightarrow> int \<Rightarrow> (string \<times> int) list \<Rightarrow> string list \<Rightarrow> int \<Rightarrow> nat \<Rightarrow> directory
    \<Rightarrow> directory \<times> (spool_error + nat)" where
  "cap_loop f cap sizes [] tot dropped d = (d, Inr dropped)"
| "cap_loop f cap sizes (n # names) tot dropped d =
     (if tot \<le> cap then (d, Inr dropped)
      else if names = [] then (d, Inr dropped)
      else if ft_remove f n then (d, Inl (DropError n))
      else cap_loop f cap sizes names
        (tot - (case map_of sizes n of Some k \<Rightarrow> k | None \<Rightarrow> 0)) (dropped + 1) (del n d))"

text \<open>\<open>enforceCap\<close>: the directory, the result, and the calls of \<open>OnDrop\<close>.\<close>

definition enforceCap :: "faults \<Rightarrow> Spool \<Rightarrow> directory option
    \<Rightarrow> directory option \<times> spool_error option \<times> nat list" where
  "enforceCap f s disk =
     (case files f disk of Inl e \<Rightarrow> (disk, Some e, [])
      | Inr names \<Rightarrow>
        (case disk of None \<Rightarrow> (None, None, [])
         | Some d \<Rightarrow>
           let sizes = cap_sizes f d names in
           (case cap_loop f (maxBytes s) sizes names (sum_list (map snd sizes)) 0 d of
              (d', Inl e) \<Rightarrow> (Some d', Some e, [])
            | (d', Inr dropped) \<Rightarrow>
                (Some d', None, if 0 < dropped \<and> sp_OnDrop s then [dropped] else []))))"

definition Add :: "faults \<Rightarrow> Bucket \<Rightarrow> Spool \<Rightarrow> directory option
    \<Rightarrow> Spool \<times> directory option \<times> spool_error option \<times> nat list" where
  "Add f b s disk =
     (if ft_mkdir f then (s, disk, Some CreateDirError, [])
      else let d = (case disk of None \<Rightarrow> [] | Some d \<Rightarrow> d) in
       (case marshal_bucket b of None \<Rightarrow> (s, Some d, Some EncodeError, [])
        | Some payload \<Rightarrow>
          let (s', n) = spool_name s b in
          (case spool_write f n payload d of
             (ds, Some e) \<Rightarrow> (s', Some (last ds), Some e, [])
           | (ds, None) \<Rightarrow> (s', enforceCap f s' (Some (last ds))))))"

fun peek_loop :: "faults \<Rightarrow> int \<Rightarrow> string list \<Rightarrow> Entry list \<Rightarrow> directory
    \<Rightarrow> directory \<times> (spool_error + Entry list)" where
  "peek_loop f n [] out d = (d, Inr out)"
| "peek_loop f n (nm # names) out d =
     (if int (length out) = n then (d, Inr out)
      else if ft_read f nm then (d, Inl (ReadError nm))
      else (case unmarshal_bucket (contents d nm) of
         None \<Rightarrow> peek_loop f n names out (if ft_remove f nm then d else del nm d)
       | Some b \<Rightarrow> peek_loop f n names (out @ [(nm, b)]) d))"

definition Peek :: "faults \<Rightarrow> int \<Rightarrow> directory option
    \<Rightarrow> directory option \<times> (spool_error + Entry list)" where
  "Peek f n disk =
     (case files f disk of Inl e \<Rightarrow> (disk, Inl e)
      | Inr names \<Rightarrow>
          if n < 0 then (disk, Inl MakePanic)
          else (case disk of None \<Rightarrow> (None, Inr [])
            | Some d \<Rightarrow> apfst Some (peek_loop f n names [] d)))"

fun discard_loop :: "faults \<Rightarrow> Entry list \<Rightarrow> directory \<Rightarrow> directory \<times> spool_error option" where
  "discard_loop f [] d = (d, None)"
| "discard_loop f (e # es) d =
     (if ft_remove f (fst e) then (d, Some (RemoveError (fst e))) else discard_loop f es (del (fst e) d))"

definition Discard :: "faults \<Rightarrow> Entry list \<Rightarrow> directory option \<Rightarrow> directory option \<times> spool_error option" where
  "Discard f es disk = (case disk of None \<Rightarrow> (None, None) | Some d \<Rightarrow> apfst Some (discard_loop f es d))"

fun stats_loop :: "faults \<Rightarrow> string list \<Rightarrow> int \<Rightarrow> directory \<Rightarrow> spool_error + int" where
  "stats_loop f [] bytes d = Inr bytes"
| "stats_loop f (n # names) bytes d =
     (case ft_stat f n of StatMissing \<Rightarrow> stats_loop f names bytes d
      | StatFailed \<Rightarrow> Inl (StatError n)
      | StatOk \<Rightarrow> stats_loop f names (bytes + int (length (contents d n))) d)"

definition Stats :: "faults \<Rightarrow> directory option \<Rightarrow> spool_error + int \<times> int" where
  "Stats f disk = (case files f disk of Inl e \<Rightarrow> Inl e
     | Inr names \<Rightarrow>
       (case disk of None \<Rightarrow> Inr (0, 0)
        | Some d \<Rightarrow> (case stats_loop f names 0 d of Inl e \<Rightarrow> Inl e
            | Inr bytes \<Rightarrow> Inr (int (length names), bytes))))"

section \<open>Directories\<close>

text \<open>A directory has one node per name.\<close>

definition dir_ok :: "directory \<Rightarrow> bool" where
  "dir_ok d \<longleftrightarrow> distinct (map fst d)"

lemma map_of_del: "map_of (del n d) k = (if k = n then None else map_of d k)"
  by (induction d) (auto simp: del_def)

lemma map_of_put: "map_of (put n x d) k = (if k = n then Some x else map_of d k)"
  by (simp add: put_def map_of_del)

lemma dir_ok_del [simp]: "dir_ok d \<Longrightarrow> dir_ok (del n d)"
  by (simp add: dir_ok_def del_def distinct_map_filter)

lemma dir_ok_put [simp]: "dir_ok d \<Longrightarrow> dir_ok (put n x d)"
  using dir_ok_del [of d n] by (auto simp: dir_ok_def put_def del_def)

lemma contents_del: "n \<noteq> k \<Longrightarrow> contents (del k d) n = contents d n"
  by (simp add: contents_def map_of_del)

lemma contents_put: "contents (put k x d) n = (if n = k then (case x of File p \<Rightarrow> p | SubDir \<Rightarrow> []) else contents d n)"
  by (simp add: contents_def map_of_put split: node.splits)

text \<open>The names of the entries, in order.\<close>

definition names_of :: "directory \<Rightarrow> string list" where
  "names_of d = sort (map fst (filter (\<lambda>(n, x). \<not> (x = SubDir \<or> filepath_Ext n \<noteq> ext)) d))"

definition is_entry :: "directory \<Rightarrow> string \<Rightarrow> bool" where
  "is_entry d n \<longleftrightarrow> (\<exists>p. map_of d n = Some (File p)) \<and> filepath_Ext n = ext"

lemma files_names: "\<not> ft_readdir f \<Longrightarrow> files f (Some d) = Inr (names_of d)"
  by (simp add: files_def names_of_def)

lemma names_of_sorted [simp]: "sorted (names_of d)"
  by (simp add: names_of_def)

lemma names_of_distinct [simp]: "dir_ok d \<Longrightarrow> distinct (names_of d)"
  by (simp add: names_of_def dir_ok_def distinct_map_filter)

lemma set_names_of: "dir_ok d \<Longrightarrow> set (names_of d) = {n. is_entry d n}"
proof -
  assume "dir_ok d"
  then have m: "map_of d n = Some x \<longleftrightarrow> (n, x) \<in> set d" for n x
    by (simp add: dir_ok_def)
  have "n \<in> set (names_of d) \<longleftrightarrow> is_entry d n" for n
  proof -
    have "n \<in> set (names_of d) \<longleftrightarrow> (\<exists>x. (n, x) \<in> set d \<and> x \<noteq> SubDir \<and> filepath_Ext n = ext)"
      by (force simp: names_of_def)
    also have "\<dots> \<longleftrightarrow> is_entry d n"
      unfolding is_entry_def m by (metis node.exhaust node.distinct(1))
    finally show ?thesis .
  qed
  then show ?thesis by blast
qed

lemma names_of_unique:
  "dir_ok d \<Longrightarrow> sorted xs \<Longrightarrow> distinct xs \<Longrightarrow> set xs = {n. is_entry d n} \<Longrightarrow> names_of d = xs"
  by (intro sorted_distinct_set_unique) (simp_all add: set_names_of)

lemma names_of_del: "dir_ok d \<Longrightarrow> names_of (del n d) = filter (\<lambda>k. k \<noteq> n) (names_of d)"
  by (intro names_of_unique) (auto simp: set_names_of is_entry_def map_of_del sorted_filter [where f = id, simplified])

lemma names_of_put_new:
  "dir_ok d \<Longrightarrow> \<not> is_entry d n \<Longrightarrow> filepath_Ext n = ext \<Longrightarrow>
     names_of (put n (File p) d) = insort n (names_of d)"
  by (intro names_of_unique)
    (auto simp: set_names_of is_entry_def map_of_put sorted_insort set_insort_key distinct_insort)

lemma names_of_put_hidden:
  "dir_ok d \<Longrightarrow> filepath_Ext n \<noteq> ext \<Longrightarrow> names_of (put n x d) = names_of d"
  by (intro names_of_unique) (auto simp: set_names_of is_entry_def map_of_put)

lemma names_of_put_old:
  "dir_ok d \<Longrightarrow> is_entry d n \<Longrightarrow> names_of (put n (File p) d) = names_of d"
  by (intro names_of_unique) (auto simp: set_names_of is_entry_def map_of_put)

text \<open>Removing a set of names at once.\<close>

definition del_all :: "string set \<Rightarrow> directory \<Rightarrow> directory" where
  "del_all S d = filter (\<lambda>p. fst p \<notin> S) d"

lemma del_all_empty [simp]: "del_all {} d = d"
  by (simp add: del_all_def)

lemma del_all_del: "del_all S (del n d) = del_all (insert n S) d"
  unfolding del_all_def del_def filter_filter by (rule filter_cong) auto

lemma dir_ok_del_all [simp]: "dir_ok d \<Longrightarrow> dir_ok (del_all S d)"
  by (simp add: dir_ok_def del_all_def distinct_map_filter)

lemma map_of_del_all: "map_of (del_all S d) n = (if n \<in> S then None else map_of d n)"
  by (induction d) (auto simp: del_all_def)

lemma contents_del_all: "n \<notin> S \<Longrightarrow> contents (del_all S d) n = contents d n"
  by (simp add: contents_def map_of_del_all)

lemma names_of_del_all: "dir_ok d \<Longrightarrow> names_of (del_all S d) = filter (\<lambda>n. n \<notin> S) (names_of d)"
  by (intro names_of_unique)
    (auto simp: set_names_of is_entry_def map_of_del_all sorted_filter [where f = id, simplified])

section \<open>The queue\<close>

text \<open>The decodable entries of a list of names, and of the directory, oldest name first.\<close>

definition entries_in :: "directory \<Rightarrow> string list \<Rightarrow> Entry list" where
  "entries_in d ns = map (\<lambda>n. (n, the (unmarshal_bucket (contents d n))))
     (filter (\<lambda>n. unmarshal_bucket (contents d n) \<noteq> None) ns)"

definition queue_of :: "directory \<Rightarrow> Entry list" where
  "queue_of d = entries_in d (names_of d)"

lemma entries_in_simps [simp]:
  "entries_in d [] = []"
  "entries_in d (n # ns) = (case unmarshal_bucket (contents d n) of None \<Rightarrow> entries_in d ns
     | Some b \<Rightarrow> (n, b) # entries_in d ns)"
  "entries_in d (ns @ ms) = entries_in d ns @ entries_in d ms"
  by (auto simp: entries_in_def split: option.splits)

lemma entries_in_cong:
  "(\<And>n. n \<in> set ns \<Longrightarrow> contents d n = contents d' n) \<Longrightarrow> entries_in d ns = entries_in d' ns"
  by (induction ns) (auto split: option.splits)

lemma entries_in_names: "map fst (entries_in d ns) = filter (\<lambda>n. unmarshal_bucket (contents d n) \<noteq> None) ns"
  by (simp add: entries_in_def comp_def)

lemma entries_in_filter:
  "filter (\<lambda>e. fst e \<notin> S) (entries_in d ns) = entries_in d (filter (\<lambda>n. n \<notin> S) ns)"
  by (induction ns) (auto split: option.splits)

lemma distinct_queue: "dir_ok d \<Longrightarrow> distinct (map fst (queue_of d))"
  by (simp add: queue_of_def entries_in_names)

lemma queue_of_del_all:
  assumes "dir_ok d"
  shows "queue_of (del_all S d) = filter (\<lambda>e. fst e \<notin> S) (queue_of d)"
  using assms
  by (simp add: queue_of_def names_of_del_all entries_in_filter)
    (intro entries_in_cong, simp add: contents_del_all)

text \<open>What a round of reading removes are entries that cannot be decoded.\<close>

lemma peek_loop_removes:
  assumes "distinct names"
  shows "\<exists>S \<subseteq> set names. (\<forall>n\<in>S. unmarshal_bucket (contents d n) = None)
    \<and> fst (peek_loop f n names out d) = del_all S d"
  using assms
proof (induction names arbitrary: out d)
  case Nil
  then show ?case by (auto intro: exI [of _ "{}"])
next
  case (Cons nm names)
  have nm: "nm \<notin> set names" "distinct names" using Cons.prems by auto
  have lift: "\<exists>S \<subseteq> set (nm # names). (\<forall>n\<in>S. unmarshal_bucket (contents d n) = None) \<and> x = del_all S d"
    if "\<exists>S \<subseteq> set names. (\<forall>n\<in>S. unmarshal_bucket (contents d n) = None) \<and> x = del_all S d" for x
    using that by (auto intro: subset_insertI2)
  show ?case
  proof (cases "int (length out) = n \<or> ft_read f nm")
    case True
    then show ?thesis by (intro exI [of _ "{}"]) auto
  next
    case go: False
    show ?thesis
    proof (cases "unmarshal_bucket (contents d nm)")
      case (Some b)
      then show ?thesis using go lift [OF Cons.IH [OF nm(2), of d "out @ [(nm, b)]"]] by simp
    next
      case bad: None
      show ?thesis
      proof (cases "ft_remove f nm")
        case True
        then show ?thesis using go bad lift [OF Cons.IH [OF nm(2), of d out]] by simp
      next
        case False
        obtain S where S: "S \<subseteq> set names" "\<forall>n\<in>S. unmarshal_bucket (contents (del nm d) n) = None"
          "fst (peek_loop f n names out (del nm d)) = del_all S (del nm d)"
          using Cons.IH [OF nm(2), of "del nm d" out] by blast
        have "contents (del nm d) k = contents d k" if "k \<in> S" for k
          using that S(1) nm(1) by (auto intro: contents_del)
        with S bad go False show ?thesis
          by (intro exI [of _ "insert nm S"]) (auto simp: del_all_del)
      qed
    qed
  qed
qed

lemma peek_loop_result:
  assumes "distinct names" and "int (length out) \<le> n"
    and "snd (peek_loop f n names out d) = Inr es"
  shows "es = out @ take (nat n - length out) (entries_in d names)"
  using assms
proof (induction names arbitrary: out d)
  case Nil
  then show ?case by simp
next
  case (Cons nm names)
  have nm: "nm \<notin> set names" "distinct names" using Cons.prems by auto
  show ?case
  proof (cases "int (length out) = n")
    case True
    then show ?thesis using Cons.prems(3) by auto
  next
    case False
    with Cons.prems(2) have less: "int (length (out @ [x])) \<le> n" for x by simp
    from False Cons.prems(3) have r: "\<not> ft_read f nm" by auto
    show ?thesis
    proof (cases "unmarshal_bucket (contents d nm)")
      case (Some b)
      have "es = (out @ [(nm, b)]) @ take (nat n - length (out @ [(nm, b)])) (entries_in d names)"
        using Cons.prems(3) r False Some by (intro Cons.IH [OF nm(2) less]) simp
      moreover have "nat n - length out = Suc (nat n - length (out @ [(nm, b)]))"
        using less [of "(nm, b)"] by simp
      ultimately show ?thesis using Some by simp
    next
      case None
      let ?d = "if ft_remove f nm then d else del nm d"
      have "es = out @ take (nat n - length out) (entries_in ?d names)"
        using Cons.prems(3) r False None by (intro Cons.IH [OF nm(2) Cons.prems(2)]) simp
      moreover have "entries_in ?d names = entries_in d names"
        using nm(1) by (intro entries_in_cong) (auto intro!: contents_del)
      ultimately show ?thesis using None by simp
    qed
  qed
qed

lemma peek_loop_no_error:
  "\<forall>nm. \<not> ft_read f nm \<Longrightarrow> \<exists>es. snd (peek_loop f n names out d) = Inr es"
  by (induction names arbitrary: out d) (auto split: option.splits)

lemma peek_loop_no_panic: "snd (peek_loop f n names out d) \<noteq> Inl MakePanic"
  by (induction names arbitrary: out d) (auto split: option.splits)

lemma Peek_no_panic: "0 \<le> n \<Longrightarrow> snd (Peek f n disk) \<noteq> Inl MakePanic"
  using peek_loop_no_panic by (auto simp: Peek_def files_def split: option.splits)

lemma Peek_queue:
  assumes "dir_ok d" and "0 \<le> n"
  shows "\<exists>d'. fst (Peek f n (Some d)) = Some d' \<and> dir_ok d' \<and> queue_of d' = queue_of d
     \<and> (\<forall>es. snd (Peek f n (Some d)) = Inr es \<longrightarrow> es = take (nat n) (queue_of d))
     \<and> (\<not> ft_readdir f \<and> (\<forall>nm. \<not> ft_read f nm) \<longrightarrow> (\<exists>es. snd (Peek f n (Some d)) = Inr es))"
proof (cases "ft_readdir f")
  case True
  then show ?thesis using assms(1) by (simp add: Peek_def files_def)
next
  case False
  have p: "Peek f n (Some d) = apfst Some (peek_loop f n (names_of d) [] d)"
    using False assms(2) by (simp add: Peek_def files_names)
  obtain S where S: "\<forall>n\<in>S. unmarshal_bucket (contents d n) = None"
    "fst (peek_loop f n (names_of d) [] d) = del_all S d"
    using peek_loop_removes [OF names_of_distinct [OF assms(1)], of d f n "[]"] by blast
  have "queue_of (del_all S d) = queue_of d"
    using S(1) by (simp add: queue_of_del_all [OF assms(1)] filter_id_conv)
      (auto simp: queue_of_def entries_in_def)
  then show ?thesis
    using S(2) assms p peek_loop_result [OF names_of_distinct [OF assms(1)], of "[]" n f d]
      peek_loop_no_error [of f n "names_of d" "[]" d]
    by (auto simp: queue_of_def)
qed

text \<open>
  C35.  Reading up to \<open>n\<close> windows returns exactly the \<open>n\<close> oldest that decode, oldest first, whatever
  undecodable files are queued among them.  Whether it succeeds or fails it never removes a
  decodable window, and it fails only when listing the directory or reading a file fails.
\<close>

theorem Peek_oldest:
  assumes "dir_ok d" and "0 \<le> n"
  shows "\<exists>d'. fst (Peek f n (Some d)) = Some d' \<and> dir_ok d' \<and> queue_of d' = queue_of d
     \<and> (\<forall>es. snd (Peek f n (Some d)) = Inr es \<longrightarrow> es = take (nat n) (queue_of d))
     \<and> (\<not> ft_readdir f \<and> (\<forall>nm. \<not> ft_read f nm) \<longrightarrow> (\<exists>es. snd (Peek f n (Some d)) = Inr es))"
  using assms by (rule Peek_queue)

text \<open>A directory with a good entry, a corrupt one that sorts first, and a left-over temporary file.\<close>

definition example_dir :: directory where
  "example_dir = [(''b.json'', File ''{}''), (''a.json'', File ''{''), (''tmp-1'', File ''{}'')]"

lemma example_dir_facts:
  "dir_ok example_dir" "names_of example_dir = [''a.json'', ''b.json'']"
  "queue_of example_dir = [(''b.json'', new_bucket 0 0)]"
proof -
  have ext: "filepath_Ext ''a.json'' = ext" "filepath_Ext ''b.json'' = ext" "filepath_Ext ''tmp-1'' \<noteq> ext"
    by code_simp+
  have dec: "unmarshal_bucket ''{'' = None" "unmarshal_bucket ''{}'' = Some (new_bucket 0 0)"
    by code_simp+
  show ok: "dir_ok example_dir" by (simp add: dir_ok_def example_dir_def)
  show n: "names_of example_dir = [''a.json'', ''b.json'']"
    by (simp add: names_of_def example_dir_def ext less_eq_char_def)
  show "queue_of example_dir = [(''b.json'', new_bucket 0 0)]"
    unfolding queue_of_def n by (simp add: contents_def example_dir_def dec)
qed

theorem Peek_oldest_witness:
  "\<exists>es. snd (Peek (no_faults ''1'') 5 (Some example_dir)) = Inr es \<and> map fst es = [''b.json'']"
  using Peek_oldest [of example_dir 5 "no_faults ''1''"]
  by (auto simp: example_dir_facts no_faults_def)

lemma peek_loop_drops_corrupt:
  assumes "distinct names" and "\<forall>nm. \<not> ft_read f nm" and "\<forall>nm. \<not> ft_remove f nm"
    and "int (length out + length (entries_in d names)) < n"
  shows "fst (peek_loop f n names out d)
    = del_all (set (filter (\<lambda>nm. unmarshal_bucket (contents d nm) = None) names)) d"
  using assms
proof (induction names arbitrary: out d)
  case Nil
  then show ?case by simp
next
  case (Cons nm names)
  have nm: "nm \<notin> set names" "distinct names" using Cons.prems by auto
  show ?case
  proof (cases "unmarshal_bucket (contents d nm)")
    case (Some b)
    with Cons.prems(4) have "int (length (out @ [(nm, b)]) + length (entries_in d names)) < n" by simp
    from Cons.IH [OF nm(2) Cons.prems(2,3) this] Some Cons.prems show ?thesis by simp
  next
    case None
    have same: "contents (del nm d) k = contents d k" if "k \<in> set names" for k
      using that nm(1) by (auto intro!: contents_del)
    then have e: "entries_in (del nm d) names = entries_in d names" by (rule entries_in_cong)
    have f: "filter (\<lambda>x. unmarshal_bucket (contents (del nm d) x) = None) names
        = filter (\<lambda>x. unmarshal_bucket (contents d x) = None) names"
      using same by (intro filter_cong) auto
    have "int (length out + length (entries_in (del nm d) names)) < n"
      using None Cons.prems(4) by (simp add: e)
    note IH = Cons.IH [OF nm(2) Cons.prems(2,3) this]
    have "int (length out) \<noteq> n" using Cons.prems(4) by simp
    with None Cons.prems(2,3) have "peek_loop f n (nm # names) out d = peek_loop f n names out (del nm d)"
      by simp
    with IH None show ?thesis by (simp only: f del_all_del) simp
  qed
qed

text \<open>
  A corrupt file cannot block what is queued behind it: a read that asks for more windows than
  there are returns them all and leaves only the entries that decode.
\<close>

theorem Peek_drops_corrupt:
  assumes "dir_ok d" and "int (length (queue_of d)) < n" and "\<not> ft_readdir f"
    and "\<forall>nm. \<not> ft_read f nm" and "\<forall>nm. \<not> ft_remove f nm"
  shows "\<exists>d'. Peek f n (Some d) = (Some d', Inr (queue_of d)) \<and> names_of d' = map fst (queue_of d)"
proof -
  let ?bad = "set (filter (\<lambda>nm. unmarshal_bucket (contents d nm) = None) (names_of d))"
  have n: "0 \<le> n" using assms(2) by simp
  have p: "Peek f n (Some d) = apfst Some (peek_loop f n (names_of d) [] d)"
    using assms(3) n by (simp add: Peek_def files_names)
  have "fst (peek_loop f n (names_of d) [] d) = del_all ?bad d"
    using assms(1,2,4,5) by (intro peek_loop_drops_corrupt) (simp_all add: queue_of_def)
  moreover obtain es where es: "snd (peek_loop f n (names_of d) [] d) = Inr es"
    using peek_loop_no_error [OF assms(4)] by blast
  moreover have "es = queue_of d"
    using peek_loop_result [OF names_of_distinct [OF assms(1)] _ es] n assms(2)
    by (simp add: queue_of_def)
  ultimately have "Peek f n (Some d) = (Some (del_all ?bad d), Inr (queue_of d))"
    unfolding p by (cases "peek_loop f n (names_of d) [] d") simp
  moreover have "names_of (del_all ?bad d) = map fst (queue_of d)"
    unfolding names_of_del_all [OF assms(1)] queue_of_def entries_in_names
    by (intro filter_cong) auto
  ultimately show ?thesis by blast
qed

theorem Peek_drops_corrupt_witness:
  "\<exists>d'. Peek (no_faults ''1'') 5 (Some example_dir) = (Some d', Inr [(''b.json'', new_bucket 0 0)])
     \<and> names_of d' = [''b.json'']"
  using Peek_drops_corrupt [of example_dir 5 "no_faults ''1''"]
  by (simp add: example_dir_facts no_faults_def)

section \<open>Acknowledged windows\<close>

lemma discard_loop_removes:
  "\<exists>k. k \<le> length es \<and> fst (discard_loop f es d) = del_all (fst ` set (take k es)) d
     \<and> (snd (discard_loop f es d) = None \<longleftrightarrow> k = length es)"
proof (induction es arbitrary: d)
  case Nil
  then show ?case by simp
next
  case (Cons e es)
  show ?case
  proof (cases "ft_remove f (fst e)")
    case True
    then show ?thesis by (intro exI [of _ 0]) simp
  next
    case False
    obtain k where "k \<le> length es"
      "fst (discard_loop f es (del (fst e) d)) = del_all (fst ` set (take k es)) (del (fst e) d)"
      "snd (discard_loop f es (del (fst e) d)) = None \<longleftrightarrow> k = length es"
      using Cons.IH [of "del (fst e) d"] by (elim exE conjE)
    with False show ?thesis by (intro exI [of _ "Suc k"]) (simp add: del_all_del)
  qed
qed

lemma discard_loop_no_error: "\<forall>nm. \<not> ft_remove f nm \<Longrightarrow> snd (discard_loop f es d) = None"
  by (induction es arbitrary: d) auto

lemma filter_prefix:
  assumes "distinct (map fst q)"
  shows "filter (\<lambda>e. fst e \<notin> fst ` set (take k q)) q = drop k q"
proof -
  have "map fst (filter (\<lambda>e. fst e \<notin> set (take k (map fst q))) q) = filter (\<lambda>n. n \<notin> set (take k (map fst q))) (map fst q)"
    by (simp add: filter_map comp_def)
  also have "\<dots> = drop k (map fst q)" using assms by (rule distinct_filter_take)
  finally have m: "map fst (filter (\<lambda>e. fst e \<notin> set (take k (map fst q))) q) = map fst (drop k q)"
    by (simp add: drop_map)
  have "inj_on fst (set q)" using assms by (simp add: distinct_map)
  then have "inj_on fst (set (filter (\<lambda>e. fst e \<notin> set (take k (map fst q))) q) \<union> set (drop k q))"
    by (rule inj_on_subset) (auto dest: in_set_dropD)
  with m have "filter (\<lambda>e. fst e \<notin> set (take k (map fst q))) q = drop k q"
    by (rule map_inj_on)
  then show ?thesis by (simp add: take_map)
qed

lemma Discard_take:
  assumes "dir_ok d" and "es = take n (queue_of d)"
  shows "\<exists>d' k. fst (Discard f es (Some d)) = Some d' \<and> dir_ok d' \<and> k \<le> length es
     \<and> queue_of d' = drop k (queue_of d) \<and> (snd (Discard f es (Some d)) = None \<longleftrightarrow> k = length es)"
proof -
  obtain k where k: "k \<le> length es" "fst (discard_loop f es d) = del_all (fst ` set (take k es)) d"
    "snd (discard_loop f es d) = None \<longleftrightarrow> k = length es" using discard_loop_removes by blast
  have t: "take k es = take k (queue_of d)" using k(1) by (simp add: assms(2) min_absorb1)
  have "queue_of (del_all (fst ` set (take k es)) d) = drop k (queue_of d)"
    unfolding queue_of_del_all [OF assms(1)] t by (rule filter_prefix [OF distinct_queue [OF assms(1)]])
  with k assms(1) show ?thesis
    by (intro exI [of _ "del_all (fst ` set (take k es)) d"] exI [of _ k]) (simp add: Discard_def)
qed

text \<open>
  Discarding a batch that was read removes a prefix of the queue and nothing else: the whole
  batch when it succeeds, and when a removal fails only windows of the batch, oldest first.
\<close>

theorem Discard_prefix:
  assumes "dir_ok d" and "es = take n (queue_of d)"
  shows "\<exists>d' k. fst (Discard f es (Some d)) = Some d' \<and> dir_ok d' \<and> k \<le> length es
     \<and> queue_of d' = drop k (queue_of d) \<and> (snd (Discard f es (Some d)) = None \<longleftrightarrow> k = length es)"
  using assms by (rule Discard_take)

theorem Discard_prefix_witness:
  "\<exists>d'. fst (Discard (no_faults ''1'') [(''b.json'', new_bucket 0 0)] (Some example_dir)) = Some d'
     \<and> queue_of d' = []"
proof -
  have "snd (Discard (no_faults ''1'') [(''b.json'', new_bucket 0 0)] (Some example_dir)) = None"
    by (simp add: Discard_def no_faults_def)
  then show ?thesis
    using Discard_prefix [of example_dir "[(''b.json'', new_bucket 0 0)]" 1 "no_faults ''1''"]
    by (auto simp: example_dir_facts)
qed

section \<open>The contract of a queue\<close>

text \<open>
  What the upload loop relies on: reading does not change the queue and returns a prefix of it, and
  discarding what was read removes it.
\<close>

locale window_queue =
  fixes ok :: "'s \<Rightarrow> bool" and entries :: "'s \<Rightarrow> ('n \<times> 'b) list"
    and peek :: "nat \<Rightarrow> 's \<Rightarrow> 's \<times> ('n \<times> 'b) list" and discard :: "('n \<times> 'b) list \<Rightarrow> 's \<Rightarrow> 's"
  assumes peek_entries: "ok s \<Longrightarrow> ok (fst (peek n s)) \<and> entries (fst (peek n s)) = entries s"
    and peek_prefix: "ok s \<Longrightarrow> snd (peek n s) = take n (entries s)"
    and discard_prefix: "ok s \<Longrightarrow> ok (discard (take n (entries s)) s)
      \<and> entries (discard (take n (entries s)) s) = drop n (entries s)"
begin

lemma round_entries:
  assumes "ok s"
  shows "ok (discard (snd (peek n s)) (fst (peek n s)))
    \<and> entries (discard (snd (peek n s)) (fst (peek n s))) = drop n (entries s)"
proof -
  have p: "ok (fst (peek n s))" "entries (fst (peek n s)) = entries s"
    using peek_entries [OF assms] by auto
  show ?thesis unfolding peek_prefix [OF assms] using discard_prefix [OF p(1), of n] p(2) by simp
qed

end

text \<open>Reading and discarding \<open>k\<close> batches; what was delivered, and what is left.\<close>

fun drain :: "(nat \<Rightarrow> 's \<Rightarrow> 's \<times> 'e list) \<Rightarrow> ('e list \<Rightarrow> 's \<Rightarrow> 's) \<Rightarrow> nat \<Rightarrow> nat \<Rightarrow> 's \<Rightarrow> 's \<times> 'e list" where
  "drain peek discard n 0 s = (s, [])"
| "drain peek discard n (Suc k) s = (let (s1, es) = peek n s; (s2, rest) = drain peek discard n k (discard es s1)
     in (s2, es @ rest))"

context window_queue begin

lemma drain_prefix:
  assumes "ok s"
  shows "entries (fst (drain peek discard n k s)) = drop (k * n) (entries s)
    \<and> snd (drain peek discard n k s) = take (k * n) (entries s)"
  using assms
proof (induction k arbitrary: s)
  case 0
  then show ?case by simp
next
  case (Suc k)
  note r = round_entries [OF Suc.prems, of n]
  from Suc.IH [OF conjunct1 [OF r]] show ?case
    by (simp add: case_prod_beta peek_prefix [OF Suc.prems] conjunct2 [OF r, simplified peek_prefix [OF Suc.prems]]
        take_add add.commute)
qed

end

text \<open>The spool without failing system calls, as such a queue.\<close>

definition quiet_peek :: "nat \<Rightarrow> directory \<Rightarrow> directory \<times> Entry list" where
  "quiet_peek n d = (case Peek (no_faults []) (int n) (Some d) of
     (Some d', Inr es) \<Rightarrow> (d', es) | _ \<Rightarrow> (d, []))"

definition quiet_discard :: "Entry list \<Rightarrow> directory \<Rightarrow> directory" where
  "quiet_discard es d = (case Discard (no_faults []) es (Some d) of (Some d', _) \<Rightarrow> d' | _ \<Rightarrow> d)"

lemma quiet_peek_spec:
  assumes "dir_ok d"
  shows "dir_ok (fst (quiet_peek n d)) \<and> queue_of (fst (quiet_peek n d)) = queue_of d
    \<and> snd (quiet_peek n d) = take n (queue_of d)"
proof -
  obtain d' es where p: "fst (Peek (no_faults []) (int n) (Some d)) = Some d'" "dir_ok d'"
    "queue_of d' = queue_of d" "snd (Peek (no_faults []) (int n) (Some d)) = Inr es"
    "es = take n (queue_of d)"
    using Peek_queue [OF assms, of "int n" "no_faults []"] by (auto simp: no_faults_def)
  then have "Peek (no_faults []) (int n) (Some d) = (Some d', Inr es)" by (simp add: prod_eq_iff)
  then have "quiet_peek n d = (d', es)" by (simp add: quiet_peek_def)
  with p show ?thesis by simp
qed

lemma quiet_discard_spec:
  assumes "dir_ok d"
  shows "dir_ok (quiet_discard (take n (queue_of d)) d)
    \<and> queue_of (quiet_discard (take n (queue_of d)) d) = drop n (queue_of d)"
proof -
  let ?es = "take n (queue_of d)"
  have r: "snd (discard_loop (no_faults []) ?es d) = None"
    by (rule discard_loop_no_error) (simp add: no_faults_def)
  moreover obtain k where "fst (discard_loop (no_faults []) ?es d) = del_all (fst ` set (take k ?es)) d"
    "snd (discard_loop (no_faults []) ?es d) = None \<longleftrightarrow> k = length ?es"
    using discard_loop_removes by blast
  ultimately have "fst (discard_loop (no_faults []) ?es d) = del_all (fst ` set ?es) d"
    by (simp only: take_all order_refl simp_thms)
  then have "quiet_discard ?es d = del_all (fst ` set ?es) d"
    using r by (cases "discard_loop (no_faults []) ?es d") (simp add: quiet_discard_def Discard_def)
  then show ?thesis
    using assms filter_prefix [OF distinct_queue [OF assms], of n] by (simp add: queue_of_del_all)
qed

interpretation spool_q: window_queue dir_ok queue_of quiet_peek quiet_discard
  by unfold_locales (use quiet_peek_spec quiet_discard_spec in blast)+

text \<open>
  Reading and acknowledging batch after batch delivers the queue in order, every window exactly
  once, and leaves exactly the windows not yet delivered.
\<close>

theorem spool_delivers_in_order:
  assumes "dir_ok d"
  shows "snd (drain quiet_peek quiet_discard n k d) = take (k * n) (queue_of d)
     \<and> queue_of (fst (drain quiet_peek quiet_discard n k d)) = drop (k * n) (queue_of d)"
  using spool_q.drain_prefix [OF assms] by blast

theorem spool_delivers_in_order_witness:
  "snd (drain quiet_peek quiet_discard 1 2 example_dir) = [(''b.json'', new_bucket 0 0)]"
  using spool_delivers_in_order [of example_dir 1 2] by (simp add: example_dir_facts)

section \<open>Atomic publication\<close>

text \<open>What the other operations see of a directory: the entries and their contents, in order.\<close>

definition view :: "directory \<Rightarrow> (string \<times> string) list" where
  "view d = map (\<lambda>n. (n, contents d n)) (names_of d)"

text \<open>The queue as a function of what is visible of the directory.\<close>

definition decoded :: "(string \<times> string) list \<Rightarrow> Entry list" where
  "decoded v = List.map_filter (\<lambda>(n, p). map_option (Pair n) (unmarshal_bucket p)) v"

lemma decoded_simps [simp]:
  "decoded [] = []" "decoded (u @ v) = decoded u @ decoded v"
  "decoded ((n, p) # v) = (case unmarshal_bucket p of None \<Rightarrow> decoded v | Some b \<Rightarrow> (n, b) # decoded v)"
  by (auto simp: decoded_def map_filter_def split: option.splits)

lemma queue_decoded: "queue_of d = decoded (view d)"
proof -
  have "entries_in d ns = decoded (map (\<lambda>n. (n, contents d n)) ns)" for ns
    by (induction ns) (auto split: option.splits)
  then show ?thesis by (simp add: queue_of_def view_def)
qed

lemma decoded_drop: "\<exists>j \<le> length (decoded v). decoded (drop k v) = drop j (decoded v) \<and> (k = 0 \<longrightarrow> j = 0)"
proof -
  have "decoded v = decoded (take k v) @ decoded (drop k v)" by (metis append_take_drop_id decoded_simps(2))
  then show ?thesis by (intro exI [of _ "length (decoded (take k v))"]) auto
qed

definition same_entries :: "directory \<Rightarrow> directory \<Rightarrow> bool" where
  "same_entries d d' \<longleftrightarrow> (\<forall>n. filepath_Ext n = ext \<longrightarrow> map_of d n = map_of d' n)"

lemma same_entries_refl [simp]: "same_entries d d"
  by (simp add: same_entries_def)

lemma view_same:
  assumes "dir_ok d" "dir_ok d'" "same_entries d d'"
  shows "view d = view d'"
proof -
  have "is_entry d n = is_entry d' n" for n
    using assms(3) by (auto simp: is_entry_def same_entries_def)
  then have n: "names_of d = names_of d'"
    using assms(1,2) by (intro names_of_unique) (simp_all add: set_names_of)
  have "contents d n = contents d' n" if "n \<in> set (names_of d')" for n
    using that assms(2,3) by (auto simp: set_names_of is_entry_def same_entries_def contents_def)
  then show ?thesis by (simp add: view_def n)
qed

lemma same_entries_hidden:
  assumes "filepath_Ext tmp \<noteq> ext"
  shows "same_entries (put tmp x d) d' \<longleftrightarrow> same_entries d d'"
    and "same_entries (del tmp d) d' \<longleftrightarrow> same_entries d d'"
  using assms by (auto simp: same_entries_def map_of_put map_of_del)

lemma same_entries_put:
  "same_entries d d' \<Longrightarrow> same_entries (put n x d) (put n x d')"
  by (auto simp: same_entries_def map_of_put)

text \<open>The names \<open>CreateTemp\<close> makes have no extension, so listing the directory skips them.\<close>

lemma tmp_hidden: "list_all is_digit s \<Longrightarrow> filepath_Ext (''tmp-'' @ s) \<noteq> ext"
proof -
  assume "list_all is_digit s"
  then have "CHR ''.'' \<notin> set s" by (auto simp: list_all_iff is_digit_def)
  then show ?thesis by (simp add: filepath_Ext_def ext_def)
qed

lemma spool_write_result:
  assumes "dir_ok d" and "filepath_Ext final = ext" and "list_all is_digit (ft_suffix f)"
    and "spool_write f final payload d = (ds, r)"
  shows "ds \<noteq> [] \<and> (\<forall>d'\<in>set ds. dir_ok d' \<and> (same_entries d' d \<or> r = None \<and> same_entries d' (put final (File payload) d)))
    \<and> same_entries (last ds) (if r = None then put final (File payload) d else d)"
proof -
  let ?tmp = "''tmp-'' @ ft_suffix f"
  have h: "filepath_Ext ?tmp \<noteq> ext" using assms(3) by (rule tmp_hidden)
  note hs = same_entries_hidden [OF h, unfolded append_Cons append_Nil]
  have ok: "dir_ok (put n x (put m y d))" "dir_ok (del n (put m x (put k y d)))" "dir_ok (put m y d)"
    "dir_ok (put n x (del m (put k y (put l z d))))" "dir_ok (del v (put n x (del m (put k y (put l z d)))))"
    for n x m y k l z v
    using assms(1) by simp_all
  have "same_entries (put final (File payload) (del ?tmp (put ?tmp y (put ?tmp z d)))) (put final (File payload) d)" for y z
    by (intro same_entries_put) (simp add: hs)
  then show ?thesis
    using assms(1,4) by (auto simp: spool_write_def Let_def hs ok split: if_splits option.splits)
qed

lemma spool_write_atomic_aux:
  assumes "dir_ok d" and "filepath_Ext final = ext" and "list_all is_digit (ft_suffix f)"
    and "spool_write f final payload d = (ds, r)"
  shows "(\<forall>d'\<in>set ds. view d' = view d \<or> r = None \<and> view d' = view (put final (File payload) d))
     \<and> view (last ds) = (if r = None then view (put final (File payload) d) else view d)"
proof -
  note w = spool_write_result [OF assms]
  have p: "dir_ok (put final (File payload) d)" using assms(1) by simp
  have "view d' = view d \<or> r = None \<and> view d' = view (put final (File payload) d)" if "d' \<in> set ds" for d'
  proof -
    have ok: "dir_ok d'" and se: "same_entries d' d \<or> r = None \<and> same_entries d' (put final (File payload) d)"
      using w that by simp_all
    from se show ?thesis using view_same [OF ok assms(1)] view_same [OF ok p] by auto
  qed
  moreover have "dir_ok (last ds)" using w by auto
  then have "view (last ds) = (if r = None then view (put final (File payload) d) else view d)"
    using conjunct2 [OF conjunct2 [OF w]] view_same [OF _ assms(1)] view_same [OF _ p]
    by (cases "r = None") auto
  ultimately show ?thesis by simp
qed

text \<open>
  C14.  Publishing a window is atomic: after every single system call, so wherever a crash hits, the
  entries seen by a reader are the old ones or, once the rename is done, the old ones with the whole
  new window, and a write that fails leaves them as they were.
\<close>

theorem spool_write_atomic:
  assumes "dir_ok d" and "filepath_Ext final = ext" and "list_all is_digit (ft_suffix f)"
    and "spool_write f final payload d = (ds, r)"
  shows "(\<forall>d'\<in>set ds. view d' = view d \<or> r = None \<and> view d' = view (put final (File payload) d))
     \<and> view (last ds) = (if r = None then view (put final (File payload) d) else view d)"
  using assms by (rule spool_write_atomic_aux)

theorem spool_write_atomic_witness:
  "\<exists>ds. spool_write (no_faults ''7'') ''c.json'' ''{}'' example_dir = (ds, None) \<and> length ds = 4
     \<and> view (last ds) = view (put ''c.json'' (File ''{}'') example_dir)"
proof -
  have "filepath_Ext ''c.json'' = ext" by code_simp
  moreover obtain ds where ds: "spool_write (no_faults ''7'') ''c.json'' ''{}'' example_dir = (ds, None)" "length ds = 4"
    by (simp add: spool_write_def no_faults_def example_dir_def put_def del_def Let_def)
  moreover have "list_all is_digit (ft_suffix (no_faults ''7''))" by (simp add: no_faults_def is_digit_def)
  ultimately show ?thesis
    using spool_write_atomic [of example_dir "''c.json''" "no_faults ''7''" "''{}''" ds None]
    by (auto simp: example_dir_facts)
qed

section \<open>The cap\<close>

definition bytes_in :: "directory \<Rightarrow> string list \<Rightarrow> int" where
  "bytes_in d ns = sum_list (map (\<lambda>n. int (length (contents d n))) ns)"

lemma cap_loop_result:
  assumes "\<forall>n. \<not> ft_remove f n" and "\<forall>n\<in>set names. map_of sizes n = Some (int (length (contents d0 n)))"
    and "tot = bytes_in d0 names"
  shows "\<exists>k. cap_loop f cap sizes names tot dropped d = (del_all (set (take k names)) d, Inr (dropped + k))
    \<and> k \<le> length names
    \<and> (bytes_in d0 (drop k names) \<le> cap \<or> length (drop k names) \<le> 1)
    \<and> (\<forall>j<k. cap < bytes_in d0 (drop j names) \<and> 1 < length (drop j names))"
  using assms
proof (induction names arbitrary: tot dropped d)
  case Nil
  then show ?case by (intro exI [of _ 0]) simp
next
  case (Cons n names)
  show ?case
  proof (cases "tot \<le> cap \<or> names = []")
    case True
    with Cons.prems(3) show ?thesis by (intro exI [of _ 0]) auto
  next
    case False
    have "tot - int (length (contents d0 n)) = bytes_in d0 names"
      using Cons.prems(3) by (simp add: bytes_in_def)
    moreover have "\<forall>n\<in>set names. map_of sizes n = Some (int (length (contents d0 n)))"
      using Cons.prems(2) by simp
    ultimately obtain k where k: "cap_loop f cap sizes names (tot - int (length (contents d0 n))) (dropped + 1) (del n d)
        = (del_all (set (take k names)) (del n d), Inr (dropped + 1 + k))"
      "k \<le> length names" "bytes_in d0 (drop k names) \<le> cap \<or> length (drop k names) \<le> 1"
      "\<forall>j<k. cap < bytes_in d0 (drop j names) \<and> 1 < length (drop j names)"
      using Cons.IH [OF Cons.prems(1)] by blast
    have "\<forall>j<Suc k. cap < bytes_in d0 (drop j (n # names)) \<and> 1 < length (drop j (n # names))"
    proof (intro allI impI)
      fix j assume "j < Suc k"
      then show "cap < bytes_in d0 (drop j (n # names)) \<and> 1 < length (drop j (n # names))"
        using k(4) False Cons.prems(3) by (cases j) auto
    qed
    with k False Cons.prems(1,2) show ?thesis
      by (intro exI [of _ "Suc k"]) (simp add: del_all_del)
  qed
qed

definition quiet :: "faults \<Rightarrow> bool" where
  "quiet f \<longleftrightarrow> list_all is_digit (ft_suffix f) \<and> f = no_faults (ft_suffix f)"

lemma quiet_simps:
  assumes "quiet f"
  shows "\<not> ft_mkdir f" "\<not> ft_create f" "ft_write f = None" "\<not> ft_sync f" "\<not> ft_close f" "\<not> ft_chmod f"
    "\<not> ft_rename f" "\<not> ft_cleanup f" "\<not> ft_readdir f" "\<not> ft_read f n" "\<not> ft_remove f n" "ft_stat f n = StatOk"
    "list_all is_digit (ft_suffix f)"
proof -
  obtain x where f: "f = no_faults x" "list_all is_digit x" using assms by (auto simp: quiet_def)
  then show "\<not> ft_mkdir f" "\<not> ft_create f" "ft_write f = None" "\<not> ft_sync f" "\<not> ft_close f" "\<not> ft_chmod f"
    "\<not> ft_rename f" "\<not> ft_cleanup f" "\<not> ft_readdir f" "\<not> ft_read f n" "\<not> ft_remove f n" "ft_stat f n = StatOk"
    "list_all is_digit (ft_suffix f)"
    by (simp_all add: no_faults_def)
qed

lemma map_of_cap_sizes: "\<forall>n. ft_stat f n = StatOk \<Longrightarrow> n \<in> set names \<Longrightarrow>
    map_of (cap_sizes f d names) n = Some (int (length (contents d n)))"
  by (simp add: cap_sizes_def map_of_map_restrict)

text \<open>The shape of what the cap leaves: a suffix of the names, minimal to drop.\<close>

definition within_cap :: "int \<Rightarrow> directory \<Rightarrow> nat \<Rightarrow> bool" where
  "within_cap cap d k \<longleftrightarrow> k \<le> length (names_of d)
     \<and> (bytes_in d (drop k (names_of d)) \<le> cap \<or> length (drop k (names_of d)) \<le> 1)
     \<and> (\<forall>j<k. cap < bytes_in d (drop j (names_of d)) \<and> 1 < length (drop j (names_of d)))"

lemma enforceCap_drops:
  assumes "dir_ok d" and "quiet f"
  shows "\<exists>k. enforceCap f s (Some d) = (Some (del_all (set (take k (names_of d))) d), None,
       if 0 < k \<and> sp_OnDrop s then [k] else []) \<and> within_cap (maxBytes s) d k"
proof -
  note q = quiet_simps [OF assms(2)]
  have "sum_list (map snd (cap_sizes f d (names_of d))) = bytes_in d (names_of d)"
    by (simp add: cap_sizes_def bytes_in_def q comp_def)
  then obtain k where "cap_loop f (maxBytes s) (cap_sizes f d (names_of d)) (names_of d)
      (sum_list (map snd (cap_sizes f d (names_of d)))) 0 d = (del_all (set (take k (names_of d))) d, Inr k)"
    "within_cap (maxBytes s) d k"
    using cap_loop_result [of f "names_of d" "cap_sizes f d (names_of d)" d _ "maxBytes s" 0 d] q(11,12)
    by (auto simp: within_cap_def map_of_cap_sizes)
  then show ?thesis
    using q(9) by (intro exI [of _ k]) (simp add: enforceCap_def files_names Let_def)
qed

lemma names_of_del_take:
  "dir_ok d \<Longrightarrow> names_of (del_all (set (take k (names_of d))) d) = drop k (names_of d)"
  by (simp add: names_of_del_all distinct_filter_take)

lemma view_del_take:
  assumes "dir_ok d"
  shows "view (del_all (set (take k (names_of d))) d) = drop k (view d)"
proof -
  have "contents (del_all (set (take k (names_of d))) d) n = contents d n" if "n \<in> set (drop k (names_of d))" for n
    using that set_take_disj_set_drop_if_distinct [OF names_of_distinct [OF assms], of k k]
    by (intro contents_del_all) auto
  then show ?thesis by (simp add: view_def names_of_del_take [OF assms] drop_map)
qed

text \<open>
  C22.  Enforcing the cap removes the oldest entries only, as few as possible: afterwards the rest
  fits the cap or is the single newest entry, every shorter cut would still exceed the cap, the
  contents of the rest are untouched, and the callback hears of exactly the number removed.  The newest
  entry always stays: a spool that was not empty is not emptied, however small the cap is.
\<close>

theorem enforceCap_minimal:
  assumes "dir_ok d" and "quiet f" and "enforceCap f s (Some d) = (disk', err, calls)"
  shows "\<exists>d' k. disk' = Some d' \<and> err = None \<and> calls = (if 0 < k \<and> sp_OnDrop s then [k] else [])
     \<and> view d' = drop k (view d)
     \<and> (sum_list (map (\<lambda>e. int (length (snd e))) (view d')) \<le> maxBytes s \<or> length (view d') \<le> 1)
     \<and> (view d \<noteq> [] \<longrightarrow> view d' \<noteq> [] \<and> last (view d') = last (view d))
     \<and> (\<forall>j<k. maxBytes s < sum_list (map (\<lambda>e. int (length (snd e))) (drop j (view d))))"
proof -
  obtain k where k: "enforceCap f s (Some d) = (Some (del_all (set (take k (names_of d))) d), None,
      if 0 < k \<and> sp_OnDrop s then [k] else [])" "within_cap (maxBytes s) d k"
    using enforceCap_drops [OF assms(1,2)] by blast
  let ?d' = "del_all (set (take k (names_of d))) d"
  have v: "view ?d' = drop k (view d)" by (rule view_del_take [OF assms(1)])
  have "k < length (view d)" if "view d \<noteq> []"
  proof (cases k)
    case (Suc j)
    then show ?thesis using k(2) unfolding within_cap_def by (auto simp: view_def dest: spec [of _ j])
  qed (use that in simp)
  then have newest: "view d \<noteq> [] \<longrightarrow> drop k (view d) \<noteq> [] \<and> last (drop k (view d)) = last (view d)"
    by (auto simp: last_drop)
  have b: "sum_list (map (\<lambda>e. int (length (snd e))) (drop j (view d))) = bytes_in d (drop j (names_of d))" for j
    by (simp add: view_def bytes_in_def drop_map comp_def)
  show ?thesis
    using k assms(3) v b newest by (intro exI [of _ ?d'] exI [of _ k]) (auto simp: within_cap_def view_def)
qed

theorem enforceCap_minimal_witness:
  "\<exists>d'. fst (enforceCap (no_faults ''1'') \<lparr>sp_MaxBytes = 1, sp_OnDrop = True, sp_seq = 0\<rparr> (Some example_dir))
       = Some d' \<and> length (view d') = 1"
proof -
  have q: "quiet (no_faults ''1'')" by (simp add: quiet_def no_faults_def is_digit_def)
  obtain disk' err calls where e: "enforceCap (no_faults ''1'')
      \<lparr>sp_MaxBytes = 1, sp_OnDrop = True, sp_seq = 0\<rparr> (Some example_dir) = (disk', err, calls)"
    by (metis surj_pair)
  have "length (view d) \<le> 1" if "sum_list (map (\<lambda>e. int (length (snd e))) (view d)) \<le> 1" "view d = drop k (view example_dir)" for k d
    using that by (cases k; cases "k - 1") (auto simp: view_def example_dir_facts, auto simp: contents_def example_dir_def)
  moreover have "view example_dir \<noteq> []" by (simp add: view_def example_dir_facts)
  moreover obtain d' k where "disk' = Some d'" "view d' = drop k (view example_dir)"
    "sum_list (map (\<lambda>e. int (length (snd e))) (view d')) \<le> 1 \<or> length (view d') \<le> 1"
    "view example_dir \<noteq> [] \<longrightarrow> view d' \<noteq> []"
    using enforceCap_minimal [OF example_dir_facts(1) q e] by (auto simp: maxBytes_def)
  ultimately have "disk' = Some d' \<and> length (view d') \<le> 1 \<and> view d' \<noteq> []" by blast
  then show ?thesis by (auto simp: e le_Suc_eq)
qed

text \<open>Under any faults, what the cap removes is a prefix of the names.\<close>

lemma cap_loop_removes:
  "\<exists>k\<le>length names. fst (cap_loop f cap sizes names tot dropped d) = del_all (set (take k names)) d"
proof (induction names arbitrary: tot dropped d)
  case Nil
  then show ?case by simp
next
  case (Cons n names)
  show ?case
  proof (cases "tot \<le> cap \<or> names = [] \<or> ft_remove f n")
    case True
    then show ?thesis by (intro exI [of _ 0]) auto
  next
    case False
    let ?tot = "tot - (case map_of sizes n of Some k \<Rightarrow> k | None \<Rightarrow> 0)"
    obtain k where "k \<le> length names"
      "fst (cap_loop f cap sizes names ?tot (dropped + 1) (del n d)) = del_all (set (take k names)) (del n d)"
      using Cons.IH [of ?tot "dropped + 1" "del n d"] by (elim exE conjE)
    with False show ?thesis by (intro exI [of _ "Suc k"]) (simp add: del_all_del)
  qed
qed

lemma enforceCap_suffix:
  assumes "dir_ok d"
  shows "\<exists>d' k. fst (enforceCap f s (Some d)) = Some d' \<and> dir_ok d' \<and> view d' = drop k (view d)"
proof (cases "ft_readdir f")
  case True
  then show ?thesis using assms by (intro exI [of _ d] exI [of _ 0]) (simp add: enforceCap_def files_def)
next
  case False
  let ?c = "cap_loop f (maxBytes s) (cap_sizes f d (names_of d)) (names_of d)
    (sum_list (map snd (cap_sizes f d (names_of d)))) 0 d"
  obtain k where "fst ?c = del_all (set (take k (names_of d))) d" using cap_loop_removes by blast
  then have "fst (enforceCap f s (Some d)) = Some (del_all (set (take k (names_of d))) d)"
    using False by (cases ?c) (auto simp: enforceCap_def files_names Let_def split: sum.splits)
  with assms show ?thesis using view_del_take [OF assms] by (intro exI) auto
qed

text \<open>Nothing is dropped without a count, unless removing fails.\<close>

lemma cap_loop_counts:
  "case cap_loop f cap sizes names tot dropped d of (d', Inr m) \<Rightarrow> dropped \<le> m \<and> (m = dropped \<longrightarrow> d' = d)
     | (d', Inl e) \<Rightarrow> \<exists>n. e = DropError n"
proof (induction names arbitrary: tot dropped d)
  case (Cons n names)
  note Cons.IH [where tot = "tot - (case map_of sizes n of Some k \<Rightarrow> k | None \<Rightarrow> 0)"
      and dropped = "dropped + 1" and d = "del n d"]
  then show ?case by (auto split: sum.splits prod.splits)
qed simp

lemma enforceCap_reports:
  assumes "enforceCap f s (Some d) = (disk', err, calls)" and "sp_OnDrop s"
  shows "disk' = Some d \<or> calls \<noteq> [] \<or> (\<exists>n. err = Some (DropError n))"
proof (cases "ft_readdir f")
  case True
  then show ?thesis using assms(1) by (simp add: enforceCap_def files_def)
next
  case False
  let ?c = "cap_loop f (maxBytes s) (cap_sizes f d (names_of d)) (names_of d)
    (sum_list (map snd (cap_sizes f d (names_of d)))) 0 d"
  have "case ?c of (d', Inr m) \<Rightarrow> 0 \<le> m \<and> (m = 0 \<longrightarrow> d' = d) | (d', Inl e) \<Rightarrow> \<exists>n. e = DropError n"
    by (rule cap_loop_counts)
  with False assms show ?thesis
    by (auto simp: enforceCap_def files_names Let_def split: sum.splits prod.splits if_splits)
qed

lemma enforceCap_error_silent:
  "enforceCap f s disk = (disk', Some e, calls) \<Longrightarrow> calls = []"
  by (auto simp: enforceCap_def Let_def split: sum.splits option.splits prod.splits)

text \<open>The loop when removing the entry at \<open>k\<close> fails and the entries before it have to go.\<close>

lemma bytes_in_Cons: "bytes_in d (n # ns) = int (length (contents d n)) + bytes_in d ns"
  by (simp add: bytes_in_def)

lemma bytes_in_drop: "bytes_in d (drop k ns) \<le> bytes_in d ns"
proof (induction ns arbitrary: k)
  case (Cons n ns)
  show ?case
  proof (cases k)
    case (Suc j)
    then show ?thesis using Cons.IH [of j] by (simp add: bytes_in_Cons)
  qed simp
qed simp

lemma cap_loop_fails:
  assumes "k + 1 < length names" and "\<forall>j<k. \<not> ft_remove f (names ! j)" and "ft_remove f (names ! k)"
    and "\<forall>n\<in>set names. map_of sizes n = Some (int (length (contents d0 n)))"
    and "tot = bytes_in d0 names" and "cap < bytes_in d0 (drop k names)"
  shows "cap_loop f cap sizes names tot dropped d
      = (del_all (set (take k names)) d, Inl (DropError (names ! k)))"
  using assms
proof (induction names arbitrary: k tot dropped d)
  case (Cons n names)
  have go: "\<not> tot \<le> cap" "names \<noteq> []"
    using bytes_in_drop [of d0 k "n # names"] Cons.prems(1,5,6) by auto
  show ?case
  proof (cases k)
    case 0
    with go Cons.prems(3) show ?thesis by simp
  next
    case (Suc j)
    have "\<not> ft_remove f n" using Cons.prems(2) Suc by auto
    moreover have "\<forall>i<j. \<not> ft_remove f (names ! i)" using Cons.prems(2) Suc by auto
    then have "cap_loop f cap sizes names (tot - int (length (contents d0 n))) (dropped + 1) (del n d)
        = (del_all (set (take j names)) (del n d), Inl (DropError (names ! j)))"
      using Cons.prems Suc by (intro Cons.IH) (simp_all add: bytes_in_Cons)
    ultimately show ?thesis using go Cons.prems(4) Suc by (simp add: del_all_del)
  qed
qed simp

text \<open>
  C40.  When the cap has to drop more than \<open>k\<close> entries and removing the one after the first \<open>k\<close> fails, which
  is not the newest, \<open>enforceCap\<close> returns that error and does not call the callback: the \<open>k\<close> oldest
  entries, already deleted, go unreported.  This holds of every directory, cap and \<open>k\<close>, as long as the
  directory can be listed and the sizes read.
\<close>

theorem enforceCap_unreported_drop:
  assumes "dir_ok d" and "\<not> ft_readdir f" and "\<forall>n. ft_stat f n = StatOk" and "k + 1 < length (view d)"
    and "\<forall>j<k. \<not> ft_remove f (fst (view d ! j))" and "ft_remove f (fst (view d ! k))"
    and "maxBytes s < sum_list (map (\<lambda>e. int (length (snd e))) (drop k (view d)))"
  shows "\<exists>d'. enforceCap f s (Some d) = (Some d', Some (DropError (fst (view d ! k))), [])
     \<and> view d' = drop k (view d)"
proof -
  let ?names = "names_of d"
  have l: "k + 1 < length ?names" using assms(4) by (simp add: view_def)
  have nth: "fst (view d ! j) = ?names ! j" if "j < length ?names" for j using that by (simp add: view_def)
  have b: "sum_list (map (\<lambda>e. int (length (snd e))) (drop k (view d))) = bytes_in d (drop k ?names)"
    by (simp add: view_def bytes_in_def drop_map comp_def)
  have t: "sum_list (map snd (cap_sizes f d ?names)) = bytes_in d ?names"
    using assms(3) by (simp add: cap_sizes_def bytes_in_def comp_def)
  have "cap_loop f (maxBytes s) (cap_sizes f d ?names) ?names (sum_list (map snd (cap_sizes f d ?names))) 0 d
      = (del_all (set (take k ?names)) d, Inl (DropError (?names ! k)))"
    using assms(3,5-7) l nth b t by (intro cap_loop_fails) (auto simp: map_of_cap_sizes)
  then have "enforceCap f s (Some d) = (Some (del_all (set (take k ?names)) d), Some (DropError (?names ! k)), [])"
    using assms(2) by (simp add: enforceCap_def files_names Let_def)
  then show ?thesis using view_del_take [OF assms(1), of k] nth [of k] l
    by (intro exI [of _ "del_all (set (take k ?names)) d"]) simp
qed

text \<open>Three entries of two bytes under a cap of one byte: the first is removed, the second cannot be.\<close>

theorem enforceCap_unreported_drop_witness:
  "\<exists>d'. enforceCap ((no_faults ''1'')\<lparr>ft_remove := \<lambda>n. n = ''b.json''\<rparr>)
       \<lparr>sp_MaxBytes = 1, sp_OnDrop = True, sp_seq = 0\<rparr>
       (Some [(''a.json'', File ''xy''), (''b.json'', File ''xy''), (''c.json'', File ''xy'')])
       = (Some d', Some (DropError ''b.json''), [])
     \<and> view d' = [(''b.json'', ''xy''), (''c.json'', ''xy'')]"
proof -
  let ?f = "(no_faults ''1'')\<lparr>ft_remove := \<lambda>n. n = ''b.json''\<rparr>"
  let ?s = "\<lparr>sp_MaxBytes = 1, sp_OnDrop = True, sp_seq = 0\<rparr>"
  let ?d = "[(''a.json'', File ''xy''), (''b.json'', File ''xy''), (''c.json'', File ''xy'')]"
  have "filepath_Ext ''a.json'' = ext" "filepath_Ext ''b.json'' = ext" "filepath_Ext ''c.json'' = ext"
    by code_simp+
  then have "names_of ?d = [''a.json'', ''b.json'', ''c.json'']"
    by (simp add: names_of_def less_eq_char_def)
  then have v: "view ?d = [(''a.json'', ''xy''), (''b.json'', ''xy''), (''c.json'', ''xy'')]"
    by (simp add: view_def contents_def)
  have "dir_ok ?d" by (simp add: dir_ok_def)
  from enforceCap_unreported_drop [OF this, of ?f 1 ?s] show ?thesis
    by (simp add: v no_faults_def maxBytes_def)
qed

section \<open>Names\<close>

lemma filepath_Ext_entry [simp]: "filepath_Ext (entry_name k b) = ext"
  by (simp add: entry_name_def filepath_Ext_def ext_def)

lemma UnixNano_upper: "UnixNano t < 10 ^ 20"
  using i64_range [of "t - unix_epoch"] by (simp add: UnixNano_def)

lemma entry_name_digs:
  assumes "0 \<le> UnixNano (b_Start b)"
  shows "entry_name k b = digs 20 (UnixNano (b_Start b)) @ ''-'' @ pad_dec 6 (uint k) @ ext"
  using assms UnixNano_upper [of "b_Start b"] by (simp add: entry_name_def pad_dec_digs)

lemma entry_order:
  assumes "0 \<le> UnixNano (b_Start b)" and "0 \<le> UnixNano (b_Start b')"
  shows "(UnixNano (b_Start b) < UnixNano (b_Start b') \<longrightarrow> entry_name k b < entry_name k' b')
     \<and> (UnixNano (b_Start b) = UnixNano (b_Start b') \<and> uint k < 1000000 \<and> uint k' < 1000000 \<longrightarrow>
          (entry_name k b < entry_name k' b' \<longleftrightarrow> k < k'))"
proof -
  note u = UnixNano_upper [of "b_Start b"] UnixNano_upper [of "b_Start b'"]
  note n = entry_name_digs [OF assms(1)] entry_name_digs [OF assms(2)]
  have "entry_name k b < entry_name k' b'" if "UnixNano (b_Start b) < UnixNano (b_Start b')"
    using that unfolding n by (subst append_less_same_length) (simp_all only: length_digs digs_less [OF assms(1) u(1) assms(2) u(2)] simp_thms)
  moreover have "entry_name k b < entry_name k' b' \<longleftrightarrow> k < k'"
    if same: "UnixNano (b_Start b) = UnixNano (b_Start b')" and k: "uint k < 1000000" "uint k' < 1000000"
  proof -
    have p: "pad_dec 6 (uint k) = digs 6 (uint k)" "pad_dec 6 (uint k') = digs 6 (uint k')"
      using k by (simp_all add: pad_dec_digs)
    have "entry_name k b < entry_name k' b' \<longleftrightarrow> digs 6 (uint k) < digs 6 (uint k')"
      unfolding n same p by (simp only: append_less_same_length length_digs simp_thms less_irrefl)
    also have "\<dots> \<longleftrightarrow> uint k < uint k'" using k by (intro digs_less) simp_all
    finally show ?thesis by (simp add: word_less_def)
  qed
  ultimately show ?thesis by blast
qed

text \<open>
  C23.  Listing names in lexical order is listing windows in order: for windows that start after 1970
  an earlier start sorts first whatever the sequence numbers, and windows of one start sort by
  sequence number while that has six digits.
\<close>

theorem entry_name_order:
  assumes "0 \<le> UnixNano (b_Start b)" and "0 \<le> UnixNano (b_Start b')"
  shows "(UnixNano (b_Start b) < UnixNano (b_Start b') \<longrightarrow> entry_name k b < entry_name k' b')
     \<and> (UnixNano (b_Start b) = UnixNano (b_Start b') \<and> uint k < 1000000 \<and> uint k' < 1000000 \<longrightarrow>
          (entry_name k b < entry_name k' b' \<longleftrightarrow> k < k'))"
  using assms by (rule entry_order)

theorem entry_name_order_witness:
  "entry_name 7 (new_bucket unix_epoch 0) < entry_name 2 (new_bucket (unix_epoch + 10 * second) 0)
   \<and> entry_name 2 (new_bucket unix_epoch 0) < entry_name 7 (new_bucket unix_epoch 0)"
  using entry_name_order [of "new_bucket unix_epoch 0" "new_bucket (unix_epoch + 10 * second) 0" 7 2]
    entry_name_order [of "new_bucket unix_epoch 0" "new_bucket unix_epoch 0" 2 7]
  by (simp add: UnixNano_def second_def)

section \<open>Adding a window\<close>

lemma insort_entry:
  "n \<notin> set xs \<Longrightarrow> map (\<lambda>k. (k, if k = n then p else g k)) (insort n xs)
     = insort_key fst (n, p) (map (\<lambda>k. (k, g k)) xs)"
proof (induction xs)
  case (Cons x xs)
  then show ?case by (cases "n \<le> x") (auto intro!: map_cong)
qed simp

lemma view_put_new:
  assumes "dir_ok d" "\<not> is_entry d n" "filepath_Ext n = ext"
  shows "view (put n (File p) d) = insort_key fst (n, p) (view d)"
proof -
  have "n \<notin> set (names_of d)" using assms by (simp add: set_names_of)
  then show ?thesis
    by (simp add: view_def names_of_put_new [OF assms] contents_put insort_entry)
qed

lemma view_put_old:
  assumes "dir_ok d" "is_entry d n"
  shows "view (put n (File p) d) = map (\<lambda>(k, c). (k, if k = n then p else c)) (view d)"
  by (simp add: view_def names_of_put_old [OF assms] contents_put comp_def)

lemma spool_write_quiet:
  assumes "dir_ok d" "quiet f" "map_of d (''tmp-'' @ ft_suffix f) = None"
    and "filepath_Ext n = ext" "map_of d n \<noteq> Some SubDir"
  shows "\<exists>ds. spool_write f n p d = (ds, None) \<and> dir_ok (last ds) \<and> view (last ds) = view (put n (File p) d)
     \<and> map_of (last ds) = (map_of d)(n \<mapsto> File p)"
proof -
  note q = quiet_simps [OF assms(2)]
  have "filepath_Ext (''tmp-'' @ ft_suffix f) \<noteq> ext" using q(13) by (rule tmp_hidden)
  with assms(4) have "n \<noteq> ''tmp-'' @ ft_suffix f" by auto
  then have "map_of (put (''tmp-'' @ ft_suffix f) (File p) (put (''tmp-'' @ ft_suffix f) (File []) d)) n \<noteq> Some SubDir"
    using assms(5) by (simp add: map_of_put)
  then obtain ds where w: "spool_write f n p d = (ds, None)" "last ds = del (''tmp-'' @ ft_suffix f)
      (put n (File p) (del (''tmp-'' @ ft_suffix f) (put (''tmp-'' @ ft_suffix f) (File p)
        (put (''tmp-'' @ ft_suffix f) (File []) d))))"
    using assms(3) q by (auto simp: spool_write_def Let_def)
  have "map_of (last ds) = (map_of d)(n \<mapsto> File p)"
    using assms(3) \<open>n \<noteq> _\<close> by (auto simp: w(2) map_of_del map_of_put)
  moreover have "dir_ok (last ds)" using spool_write_result [OF assms(1,4) q(13) w(1)] by auto
  ultimately show ?thesis using w(1) spool_write_atomic_aux [OF assms(1,4) q(13) w(1)] by simp
qed

lemma maxBytes_seq [simp]: "maxBytes (s\<lparr>sp_seq := k\<rparr>) = maxBytes s"
  by (simp add: maxBytes_def)

text \<open>A successful addition, before and after the cap.\<close>

lemma Add_quiet:
  assumes "dir_ok d" "quiet f" "map_of d (''tmp-'' @ ft_suffix f) = None" "marshal_bucket b = Some p"
    and "map_of d (entry_name (sp_seq s + 1) b) \<noteq> Some SubDir"
  shows "\<exists>d1 k. Add f b s (Some d) = (s\<lparr>sp_seq := sp_seq s + 1\<rparr>,
        Some (del_all (set (take k (names_of d1))) d1), None, if 0 < k \<and> sp_OnDrop s then [k] else [])
     \<and> dir_ok d1 \<and> view d1 = view (put (entry_name (sp_seq s + 1) b) (File p) d)
     \<and> within_cap (maxBytes s) d1 k \<and> map_of d1 = (map_of d)(entry_name (sp_seq s + 1) b \<mapsto> File p)"
proof -
  note q = quiet_simps [OF assms(2)]
  let ?s = "s\<lparr>sp_seq := sp_seq s + 1\<rparr>"
  obtain ds where w: "spool_write f (entry_name (sp_seq s + 1) b) p d = (ds, None)" "dir_ok (last ds)"
    "view (last ds) = view (put (entry_name (sp_seq s + 1) b) (File p) d)"
    "map_of (last ds) = (map_of d)(entry_name (sp_seq s + 1) b \<mapsto> File p)"
    using spool_write_quiet [OF assms(1,2,3) filepath_Ext_entry assms(5)] by blast
  obtain k where k: "enforceCap f ?s (Some (last ds)) = (Some (del_all (set (take k (names_of (last ds)))) (last ds)),
      None, if 0 < k \<and> sp_OnDrop ?s then [k] else [])" "within_cap (maxBytes ?s) (last ds) k"
    using enforceCap_drops [OF w(2) assms(2)] by blast
  have "Add f b s (Some d) = (?s, enforceCap f ?s (Some (last ds)))"
    using q(1) assms(4) w(1) by (simp add: Add_def spool_name_def)
  with w k show ?thesis by (intro exI [of _ "last ds"] exI [of _ k]) simp
qed

lemma length_view [simp]: "length (view d) = length (names_of d)"
  by (simp add: view_def)

lemma bytes_in_view: "bytes_in d (names_of d) = sum_list (map (\<lambda>e. int (length (snd e))) (view d))"
  by (simp add: view_def bytes_in_def comp_def)

text \<open>An entry whose name comes after all the others goes to the end.\<close>

lemma view_put_last:
  assumes "dir_ok d" and "filepath_Ext n = ext" and "map_of d n = None" and "\<forall>m\<in>set (names_of d). m < n"
  shows "view (put n (File p) d) = view d @ [(n, p)]"
proof -
  have "\<not> is_entry d n" using assms(3) by (simp add: is_entry_def)
  from names_of_put_new [OF assms(1) this assms(2)] have "names_of (put n (File p) d) = insort n (names_of d)" .
  also have "\<dots> = names_of d @ [n]" using assms(4) by (intro sorted_insort_is_snoc) (auto intro: less_imp_le)
  finally have "names_of (put n (File p) d) = names_of d @ [n]" .
  moreover have "n \<notin> set (names_of d)" using assms(4) by blast
  ultimately show ?thesis by (auto simp: view_def contents_put)
qed

text \<open>
  When nothing fails, adding a window that sorts after every queued one appends it whole to the
  queue; then the cap may drop entries from the front, but never the window just added, and none at
  all when everything fits under it.
\<close>

lemma Add_new_last:
  assumes "dir_ok d" "quiet f" "map_of d (''tmp-'' @ ft_suffix f) = None" "marshal_bucket b = Some p"
    and "n = entry_name (sp_seq s + 1) b" and "map_of d n = None" and "\<forall>m\<in>set (names_of d). m < n"
  shows "\<exists>d' k. Add f b s (Some d) = (s\<lparr>sp_seq := sp_seq s + 1\<rparr>, Some d', None,
        if 0 < k \<and> sp_OnDrop s then [k] else [])
     \<and> dir_ok d' \<and> k \<le> length (view d) \<and> view d' = drop k (view d) @ [(n, p)]
     \<and> (bytes_in d (names_of d) + int (length p) \<le> maxBytes s \<longrightarrow> k = 0)"
proof -
  obtain d1 k where a: "Add f b s (Some d) = (s\<lparr>sp_seq := sp_seq s + 1\<rparr>,
      Some (del_all (set (take k (names_of d1))) d1), None, if 0 < k \<and> sp_OnDrop s then [k] else [])"
    "dir_ok d1" "view d1 = view (put n (File p) d)" "within_cap (maxBytes s) d1 k"
    using Add_quiet [OF assms(1-4), of s] assms(5,6) by auto
  have v1: "view d1 = view d @ [(n, p)]"
    using view_put_last [OF assms(1) _ assms(6,7)] assms(5) a(3) by simp
  then have len: "length (names_of d1) = Suc (length (view d))"
    by (metis length_append_singleton length_view)
  have k: "k \<le> length (view d)"
  proof (rule ccontr)
    assume "\<not> k \<le> length (view d)"
    then have "length (view d) < k" by simp
    then have "1 < length (drop (length (view d)) (names_of d1))"
      using a(4) unfolding within_cap_def by blast
    then show False by (simp add: len)
  qed
  have "bytes_in d1 (names_of d1) = bytes_in d (names_of d) + int (length p)"
    by (simp add: bytes_in_view v1)
  then have "bytes_in d (names_of d) + int (length p) \<le> maxBytes s \<longrightarrow> k = 0"
    using a(4) unfolding within_cap_def by (metis drop0 gr0I not_less)
  moreover have "view (del_all (set (take k (names_of d1))) d1) = drop k (view d) @ [(n, p)]"
    using k by (simp add: view_del_take [OF a(2)] v1)
  ultimately show ?thesis using a k by (intro exI conjI) auto
qed

definition example_bucket :: Bucket where
  "example_bucket = new_bucket unix_epoch (unix_epoch + 10 * second)"

definition example_spool :: Spool where
  "example_spool = \<lparr>sp_MaxBytes = 0, sp_OnDrop = True, sp_seq = 0\<rparr>"

lemma example_marshal: "\<exists>p. marshal_bucket example_bucket = Some p \<and> length p < 2000"
proof -
  have "case marshal_bucket example_bucket of Some p \<Rightarrow> length p < 2000 | None \<Rightarrow> False" by code_simp
  then show ?thesis by (simp split: option.splits)
qed

lemma quiet_example: "quiet (no_faults ''7'')"
  by (simp add: quiet_def no_faults_def is_digit_def)

lemma example_name: "entry_name 1 example_bucket = ''00000000000000000000-000001.json''"
  by code_simp



text \<open>
  C38.  The sequence number starts again with every process.  The first window of a fresh process
  whose start was already spooled as the first window of an earlier process takes its name, and the
  rename replaces it: the earlier window is lost without an error or a call of \<open>OnDrop\<close>.
\<close>

theorem Add_restart_overwrites:
  assumes "dir_ok d" "quiet f" "map_of d (''tmp-'' @ ft_suffix f) = None" "marshal_bucket b = Some p"
    and "sp_seq s = 0" and "is_entry d (entry_name 1 b)" and "bytes_in (put (entry_name 1 b) (File p) d) (names_of d) \<le> maxBytes s"
  shows "\<exists>d'. Add f b s (Some d) = (s\<lparr>sp_seq := 1\<rparr>, Some d', None, [])
     \<and> view d' = map (\<lambda>(k, c). (k, if k = entry_name 1 b then p else c)) (view d)"
proof -
  let ?n = "entry_name 1 b"
  have "map_of d ?n \<noteq> Some SubDir" using assms(6) by (auto simp: is_entry_def)
  then obtain d1 k where a: "Add f b s (Some d) = (s\<lparr>sp_seq := 1\<rparr>,
      Some (del_all (set (take k (names_of d1))) d1), None, if 0 < k \<and> sp_OnDrop s then [k] else [])"
    "dir_ok d1" "view d1 = view (put ?n (File p) d)" "within_cap (maxBytes s) d1 k"
    using Add_quiet [OF assms(1-4), of s] assms(5) by auto
  have "bytes_in d1 (names_of d1) \<le> maxBytes s"
    using assms(7) unfolding bytes_in_view a(3) by (simp add: bytes_in_view [symmetric] names_of_put_old [OF assms(1,6)])
  then have "k = 0" using a(4) unfolding within_cap_def by (metis drop0 gr0I not_less)
  with a show ?thesis by (simp add: view_put_old [OF assms(1,6)])
qed

text \<open>A window left by an earlier process, and a new one with the same start.\<close>

theorem Add_restart_overwrites_witness:
  "\<exists>p d'. fst (snd (Add (no_faults ''7'') example_bucket example_spool
       (Some [(entry_name 1 example_bucket, File ''earlier window'')]))) = Some d'
     \<and> view d' = [(entry_name 1 example_bucket, p)] \<and> marshal_bucket example_bucket = Some p"
proof -
  let ?n = "entry_name 1 example_bucket" and ?d = "[(entry_name 1 example_bucket, File ''earlier window'')]"
  obtain p where p: "marshal_bucket example_bucket = Some p" "length p < 2000" using example_marshal by blast
  have n: "names_of ?d = [?n]" by (simp add: names_of_def)
  have d: "dir_ok ?d" "is_entry ?d ?n" by (simp_all add: dir_ok_def is_entry_def)
  have v: "view ?d = [(?n, ''earlier window'')]" by (simp add: view_def n contents_def)
  have c: "bytes_in (put ?n (File p) ?d) (names_of ?d) \<le> maxBytes example_spool"
    using p(2) by (simp add: n bytes_in_def contents_put maxBytes_def example_spool_def DefaultMaxBytes_def)
  have t: "map_of ?d (''tmp-'' @ ft_suffix (no_faults ''7'')) = None"
    by (simp add: no_faults_def example_name)
  have z: "sp_seq example_spool = 0" by (simp add: example_spool_def)
  from Add_restart_overwrites [OF d(1) quiet_example t p(1) z d(2) c] p(1) show ?thesis
    unfolding v by auto
qed

end
