(* ===== verification/Backoff.thy ===== *)
theory Backoff
  imports GoTime
begin

text \<open>
  Retry delays (\<open>internal/ship/backoff.go\<close>).  The delay is a random draw below an exponential
  ceiling; the ceiling is a loop with wrap-around doubling.  \<open>Rand\<close> is the injected source, and
  \<open>glob\<close> stands for the global source of \<open>math/rand/v2\<close>, used when it is nil.
\<close>

definition DefaultBase :: duration where "DefaultBase = 2 * second"
definition DefaultCap :: duration where "DefaultCap = 15 * minute"

record backoff =
  Base :: duration
  Cap :: duration
  Rand :: "(int \<Rightarrow> int) option"

definition backoff_base :: "backoff \<Rightarrow> duration" where
  "backoff_base b = (if Base b \<le> 0 then DefaultBase else Base b)"

definition backoff_max :: "backoff \<Rightarrow> duration" where
  "backoff_max b = (if Cap b \<le> 0 then DefaultCap else Cap b)"

definition backoff_random :: "(int \<Rightarrow> int) \<Rightarrow> backoff \<Rightarrow> int \<Rightarrow> int" where
  "backoff_random glob b n =
     (if n \<le> 0 then 0 else case Rand b of Some r \<Rightarrow> r n | None \<Rightarrow> glob n)"

text \<open>The doubling loop of \<open>Delay\<close>, with its early exit.\<close>

fun ceiling_loop :: "nat \<Rightarrow> duration \<Rightarrow> duration \<Rightarrow> duration" where
  "ceiling_loop 0 mx c = c"
| "ceiling_loop (Suc k) mx c =
     (let c' = i64 (c * 2) in if mx \<le> c' then mx else ceiling_loop k mx c')"

definition delay_ceiling :: "backoff \<Rightarrow> int \<Rightarrow> duration" where
  "delay_ceiling b attempt = (let n = (if attempt < 1 then 1 else attempt) in
     ceiling_loop (nat (n - 1)) (backoff_max b) (backoff_base b))"

definition Delay :: "(int \<Rightarrow> int) \<Rightarrow> backoff \<Rightarrow> int \<Rightarrow> duration" where
  "Delay glob b attempt = backoff_random glob b (delay_ceiling b attempt)"

definition Spread :: "(int \<Rightarrow> int) \<Rightarrow> backoff \<Rightarrow> duration \<Rightarrow> duration" where
  "Spread glob b d = backoff_random glob b d"

section \<open>The ceiling\<close>

lemma ceiling_loop_closed:
  assumes "0 < c" and "c < mx" and "mx \<le> 4611686018427387904"
  shows "ceiling_loop k mx c = min (c * 2 ^ k) mx"
  using assms(1,2)
proof (induction k arbitrary: c)
  case 0
  then show ?case by simp
next
  case (Suc k)
  then have w: "i64 (c * 2) = c * 2" using assms(3) by (intro i64_id) auto
  show ?case
  proof (cases "mx \<le> c * 2")
    case True
    have "c * 2 \<le> c * 2 ^ Suc k" using Suc.prems(1) by (intro mult_left_mono) auto
    with True w show ?thesis by (simp add: min_def)
  next
    case False
    with Suc.prems have "ceiling_loop k mx (c * 2) = min (c * 2 * 2 ^ k) mx" by (intro Suc.IH) auto
    with False w show ?thesis by (simp add: mult.assoc)
  qed
qed

lemma backoff_base_pos: "0 < backoff_base b" and backoff_max_pos: "0 < backoff_max b"
  by (auto simp: backoff_base_def backoff_max_def DefaultBase_def DefaultCap_def duration_defs)

text \<open>
  While the base is below the cap and the cap is at most \<open>2^62\<close> nanoseconds (146 years), the
  ceiling after the n-th consecutive failure is exactly the base doubled \<open>n - 1\<close> times, capped.
\<close>

lemma delay_ceiling_closed:
  assumes "backoff_base b < backoff_max b" and "backoff_max b \<le> 4611686018427387904" and "1 \<le> n"
  shows "delay_ceiling b n = min (backoff_base b * 2 ^ nat (n - 1)) (backoff_max b)"
  using assms by (simp add: delay_ceiling_def ceiling_loop_closed backoff_base_pos)

definition uniform_source :: "(int \<Rightarrow> int) \<Rightarrow> bool" where
  "uniform_source r \<longleftrightarrow> (\<forall>n>0. 0 \<le> r n \<and> r n < n)"

lemma backoff_random_range:
  assumes "uniform_source glob" and "\<forall>r. Rand b = Some r \<longrightarrow> uniform_source r"
  shows "0 \<le> backoff_random glob b n" and "0 < n \<Longrightarrow> backoff_random glob b n < n"
  using assms by (auto simp: backoff_random_def uniform_source_def split: option.splits)

lemma Delay_below:
  assumes "uniform_source glob" and "\<forall>r. Rand b = Some r \<longrightarrow> uniform_source r"
    and "backoff_base b < backoff_max b" and "backoff_max b \<le> 4611686018427387904"
  shows "0 \<le> Delay glob b n \<and> Delay glob b n < min (backoff_base b * 2 ^ nat (max n 1 - 1)) (backoff_max b)"
proof -
  let ?c = "delay_ceiling b n"
  have "?c = delay_ceiling b (max n 1)" by (simp add: delay_ceiling_def)
  then have c: "?c = min (backoff_base b * 2 ^ nat (max n 1 - 1)) (backoff_max b)"
    using assms delay_ceiling_closed [of b "max n 1"] by simp
  then have "0 < ?c"
    using backoff_base_pos [of b] backoff_max_pos [of b] by auto
  then show ?thesis
    using backoff_random_range [OF assms(1,2), of ?c] unfolding c [symmetric] by (simp add: Delay_def)
qed

lemma Delay_range:
  assumes "uniform_source glob" and "\<forall>r. Rand b = Some r \<longrightarrow> uniform_source r"
    and "backoff_base b < backoff_max b" and "backoff_max b \<le> 4611686018427387904"
  shows "0 \<le> Delay glob b n \<and> Delay glob b n < backoff_max b"
  using Delay_below [OF assms, of n] by simp

text \<open>
  C36.  Exponential backoff: with a source that draws from \<open>[0, n)\<close>, the wait after the n-th consecutive
  failure is never negative and, for a base below the cap, strictly below the base doubled \<open>n - 1\<close> times
  and strictly below the cap; and every such wait can occur.
\<close>

theorem Delay_bounds:
  assumes "uniform_source glob" and "\<forall>r. Rand b = Some r \<longrightarrow> uniform_source r"
    and "backoff_base b < backoff_max b" and "backoff_max b \<le> 4611686018427387904"
  shows "0 \<le> Delay glob b n \<and> Delay glob b n < min (backoff_base b * 2 ^ nat (max n 1 - 1)) (backoff_max b)
     \<and> (\<forall>d. 0 \<le> d \<and> d < min (backoff_base b * 2 ^ nat (max n 1 - 1)) (backoff_max b) \<longrightarrow>
          (\<exists>r. uniform_source r \<and> Delay glob (b\<lparr>Rand := Some r\<rparr>) n = d))"
proof -
  let ?c = "delay_ceiling b n"
  have "?c = delay_ceiling b (max n 1)" by (simp add: delay_ceiling_def)
  then have c: "min (backoff_base b * 2 ^ nat (max n 1 - 1)) (backoff_max b) = ?c"
    using assms delay_ceiling_closed [of b "max n 1"] by simp
  have "\<exists>r. uniform_source r \<and> Delay glob (b\<lparr>Rand := Some r\<rparr>) n = d" if "0 \<le> d" "d < ?c" for d
  proof (intro exI [of _ "\<lambda>m. if m = ?c then d else 0"] conjI)
    show "uniform_source (\<lambda>m. if m = ?c then d else 0)" using that by (simp add: uniform_source_def)
    have "delay_ceiling (b\<lparr>Rand := r\<rparr>) n = ?c" for r
      by (simp add: delay_ceiling_def backoff_base_def backoff_max_def)
    then show "Delay glob (b\<lparr>Rand := Some (\<lambda>m. if m = ?c then d else 0)\<rparr>) n = d"
      using that by (simp add: Delay_def backoff_random_def)
  qed
  with Delay_below [OF assms, of n] show ?thesis unfolding c by blast
qed

theorem Delay_bounds_witness:
  "0 \<le> Delay (\<lambda>n. n - 1) \<lparr>Base = 0, Cap = 0, Rand = None\<rparr> 2
   \<and> Delay (\<lambda>n. n - 1) \<lparr>Base = 0, Cap = 0, Rand = None\<rparr> 2 < minute
   \<and> (\<exists>r. Delay (\<lambda>n. n - 1) \<lparr>Base = 0, Cap = 0, Rand = Some r\<rparr> 2 = 5)"
proof -
  let ?b = "\<lparr>Base = 0, Cap = 0, Rand = None\<rparr>"
  have "uniform_source (\<lambda>n. n - 1)" by (simp add: uniform_source_def)
  moreover have "backoff_base ?b < backoff_max ?b" "backoff_max ?b \<le> 4611686018427387904"
    by (simp_all add: backoff_base_def backoff_max_def DefaultBase_def DefaultCap_def duration_defs)
  ultimately have D: "0 \<le> Delay (\<lambda>n. n - 1) ?b 2 \<and> Delay (\<lambda>n. n - 1) ?b 2 < 4 * second
     \<and> (\<forall>d. 0 \<le> d \<and> d < 4 * second \<longrightarrow> (\<exists>r. uniform_source r \<and> Delay (\<lambda>n. n - 1) (?b\<lparr>Rand := Some r\<rparr>) 2 = d))"
    using Delay_bounds [of "\<lambda>n. n - 1" ?b 2]
    by (simp add: backoff_base_def backoff_max_def DefaultBase_def DefaultCap_def duration_defs)
  then have "(0::int) \<le> 5 \<and> 5 < 4 * second \<longrightarrow>
      (\<exists>r. uniform_source r \<and> Delay (\<lambda>n. n - 1) (?b\<lparr>Rand := Some r\<rparr>) 2 = 5)" by blast
  then obtain r where "Delay (\<lambda>n. n - 1) (?b\<lparr>Rand := Some r\<rparr>) 2 = 5" by (auto simp: second_def)
  with D show ?thesis by (simp add: duration_defs) blast
qed

text \<open>
  The documentation says that the cap bounds the ceiling however many attempts have failed.
  The first retry does not look at the cap: with a base above the cap the first wait is drawn below
  the base, and only from the second failure on below the cap.
\<close>

lemma Delay_first_ignores_cap:
  assumes "0 < Cap b" and "Cap b < Base b" and "Base b < 4611686018427387904"
  shows "delay_ceiling b 1 = Base b \<and> delay_ceiling b 2 = Cap b"
  using assms
  by (simp add: delay_ceiling_def backoff_base_def backoff_max_def Let_def numeral_2_eq_2)

lemma Delay_first_ignores_cap_example:
  "delay_ceiling \<lparr>Base = hour, Cap = minute, Rand = None\<rparr> 1 = hour
   \<and> delay_ceiling \<lparr>Base = hour, Cap = minute, Rand = None\<rparr> 2 = minute"
  using Delay_first_ignores_cap [of "\<lparr>Base = hour, Cap = minute, Rand = None\<rparr>"]
  by (simp add: duration_defs)

end
