(* ===== verification/Ship.thy ===== *)
theory Ship
  imports Codec Backoff
begin

text \<open>
  The upload client (\<open>internal/ship/ship.go\<close>): the classification of failures, the validation of
  the endpoint, and \<open>Send\<close>.  The network is a parameter, a function from the request to what
  \<open>http.Client.Do\<close> and reading the body give; so is the compressor, whose output nothing here looks
  at.  \<open>url_Parse\<close> models the part of \<open>net/url\<close> that decides the scheme and the host.

  The lemmas show which failures carry which kind, that success is reported only for a decoded reply
  with a status in the two hundreds, and that a client made by \<open>New\<close> hands over only posts to its https endpoint.
\<close>

section \<open>Failures\<close>

datatype Kind = Retryable | Rejected | Unauthorized

record ship_error =
  e_Kind :: Kind
  e_Status :: int
  e_Err :: string

definition Error_text :: "ship_error \<Rightarrow> string" where
  "Error_text e = (if e_Status e \<noteq> 0
     then ''ship: status '' @ dec_signed (e_Status e) @ '': '' @ e_Err e
     else ''ship: '' @ e_Err e)"

definition classify :: "int \<Rightarrow> Kind" where
  "classify status =
     (if status = 401 \<or> status = 403 then Unauthorized
      else if status = 429 then Retryable
      else if 400 \<le> status \<and> status < 500 then Rejected
      else Retryable)"

section \<open>The endpoint\<close>

definition is_alpha :: "char \<Rightarrow> bool" where
  "is_alpha c \<longleftrightarrow> in_range 65 90 c \<or> in_range 97 122 c"

definition is_hex :: "char \<Rightarrow> bool" where
  "is_hex c \<longleftrightarrow> is_digit c \<or> is_hex_letter c"

text \<open>
  The scheme: letters, digits and \<open>+-.\<close> up to a colon; a colon first is an error, any other
  character before it means that there is no scheme.
\<close>

fun get_scheme :: "string \<Rightarrow> string \<Rightarrow> (string \<times> string) option" where
  "get_scheme acc [] = Some ([], rev acc)"
| "get_scheme acc (c # cs) =
     (if is_alpha c then get_scheme (c # acc) cs
      else if is_digit c \<or> c = CHR ''+'' \<or> c = CHR ''-'' \<or> c = CHR ''.''
      then (if acc = [] then Some ([], c # cs) else get_scheme (c # acc) cs)
      else if c = CHR '':'' then (if acc = [] then None else Some (rev acc, cs))
      else Some ([], rev acc @ c # cs))"

text \<open>Percent escapes outside the host must be two hexadecimal digits.\<close>

fun escapes_ok :: "string \<Rightarrow> bool" where
  "escapes_ok [] = True"
| "escapes_ok (c # cs) = (if c = CHR ''%''
     then (case cs of a # b # r \<Rightarrow> is_hex a \<and> is_hex b \<and> escapes_ok r | _ \<Rightarrow> False)
     else escapes_ok cs)"

definition host_char :: "char \<Rightarrow> bool" where
  "host_char c \<longleftrightarrow> 128 \<le> byte c \<or> is_alpha c \<or> is_digit c
     \<or> c \<in> set ''-_.~!$&()*+,;=:[]<>'' \<or> c = CHR 0x27 \<or> c = CHR 0x22"

text \<open>
  In a host, an escape may only stand for a byte above 127; a zone in brackets, the one exception of
  the library, is taken as an error here.
\<close>

fun host_ok :: "string \<Rightarrow> bool" where
  "host_ok [] = True"
| "host_ok (c # cs) = (if c = CHR ''%''
     then (case cs of a # b # r \<Rightarrow> is_hex a \<and> is_hex b \<and> 8 \<le> hex_val a \<and> host_ok r | _ \<Rightarrow> False)
     else host_char c \<and> host_ok cs)"

text \<open>A port after the last colon is digits, or nothing.\<close>

definition after_last :: "char \<Rightarrow> string \<Rightarrow> string" where
  "after_last c s = rev (takeWhile (\<lambda>x. x \<noteq> c) (rev s))"

definition parse_host :: "string \<Rightarrow> string option" where
  "parse_host h =
     (if h \<noteq> [] \<and> hd h = CHR ''['' then
        (if CHR '']'' \<in> set h
            \<and> (let p = after_last (CHR '']'') h in p = [] \<or> (hd p = CHR '':'' \<and> list_all is_digit (tl p)))
            \<and> host_ok h then Some h else None)
      else if CHR '':'' \<in> set h \<and> \<not> list_all is_digit (after_last (CHR '':'') h) then None
      else if host_ok h then Some h else None)"

definition userinfo_char :: "char \<Rightarrow> bool" where
  "userinfo_char c \<longleftrightarrow> is_alpha c \<or> is_digit c \<or> c \<in> set ''-._:~!$&()*+,;=%@'' \<or> c = CHR 0x27"

definition parse_authority :: "string \<Rightarrow> string option" where
  "parse_authority a =
     (if CHR ''@'' \<notin> set a then parse_host a
      else let h = after_last (CHR ''@'') a; u = take (length a - length h - 1) a in
        if list_all userinfo_char u \<and> escapes_ok u then parse_host h else None)"

text \<open>The scheme in lower case and the host; \<open>None\<close> is an error.\<close>

definition url_Parse :: "string \<Rightarrow> (string \<times> string) option" where
  "url_Parse raw =
     (let (u, frag) = (case Cut (CHR ''#'') raw of None \<Rightarrow> (raw, []) | Some uf \<Rightarrow> uf) in
      if (\<exists>c\<in>set u. byte c < 32 \<or> byte c = 127) \<or> \<not> escapes_ok frag then None
      else if u = ''*'' then Some ([], [])
      else case get_scheme [] u of None \<Rightarrow> None
      | Some (scheme, rest) \<Rightarrow>
        (let scheme = map lower scheme;
             rest = (case Cut (CHR ''?'') rest of None \<Rightarrow> rest | Some (p, q) \<Rightarrow> p) in
         if \<not> HasPrefix rest ''/'' then
           (if scheme \<noteq> [] then Some (scheme, [])
            else if CHR '':'' \<in> set (takeWhile (\<lambda>c. c \<noteq> CHR ''/'') rest) then None
            else if escapes_ok rest then Some ([], []) else None)
         else if HasPrefix rest ''//'' \<and> (scheme \<noteq> [] \<or> \<not> HasPrefix rest ''///'') then
           (let a = takeWhile (\<lambda>c. c \<noteq> CHR ''/'') (drop 2 rest);
                path = dropWhile (\<lambda>c. c \<noteq> CHR ''/'') (drop 2 rest) in
            case parse_authority a of None \<Rightarrow> None
            | Some h \<Rightarrow> if escapes_ok path then Some (scheme, h) else None)
         else if escapes_ok rest then Some (scheme, []) else None))"

section \<open>The client\<close>

definition maxResponseBytes :: nat where "maxResponseBytes = 65536"

definition DefaultTimeout :: duration where "DefaultTimeout = 30 * second"

record Client =
  Endpoint :: string
  Token :: string
  Version :: string

datatype new_error = EndpointError | NotHttps string | NoHost | NoToken

definition New :: "string \<Rightarrow> string \<Rightarrow> string \<Rightarrow> new_error + Client" where
  "New endpoint token version =
     (case url_Parse endpoint of None \<Rightarrow> Inl EndpointError
      | Some (scheme, host) \<Rightarrow>
          if scheme \<noteq> ''https'' then Inl (NotHttps scheme)
          else if host = [] then Inl NoHost
          else if token = [] then Inl NoToken
          else Inr \<lparr>Endpoint = endpoint, Token = token, Version = version\<rparr>)"

record request =
  Method :: string
  URL :: string
  Headers :: "(string \<times> string) list"
  Body :: string

text \<open>What the network does with a request: no reply, a reply whose body breaks off, or a reply.\<close>

datatype reply = NoReply string | BrokenReply int string | Reply int string

definition encode :: "(string \<Rightarrow> string) \<Rightarrow> batch \<Rightarrow> string option" where
  "encode gzip b = map_option (\<lambda>j. gzip (render j @ [newline])) (batch_json b)"

definition upload_request :: "Client \<Rightarrow> string \<Rightarrow> request" where
  "upload_request c body = \<lparr>Method = ''POST'', URL = Endpoint c,
     Headers = [(''Authorization'', ''Bearer '' @ Token c), (''Content-Type'', ''application/json''),
       (''Content-Encoding'', ''gzip''), (''User-Agent'', ''kloudy-agent/'' @ Version c)],
     Body = body\<rparr>"

definition ship_fail :: "Kind \<Rightarrow> int \<Rightarrow> string \<Rightarrow> ship_error" where
  "ship_fail k status msg = \<lparr>e_Kind = k, e_Status = status, e_Err = msg\<rparr>"

definition Send :: "(request \<Rightarrow> reply) \<Rightarrow> (string \<Rightarrow> string) \<Rightarrow> time \<Rightarrow> Client \<Rightarrow> Bucket list
    \<Rightarrow> ship_error + response" where
  "Send http gzip now c buckets =
     (case encode gzip \<lparr>Agent_version = Version c, SentAt = now, Buckets = buckets\<rparr> of
        None \<Rightarrow> Inl (ship_fail Rejected 0 ''encode batch'')
      | Some body \<Rightarrow>
        (case url_Parse (Endpoint c) of
           None \<Rightarrow> Inl (ship_fail Retryable 0 ''endpoint'')
         | Some _ \<Rightarrow>
           (case http (upload_request c body) of
              NoReply e \<Rightarrow> Inl (ship_fail Retryable 0 e)
            | BrokenReply status e \<Rightarrow> Inl (ship_fail Retryable status e)
            | Reply status text \<Rightarrow>
                let payload = take maxResponseBytes text in
                if status < 200 \<or> 299 < status
                then Inl (ship_fail (classify status) status ''upload refused'')
                else (case unmarshal_response payload of
                    None \<Rightarrow> Inl (ship_fail Retryable status ''decode reply'')
                  | Some out \<Rightarrow> Inr out))))"

section \<open>What failures mean\<close>

text \<open>
  C29.  An upload counts as delivered exactly when the request went out and a reply with a status in
  the two hundreds decoded.  Of the failures, those that let the caller drop the batch are a batch
  that cannot be encoded and a refusal with a status of the four hundreds other than 401, 403 and 429.
\<close>

theorem Send_outcomes:
  "(Send http gzip now c bs = Inr out \<longleftrightarrow>
      (\<exists>body status text. encode gzip \<lparr>Agent_version = Version c, SentAt = now, Buckets = bs\<rparr> = Some body
        \<and> url_Parse (Endpoint c) \<noteq> None \<and> http (upload_request c body) = Reply status text
        \<and> 200 \<le> status \<and> status \<le> 299 \<and> unmarshal_response (take 65536 text) = Some out))
   \<and> ((\<exists>e. Send http gzip now c bs = Inl e \<and> e_Kind e = Rejected) \<longleftrightarrow>
      (encode gzip \<lparr>Agent_version = Version c, SentAt = now, Buckets = bs\<rparr> = None
       \<or> (\<exists>body status text. encode gzip \<lparr>Agent_version = Version c, SentAt = now, Buckets = bs\<rparr> = Some body
        \<and> url_Parse (Endpoint c) \<noteq> None \<and> http (upload_request c body) = Reply status text
        \<and> 400 \<le> status \<and> status < 500 \<and> status \<notin> {401, 403, 429})))
   \<and> ((\<exists>e. Send http gzip now c bs = Inl e \<and> e_Kind e = Unauthorized) \<longleftrightarrow>
      (\<exists>body text. encode gzip \<lparr>Agent_version = Version c, SentAt = now, Buckets = bs\<rparr> = Some body
        \<and> url_Parse (Endpoint c) \<noteq> None
        \<and> (http (upload_request c body) = Reply 401 text \<or> http (upload_request c body) = Reply 403 text)))"
proof (cases "encode gzip \<lparr>Agent_version = Version c, SentAt = now, Buckets = bs\<rparr>")
  case None
  then show ?thesis by (simp add: Send_def ship_fail_def)
next
  case (Some body)
  show ?thesis
  proof (cases "url_Parse (Endpoint c)")
    case None
    with Some show ?thesis by (simp add: Send_def ship_fail_def)
  next
    case (Some u)
    with \<open>encode _ _ = Some body\<close> show ?thesis
      by (cases "http (upload_request c body)")
        (auto simp: Send_def ship_fail_def classify_def maxResponseBytes_def Let_def split: option.splits if_splits)
  qed
qed

theorem Send_outcomes_witness:
  "\<exists>e. Send (\<lambda>_. Reply 422 []) (\<lambda>x. x) unix_epoch
     \<lparr>Endpoint = ''https://k/i'', Token = ''t'', Version = ''1''\<rparr> [] = Inl e \<and> e_Kind e = Rejected"
proof -
  let ?c = "\<lparr>Endpoint = ''https://k/i'', Token = ''t'', Version = ''1''\<rparr>"
  have u: "url_Parse ''https://k/i'' = Some (''https'', ''k'')" by code_simp
  have "fmt_time unix_epoch \<noteq> None" by code_simp
  then obtain body where "encode (\<lambda>x. x) \<lparr>Agent_version = Version ?c, SentAt = unix_epoch, Buckets = []\<rparr> = Some body"
    by (auto simp: encode_def batch_json_def)
  then show ?thesis
    using Send_outcomes [of "\<lambda>_. Reply 422 []" "\<lambda>x. x" unix_epoch ?c "[]"] u by auto
qed

text \<open>
  C30.  A client that \<open>New\<close> accepts has an https endpoint with a host and a token, and what it hands to
  the HTTP client is a POST to that endpoint that carries the token in its \<open>Authorization\<close> header: the
  outcome depends on no other request.  Redirects that \<open>Do\<close> follows on its own are within the answer.
\<close>

theorem New_https_only:
  assumes "New endpoint token version = Inr c"
  shows "(\<exists>host. url_Parse endpoint = Some (''https'', host) \<and> host \<noteq> []) \<and> token \<noteq> []
     \<and> Endpoint c = endpoint
     \<and> ((\<forall>req. URL req = endpoint \<and> Method req = ''POST''
           \<and> map_of (Headers req) ''Authorization'' = Some (''Bearer '' @ token) \<longrightarrow> http req = http' req)
         \<longrightarrow> Send http gzip now c bs = Send http' gzip now c bs)"
proof -
  obtain host where c: "url_Parse endpoint = Some (''https'', host)" "host \<noteq> []" "token \<noteq> []"
    "c = \<lparr>Endpoint = endpoint, Token = token, Version = version\<rparr>"
    using assms by (auto simp: New_def split: option.splits if_splits)
  have "Send http gzip now c bs = Send http' gzip now c bs"
    if "\<forall>req. URL req = endpoint \<and> Method req = ''POST''
       \<and> map_of (Headers req) ''Authorization'' = Some (''Bearer '' @ token) \<longrightarrow> http req = http' req"
  proof -
    have same: "http (upload_request c body) = http' (upload_request c body)" for body
      using that c(4) by (simp add: upload_request_def)
    show ?thesis unfolding Send_def same by (rule refl)
  qed
  with c show ?thesis by auto
qed

theorem New_https_only_witness:
  "New ''http://k/i'' ''t'' ''1'' = Inl (NotHttps ''http'')
   \<and> (\<exists>c. New ''https://k/i'' ''t'' ''1'' = Inr c \<and> Endpoint c = ''https://k/i'')"
proof -
  have h: "url_Parse ''http://k/i'' = Some (''http'', ''k'')" by code_simp
  have u: "url_Parse ''https://k/i'' = Some (''https'', ''k'')" by code_simp
  then obtain c where "New ''https://k/i'' ''t'' ''1'' = Inr c" by (simp add: New_def)
  with New_https_only [OF this] h show ?thesis by (simp add: New_def)
qed

end
