(* ===== verification/Agent.thy ===== *)
theory Agent
  imports Collect Spool Ship
begin

text \<open>
  The loop (\<open>internal/agent/agent.go\<close>): sample, persist, upload, the reaction to failures, the
  adoption of a new configuration, shutdown, and \<open>Run\<close> with its two tickers.

  The state is the agent's struct and the world it changes: the spool directory and the log.  What
  the outside answers during one call of a handler is an \<open>env\<close>: the operating system for the
  collector, the faults of each use of the spool, the clock, the random source, and the uploader, a
  function from the batch to a reply.  Log lines are events; the call of the uploader is an event
  too.  \<open>Run\<close> is a transition system over the ticks of the two tickers, the passing of time and the
  cancellation of the context; before \<open>Run\<close> makes it, the aggregator is not used.
\<close>

section \<open>State\<close>

definition DefaultMaxBatch :: int where "DefaultMaxBatch = 360"

record Agent =
  ag_Collector :: Collector
  ag_Spool :: Spool
  ag_Settings :: settings
  ag_Backoff :: backoff
  ag_MaxBatch :: int
  ag_agg :: Aggregator
  ag_failures :: int
  ag_retryAt :: time

datatype upload_error = ShipError ship_error | OtherError string

datatype event = SampleFailed collect_error | SpoolWriteFailed spool_error | DroppedOldest nat
  | SpoolReadFailed spool_error | Sent "Bucket list" | Uploaded int int | DiscardFailed spool_error
  | WindowsRejected int | UploadUnauthorized duration | UploadFailed duration int
  | ConfigIgnored wire_error | ConfigUpdated settings | Started settings | Stopped
  | StoppedWithSpooled int int

record world =
  w_disk :: "directory option"
  w_log :: "event list"

record env =
  en_os :: osenv
  en_add :: faults
  en_now :: time
  en_peek :: faults
  en_send :: "Bucket list \<Rightarrow> upload_error + response"
  en_fail_now :: time
  en_rand :: "int \<Rightarrow> int"
  en_discard :: faults
  en_config_add :: faults
  en_stats :: faults

type_synonym state = "Agent \<times> world"

definition log_event :: "event \<Rightarrow> world \<Rightarrow> world" where
  "log_event e w = w\<lparr>w_log := w_log w @ [e]\<rparr>"

definition maxBatch :: "Agent \<Rightarrow> int" where
  "maxBatch a = (if ag_MaxBatch a \<le> 0 then DefaultMaxBatch else ag_MaxBatch a)"

section \<open>Handlers\<close>

definition persist :: "faults \<Rightarrow> Bucket \<Rightarrow> state \<Rightarrow> state" where
  "persist f b = (\<lambda>(a, w).
     let (s, disk, err, drops) = Add f b (ag_Spool a) (w_disk w);
         w = fold (\<lambda>n. log_event (DroppedOldest n)) drops (w\<lparr>w_disk := disk\<rparr>);
         w = (case err of None \<Rightarrow> w | Some e \<Rightarrow> log_event (SpoolWriteFailed e) w)
     in (a\<lparr>ag_Spool := s\<rparr>, w))"

text \<open>The idiom of the three callers: a window, if there is one, is stored.\<close>

definition persist_opt :: "faults \<Rightarrow> Bucket option \<Rightarrow> state \<Rightarrow> state" where
  "persist_opt f out s = (case out of None \<Rightarrow> s | Some b \<Rightarrow> persist f b s)"

definition sample :: "env \<Rightarrow> state \<Rightarrow> state" where
  "sample env = (\<lambda>(a, w).
     case Collect (en_os env) (ag_Collector a) of
       Inl e \<Rightarrow> (a, log_event (SampleFailed e) w)
     | Inr s \<Rightarrow>
         let (agg, out) = agg_Add s (ag_agg a)
         in persist_opt (en_add env) out (a\<lparr>ag_agg := agg\<rparr>, w))"

definition error_kind :: "upload_error \<Rightarrow> Kind" where
  "error_kind e = (case e of ShipError se \<Rightarrow> e_Kind se | OtherError _ \<Rightarrow> Retryable)"

text \<open>Discarding a batch, with the failure logged.\<close>

definition discard_batch :: "faults \<Rightarrow> Entry list \<Rightarrow> world \<Rightarrow> world" where
  "discard_batch f entries w =
     (let (disk, err) = Discard f entries (w_disk w); w = w\<lparr>w_disk := disk\<rparr>
      in case err of None \<Rightarrow> w | Some e \<Rightarrow> log_event (DiscardFailed e) w)"

definition handleFailure :: "env \<Rightarrow> upload_error \<Rightarrow> Entry list \<Rightarrow> state \<Rightarrow> state" where
  "handleFailure env err entries = (\<lambda>(a, w).
     let a = a\<lparr>ag_failures := i64 (ag_failures a + 1)\<rparr>;
         delay = Delay (en_rand env) (ag_Backoff a) (ag_failures a);
         a = a\<lparr>ag_retryAt := en_fail_now env + delay\<rparr>
     in case error_kind err of
          Rejected \<Rightarrow> (a, discard_batch (en_discard env) entries
            (log_event (WindowsRejected (int (length entries))) w))
        | Unauthorized \<Rightarrow> (a, log_event (UploadUnauthorized delay) w)
        | Retryable \<Rightarrow> (a, log_event (UploadFailed delay (ag_failures a)) w))"

definition applyConfig :: "env \<Rightarrow> config \<Rightarrow> state \<Rightarrow> state \<times> bool" where
  "applyConfig env c = (\<lambda>(a, w).
     case Apply c (ag_Settings a) of
       (_, Some e) \<Rightarrow> ((a, log_event (ConfigIgnored e) w), False)
     | (next, None) \<Rightarrow>
         if next = ag_Settings a then ((a, w), False)
         else
           let (a, w) =
             (if Window next \<noteq> Window (ag_Settings a)
              then let (agg, out) = agg_Flush (ag_agg a);
                       (a, w) = persist_opt (en_config_add env) out (a\<lparr>ag_agg := agg\<rparr>, w)
                   in (a\<lparr>ag_agg := new_aggregator (Window next)\<rparr>, w)
              else (a, w))
           in ((a\<lparr>ag_Settings := next\<rparr>, log_event (ConfigUpdated next) w), True))"

definition upload :: "env \<Rightarrow> state \<Rightarrow> state \<times> bool" where
  "upload env = (\<lambda>(a, w).
     if en_now env < ag_retryAt a then ((a, w), False)
     else
       let (disk, r) = Peek (en_peek env) (maxBatch a) (w_disk w); w = w\<lparr>w_disk := disk\<rparr> in
       case r of Inl e \<Rightarrow> ((a, log_event (SpoolReadFailed e) w), False)
       | Inr entries \<Rightarrow>
           if entries = [] then ((a, w), False)
           else
             let buckets = map snd entries; w = log_event (Sent buckets) w in
             case en_send env buckets of
               Inl err \<Rightarrow> (handleFailure env err entries (a, w), False)
             | Inr resp \<Rightarrow>
                 let w = discard_batch (en_discard env) entries w;
                     a = a\<lparr>ag_failures := 0, ag_retryAt := 0\<rparr>;
                     w = log_event (Uploaded (int (length entries)) (Accepted resp)) w
                 in applyConfig env (Config resp) (a, w))"

definition stop_event :: "faults \<Rightarrow> directory option \<Rightarrow> event" where
  "stop_event f disk = (case Stats f disk of
     Inr (count, bytes) \<Rightarrow> if 0 < count then StoppedWithSpooled count bytes else Stopped
   | Inl _ \<Rightarrow> Stopped)"

definition shutdown :: "env \<Rightarrow> state \<Rightarrow> state" where
  "shutdown env = (\<lambda>(a, w).
     let (agg, out) = agg_Flush (ag_agg a);
         (a, w) = persist_opt (en_add env) out (a\<lparr>ag_agg := agg\<rparr>, w);
         ((a, w), _) = upload env (a\<lparr>ag_retryAt := 0\<rparr>, w)
     in (a, log_event (stop_event (en_stats env) (w_disk w)) w))"

text \<open>
  A call of \<open>upload\<close>, or the one in \<open>shutdown\<close>, in which \<open>make\<close> in \<open>Peek\<close> panics.  \<open>Run\<close> does not
  survive it, whatever the handlers return then.
\<close>

definition upload_panics :: "env \<Rightarrow> state \<Rightarrow> bool" where
  "upload_panics env = (\<lambda>(a, w). \<not> en_now env < ag_retryAt a \<and>
     (case snd (Peek (en_peek env) (maxBatch a) (w_disk w)) of
        Inl e \<Rightarrow> (case e of MakePanic \<Rightarrow> True | _ \<Rightarrow> False) | Inr _ \<Rightarrow> False))"

definition shutdown_panics :: "env \<Rightarrow> state \<Rightarrow> bool" where
  "shutdown_panics env = (\<lambda>(a, w).
     let (agg, out) = agg_Flush (ag_agg a);
         (a, w) = persist_opt (en_add env) out (a\<lparr>ag_agg := agg\<rparr>, w)
     in upload_panics env (a\<lparr>ag_retryAt := 0\<rparr>, w))"

section \<open>Run\<close>

text \<open>
  A ticker fires at a period from its creation; a tick not yet received is kept, further ones are
  dropped.  A period that is not positive makes \<open>NewTicker\<close> and \<open>Reset\<close> panic.
\<close>

record ticker =
  tk_period :: duration
  tk_next :: time
  tk_ready :: bool

definition NewTicker :: "duration \<Rightarrow> time \<Rightarrow> ticker option" where
  "NewTicker d now = (if d \<le> 0 then None
     else Some \<lparr>tk_period = d, tk_next = now + d, tk_ready = False\<rparr>)"

definition ticker_at :: "time \<Rightarrow> ticker \<Rightarrow> ticker" where
  "ticker_at now tk = (if tk_next tk \<le> now
     then tk\<lparr>tk_ready := True,
       tk_next := tk_next tk + tk_period tk * ((now - tk_next tk) div tk_period tk + 1)\<rparr>
     else tk)"

datatype phase = Waiting time | Running | Returned "collect_error option" | Panicked

record run_state =
  rn_state :: state
  rn_phase :: phase
  rn_now :: time
  rn_sampler :: ticker
  rn_uploader :: ticker
  rn_cancelled :: bool

definition no_ticker :: ticker where
  "no_ticker = \<lparr>tk_period = 0, tk_next = 0, tk_ready = False\<rparr>"

text \<open>Entering the loop: the log line.\<close>

definition enter_loop :: "run_state \<Rightarrow> run_state" where
  "enter_loop r = (let (a, w) = rn_state r in
     r\<lparr>rn_phase := Running, rn_state := (a, log_event (Started (ag_Settings a)) w)\<rparr>)"

definition Run_start :: "env \<Rightarrow> time \<Rightarrow> state \<Rightarrow> run_state" where
  "Run_start env now = (\<lambda>(a, w).
     let r = \<lparr>rn_state = (a, w), rn_phase = Running, rn_now = now, rn_sampler = no_ticker,
       rn_uploader = no_ticker, rn_cancelled = False\<rparr> in
     case Collect (en_os env) (ag_Collector a) of
       Inl e \<Rightarrow> r\<lparr>rn_phase := Returned (Some e)\<rparr>
     | Inr _ \<Rightarrow>
         let a = a\<lparr>ag_agg := new_aggregator (Window (ag_Settings a))\<rparr>; r = r\<lparr>rn_state := (a, w)\<rparr> in
         (case (NewTicker (Interval (ag_Settings a)) now, NewTicker (Flush (ag_Settings a)) now) of
            (Some sampler, Some uploader) \<Rightarrow>
              let r = r\<lparr>rn_sampler := sampler, rn_uploader := uploader\<rparr>;
                  spread = Spread (en_rand env) (ag_Backoff a) (Flush (ag_Settings a))
              in if 0 < spread then r\<lparr>rn_phase := Waiting (now + spread)\<rparr> else enter_loop r
          | _ \<Rightarrow> r\<lparr>rn_phase := Panicked\<rparr>))"

text \<open>
  What can happen next: time passes, the context is cancelled, the spread is over, a ticker is
  received, or the cancellation is.  \<open>None\<close> means that it cannot happen in this state.
\<close>

datatype action = Pass time | Cancel | SpreadOver | SampleTick env | UploadTick env | Stop env

definition run_act :: "action \<Rightarrow> run_state \<Rightarrow> run_state option" where
  "run_act act r =
     (case rn_phase r of Returned _ \<Rightarrow> None | Panicked \<Rightarrow> None
      | ph \<Rightarrow>
       (case act of
          Pass t \<Rightarrow> if rn_now r \<le> t
            then Some (r\<lparr>rn_now := t, rn_sampler := ticker_at t (rn_sampler r),
              rn_uploader := ticker_at t (rn_uploader r)\<rparr>) else None
        | Cancel \<Rightarrow> Some (r\<lparr>rn_cancelled := True\<rparr>)
        | SpreadOver \<Rightarrow> (case ph of Waiting t \<Rightarrow> if t \<le> rn_now r then Some (enter_loop r) else None
            | _ \<Rightarrow> None)
        | SampleTick env \<Rightarrow> if ph = Running \<and> tk_ready (rn_sampler r)
            then Some (r\<lparr>rn_sampler := (rn_sampler r)\<lparr>tk_ready := False\<rparr>,
              rn_state := sample env (rn_state r)\<rparr>) else None
        | UploadTick env \<Rightarrow> if ph = Running \<and> tk_ready (rn_uploader r)
            then if upload_panics env (rn_state r) then Some (r\<lparr>rn_phase := Panicked\<rparr>)
              else let r = r\<lparr>rn_uploader := (rn_uploader r)\<lparr>tk_ready := False\<rparr>\<rparr>;
                     (s, changed) = upload env (rn_state r); r = r\<lparr>rn_state := s\<rparr> in
              if \<not> changed then Some r
              else (case (NewTicker (Interval (ag_Settings (fst s))) (rn_now r),
                    NewTicker (Flush (ag_Settings (fst s))) (rn_now r)) of
                 (Some sampler, Some uploader) \<Rightarrow>
                   Some (r\<lparr>rn_sampler := sampler, rn_uploader := uploader\<rparr>)
               | _ \<Rightarrow> Some (r\<lparr>rn_phase := Panicked\<rparr>))
            else None
        | Stop env \<Rightarrow> if rn_cancelled r
            then if shutdown_panics env (rn_state r) then Some (r\<lparr>rn_phase := Panicked\<rparr>)
              else Some (r\<lparr>rn_state := shutdown env (rn_state r), rn_phase := Returned None\<rparr>) else None))"

inductive run_reach :: "run_state \<Rightarrow> run_state \<Rightarrow> bool" for r0 where
  run_refl: "run_reach r0 r0"
| run_step: "run_reach r0 r \<Longrightarrow> run_act act r = Some r' \<Longrightarrow> run_reach r0 r'"

section \<open>The queue behind the agent\<close>

definition disk_ok :: "directory option \<Rightarrow> bool" where
  "disk_ok disk \<longleftrightarrow> (case disk of None \<Rightarrow> True | Some d \<Rightarrow> dir_ok d)"

definition disk_queue :: "directory option \<Rightarrow> Entry list" where
  "disk_queue disk = (case disk of None \<Rightarrow> [] | Some d \<Rightarrow> queue_of d)"

lemma disk_simps [simp]:
  "disk_ok None" "disk_ok (Some d) = dir_ok d" "disk_queue None = []" "disk_queue (Some d) = queue_of d"
  by (simp_all add: disk_ok_def disk_queue_def)

lemma Peek_disk:
  assumes "disk_ok disk" "0 \<le> n"
  shows "disk_ok (fst (Peek f n disk)) \<and> disk_queue (fst (Peek f n disk)) = disk_queue disk
    \<and> (\<forall>es. snd (Peek f n disk) = Inr es \<longrightarrow> es = take (nat n) (disk_queue disk))
    \<and> (\<not> ft_readdir f \<and> (\<forall>nm. \<not> ft_read f nm) \<longrightarrow> (\<exists>es. snd (Peek f n disk) = Inr es))"
proof (cases disk)
  case None
  with assms(2) show ?thesis by (simp add: Peek_def files_def)
next
  case (Some d)
  then have d: "dir_ok d" using assms(1) by simp
  obtain d' where "fst (Peek f n (Some d)) = Some d'" "dir_ok d'" "queue_of d' = queue_of d"
    "\<forall>es. snd (Peek f n (Some d)) = Inr es \<longrightarrow> es = take (nat n) (queue_of d)"
    "\<not> ft_readdir f \<and> (\<forall>nm. \<not> ft_read f nm) \<longrightarrow> (\<exists>es. snd (Peek f n (Some d)) = Inr es)"
    using Peek_queue [OF d assms(2), of f] by (elim exE conjE)
  with Some show ?thesis by simp
qed

lemma Discard_queue:
  assumes "dir_ok d"
  shows "\<exists>d' k. fst (Discard f (take n (queue_of d)) (Some d)) = Some d' \<and> dir_ok d'
    \<and> k \<le> length (take n (queue_of d)) \<and> queue_of d' = drop k (queue_of d)
    \<and> (snd (Discard f (take n (queue_of d)) (Some d)) = None \<longleftrightarrow> k = length (take n (queue_of d)))"
  by (rule Discard_take [OF assms refl])

lemma Discard_disk:
  assumes "disk_ok disk"
  shows "\<exists>k. disk_ok (fst (Discard f (take n (disk_queue disk)) disk))
    \<and> k \<le> length (take n (disk_queue disk))
    \<and> disk_queue (fst (Discard f (take n (disk_queue disk)) disk)) = drop k (disk_queue disk)
    \<and> (snd (Discard f (take n (disk_queue disk)) disk) = None \<longleftrightarrow> k = length (take n (disk_queue disk)))"
proof (cases disk)
  case None
  then show ?thesis by (simp add: Discard_def)
next
  case (Some d)
  then show ?thesis using Discard_queue [of d f n] assms by auto
qed

lemma spool_write_dir_ok: "dir_ok d \<Longrightarrow> dir_ok (last (fst (spool_write f n p d)))"
  by (auto simp: spool_write_def Let_def split: option.splits)

lemma Add_disk_ok:
  assumes "disk_ok disk"
  shows "disk_ok (fst (snd (Add f b s disk)))"
proof -
  let ?d = "case disk of None \<Rightarrow> [] | Some d \<Rightarrow> d"
  have d: "dir_ok ?d" using assms by (cases disk) (simp_all add: dir_ok_def)
  show ?thesis
  proof (cases "ft_mkdir f \<or> marshal_bucket b = None")
    case True
    with assms d show ?thesis by (auto simp: Add_def)
  next
    case False
    then obtain p where p: "marshal_bucket b = Some p" by auto
    obtain s' n where n: "spool_name s b = (s', n)" by (cases "spool_name s b")
    obtain ds r where w: "spool_write f n p ?d = (ds, r)" by (cases "spool_write f n p ?d")
    have ok: "dir_ok (last ds)" using spool_write_dir_ok [OF d, of f n p] by (simp add: w)
    obtain d' where "fst (enforceCap f s' (Some (last ds))) = Some d'" "dir_ok d'"
      using enforceCap_suffix [OF ok, of f s'] by blast
    with False p n w ok show ?thesis by (cases r) (simp_all add: Add_def)
  qed
qed

section \<open>Runs as lists of actions\<close>

fun run_acts :: "action list \<Rightarrow> run_state \<Rightarrow> run_state option" where
  "run_acts [] r = Some r"
| "run_acts (act # acts) r = (case run_act act r of None \<Rightarrow> None | Some r' \<Rightarrow> run_acts acts r')"

lemma run_acts_from: "run_acts acts r = Some r' \<Longrightarrow> run_reach r0 r \<Longrightarrow> run_reach r0 r'"
  by (induction acts arbitrary: r) (auto split: option.splits intro: run_reach.run_step)

lemma run_acts_reach: "run_acts acts r = Some r' \<Longrightarrow> run_reach r r'"
  using run_acts_from [of acts r r' r] run_reach.run_refl [of r] by simp

lemma run_reach_acts:
  assumes "run_reach r r'"
  shows "\<exists>acts. run_acts acts r = Some r'"
  using assms
proof (induction rule: run_reach.induct)
  case run_refl
  then show ?case by (intro exI [of _ "[]"]) simp
next
  case (run_step r1 act r2)
  then obtain acts where a: "run_acts acts r = Some r1" by blast
  have "run_acts (acts @ [act]) r0 = Some r2" if "run_acts acts r0 = Some r1" for r0
    using that run_step.hyps(2) by (induction acts arbitrary: r0) (auto split: option.splits)
  with a show ?case by blast
qed

section \<open>What each handler leaves alone\<close>

lemma log_event_simps [simp]:
  "w_disk (log_event e w) = w_disk w" "w_log (log_event e w) = w_log w @ [e]"
  by (simp_all add: log_event_def)

lemma fold_log [simp]:
  "w_disk (fold (\<lambda>n. log_event (g n)) ns w) = w_disk w"
  "w_log (fold (\<lambda>n. log_event (g n)) ns w) = w_log w @ map g ns"
  by (induction ns arbitrary: w) simp_all

text \<open>Storing a window changes the spool of the agent, the directory, and logs no upload.\<close>

lemma persist_frame:
  assumes "persist f b (a, w) = (a', w')"
  shows "(\<exists>s. a' = a\<lparr>ag_Spool := s\<rparr>) \<and> w_disk w' = fst (snd (Add f b (ag_Spool a) (w_disk w)))
    \<and> (\<exists>l. w_log w' = w_log w @ l \<and> (\<forall>e\<in>set l. (\<exists>n. e = DroppedOldest n) \<or> (\<exists>x. e = SpoolWriteFailed x)))"
  using assms
  by (cases "Add f b (ag_Spool a) (w_disk w)") (auto simp: persist_def Let_def split: option.splits)

lemma persist_disk_ok: "disk_ok (w_disk w) \<Longrightarrow> disk_ok (w_disk (snd (persist f b (a, w))))"
  using persist_frame [of f b a w "fst (persist f b (a, w))" "snd (persist f b (a, w))"]
  by (simp add: Add_disk_ok)

lemma discard_batch_spec:
  assumes "disk_ok (w_disk w)" and "es = take n (disk_queue (w_disk w))"
  shows "\<exists>k l. disk_ok (w_disk (discard_batch f es w)) \<and> k \<le> length es
    \<and> disk_queue (w_disk (discard_batch f es w)) = drop k (disk_queue (w_disk w))
    \<and> w_log (discard_batch f es w) = w_log w @ l
    \<and> (l = [] \<and> k = length es \<or> (\<exists>x. l = [DiscardFailed x]))"
proof -
  obtain k where k: "disk_ok (fst (Discard f es (w_disk w)))" "k \<le> length es"
    "disk_queue (fst (Discard f es (w_disk w))) = drop k (disk_queue (w_disk w))"
    "snd (Discard f es (w_disk w)) = None \<longleftrightarrow> k = length es"
    using Discard_disk [OF assms(1), of f n, folded assms(2)] by (elim exE conjE)
  then show ?thesis
    by (cases "Discard f es (w_disk w)")
      (auto simp: discard_batch_def Let_def split: option.splits)
qed

lemma discard_batch_quiet:
  assumes "disk_ok (w_disk w)" and "es = take n (disk_queue (w_disk w))" and "\<forall>nm. \<not> ft_remove f nm"
  shows "disk_queue (w_disk (discard_batch f es w)) = drop (length es) (disk_queue (w_disk w))
    \<and> w_log (discard_batch f es w) = w_log w"
proof -
  have "snd (Discard f es (w_disk w)) = None"
    using discard_loop_no_error [OF assms(3)] by (cases "w_disk w") (simp_all add: Discard_def)
  then have e: "w_log (discard_batch f es w) = w_log w"
    by (cases "Discard f es (w_disk w)") (simp add: discard_batch_def)
  show ?thesis using discard_batch_spec [OF assms(1,2), of f] e by auto
qed

section \<open>Uploads\<close>

text \<open>The batch an upload would send: the oldest windows, at most \<open>maxBatch\<close> of them.\<close>

definition batch_of :: "state \<Rightarrow> Entry list" where
  "batch_of = (\<lambda>(a, w). take (nat (maxBatch a)) (disk_queue (w_disk w)))"

lemma maxBatch_pos: "0 < maxBatch a"
  by (simp add: maxBatch_def DefaultMaxBatch_def)

lemma batch_of_Nil: "batch_of (a, w) = [] \<longleftrightarrow> disk_queue (w_disk w) = []"
  using maxBatch_pos [of a] by (auto simp: batch_of_def)

text \<open>As \<open>maxBatch\<close> is never negative, \<open>make\<close> does not panic.\<close>

lemma no_upload_panic [simp]: "\<not> upload_panics env s"
proof (cases s)
  case (Pair a w)
  have "snd (Peek (en_peek env) (maxBatch a) (w_disk w)) \<noteq> Inl MakePanic"
    by (rule Peek_no_panic) (rule less_imp_le [OF maxBatch_pos])
  then show ?thesis
    unfolding Pair upload_panics_def
    by (cases "snd (Peek (en_peek env) (maxBatch a) (w_disk w))") (simp_all split: spool_error.split)
qed

lemma no_shutdown_panic [simp]: "\<not> shutdown_panics env s"
  by (simp add: shutdown_panics_def case_prod_beta Let_def)

text \<open>The world once the batch has been read and handed to the uploader.\<close>

definition sent_world :: "env \<Rightarrow> state \<Rightarrow> world" where
  "sent_world env = (\<lambda>(a, w). log_event (Sent (map snd (batch_of (a, w))))
     (w\<lparr>w_disk := fst (Peek (en_peek env) (maxBatch a) (w_disk w))\<rparr>))"

lemma sent_world_simps:
  assumes "disk_ok (w_disk w)"
  shows "disk_ok (w_disk (sent_world env (a, w)))"
    and "disk_queue (w_disk (sent_world env (a, w))) = disk_queue (w_disk w)"
    and "w_log (sent_world env (a, w)) = w_log w @ [Sent (map snd (batch_of (a, w)))]"
  using Peek_disk [OF assms less_imp_le [OF maxBatch_pos], of "en_peek env" a]
  by (simp_all add: sent_world_def)

text \<open>An upload either sends nothing and changes nothing but the log, or sends the batch.\<close>

lemma upload_shape:
  assumes "disk_ok (w_disk w)"
  shows "(\<exists>disk l. upload env (a, w) = ((a, w\<lparr>w_disk := disk, w_log := w_log w @ l\<rparr>), False)
        \<and> disk_ok disk \<and> disk_queue disk = disk_queue (w_disk w) \<and> (l = [] \<or> (\<exists>e. l = [SpoolReadFailed e])))
    \<or> (\<not> en_now env < ag_retryAt a \<and> batch_of (a, w) \<noteq> []
       \<and> upload env (a, w) = (case en_send env (map snd (batch_of (a, w))) of
            Inl err \<Rightarrow> (handleFailure env err (batch_of (a, w)) (a, sent_world env (a, w)), False)
          | Inr resp \<Rightarrow> applyConfig env (Config resp) (a\<lparr>ag_failures := 0, ag_retryAt := 0\<rparr>,
              log_event (Uploaded (int (length (batch_of (a, w)))) (Accepted resp))
                (discard_batch (en_discard env) (batch_of (a, w)) (sent_world env (a, w))))))"
proof -
  obtain disk r where p: "Peek (en_peek env) (maxBatch a) (w_disk w) = (disk, r)"
    by (cases "Peek (en_peek env) (maxBatch a) (w_disk w)")
  note pk = Peek_disk [OF assms less_imp_le [OF maxBatch_pos], of "en_peek env" a, unfolded p fst_conv snd_conv]
  have id: "w = w\<lparr>w_disk := w_disk w, w_log := w_log w @ []\<rparr>" by simp
  show ?thesis
  proof (cases "en_now env < ag_retryAt a")
    case True
    then have "upload env (a, w) = ((a, w), False)" by (simp add: upload_def)
    then show ?thesis using assms id by (intro disjI1 exI [of _ "w_disk w"] exI [of _ "[]"]) simp
  next
    case go: False
    show ?thesis
    proof (cases r)
      case (Inl e)
      then have "upload env (a, w) = ((a, w\<lparr>w_disk := disk, w_log := w_log w @ [SpoolReadFailed e]\<rparr>), False)"
        using go by (simp add: upload_def p log_event_def)
      then show ?thesis using pk by (intro disjI1 exI [of _ disk] exI [of _ "[SpoolReadFailed e]"]) simp
    next
      case (Inr es)
      then have es: "es = batch_of (a, w)" using pk by (simp add: batch_of_def)
      show ?thesis
      proof (cases "es = []")
        case True
        then have "upload env (a, w) = ((a, w\<lparr>w_disk := disk, w_log := w_log w @ []\<rparr>), False)"
          using go Inr by (simp add: upload_def p)
        then show ?thesis using pk by (intro disjI1 exI [of _ disk] exI [of _ "[]"]) simp
      next
        case False
        then show ?thesis
          using go Inr es by (intro disjI2) (simp add: upload_def p sent_world_def Let_def split: sum.splits)
      qed
    qed
  qed
qed

text \<open>
  An upload removes a window from the spool only if that window was part of the batch it just
  sent and the platform acknowledged the batch or refused it for good; what it removes is a prefix
  of the queue.  Only the adoption of a new configuration can follow.
\<close>

theorem upload_removes_only_settled:
  assumes "disk_ok (w_disk w)" and "upload env (a, w) = ((a', w'), changed)"
  shows "\<exists>k w1. disk_ok (w_disk w1) \<and> k \<le> length (batch_of (a, w))
     \<and> disk_queue (w_disk w1) = drop k (disk_queue (w_disk w))
     \<and> (0 < k \<longrightarrow> Sent (map snd (batch_of (a, w))) \<in> set (w_log w1)
          \<and> (\<forall>e. en_send env (map snd (batch_of (a, w))) = Inl e \<longrightarrow> error_kind e = Rejected))
     \<and> (w' = w1 \<or> (\<exists>a1 resp. en_send env (map snd (batch_of (a, w))) = Inr resp
          \<and> applyConfig env (Config resp) (a1, w1) = ((a', w'), changed)))"
proof -
  let ?b = "batch_of (a, w)" and ?w = "sent_world env (a, w)"
  note sw = sent_world_simps [OF assms(1), of env a]
  have b: "?b = take (nat (maxBatch a)) (disk_queue (w_disk ?w))" by (simp add: sw batch_of_def)
  from upload_shape [OF assms(1), of env a] show ?thesis
  proof (rule disjE, goal_cases)
    case 1
    then obtain disk l where "upload env (a, w) = ((a, w\<lparr>w_disk := disk, w_log := w_log w @ l\<rparr>), False)"
      "disk_ok disk" "disk_queue disk = disk_queue (w_disk w)" by (elim exE conjE)
    with assms(2) show ?thesis by (intro exI [of _ 0] exI [of _ w']) auto
  next
    case 2
    then have u: "upload env (a, w) = (case en_send env (map snd ?b) of
            Inl err \<Rightarrow> (handleFailure env err ?b (a, ?w), False)
          | Inr resp \<Rightarrow> applyConfig env (Config resp) (a\<lparr>ag_failures := 0, ag_retryAt := 0\<rparr>,
              log_event (Uploaded (int (length ?b)) (Accepted resp)) (discard_batch (en_discard env) ?b ?w)))"
      by (elim conjE)
    show ?thesis
    proof (cases "en_send env (map snd ?b)")
      case (Inr resp)
      let ?w1 = "log_event (Uploaded (int (length ?b)) (Accepted resp)) (discard_batch (en_discard env) ?b ?w)"
      obtain k l where "disk_ok (w_disk (discard_batch (en_discard env) ?b ?w))" "k \<le> length ?b"
        "disk_queue (w_disk (discard_batch (en_discard env) ?b ?w)) = drop k (disk_queue (w_disk ?w))"
        "w_log (discard_batch (en_discard env) ?b ?w) = w_log ?w @ l"
        using discard_batch_spec [OF sw(1) b, of "en_discard env"] by blast
      with u Inr assms(2) sw show ?thesis
        by (intro exI [of _ k] exI [of _ ?w1]) (auto intro!: exI)
    next
      case (Inl e)
      then have h: "handleFailure env e ?b (a, ?w) = (a', w')" using u assms(2) by simp
      show ?thesis
      proof (cases "error_kind e = Rejected")
        case True
        let ?wr = "log_event (WindowsRejected (int (length ?b))) ?w"
        have b': "?b = take (nat (maxBatch a)) (disk_queue (w_disk ?wr))" using b by simp
        have "disk_ok (w_disk ?wr)" using sw by simp
        from discard_batch_spec [OF this b', of "en_discard env"] obtain k l where
          "disk_ok (w_disk (discard_batch (en_discard env) ?b ?wr))" "k \<le> length ?b"
          "disk_queue (w_disk (discard_batch (en_discard env) ?b ?wr)) = drop k (disk_queue (w_disk ?wr))"
          "w_log (discard_batch (en_discard env) ?b ?wr) = w_log ?wr @ l" by blast
        moreover have "w' = discard_batch (en_discard env) ?b ?wr"
          using h True by (simp add: handleFailure_def Let_def)
        ultimately show ?thesis using Inl True sw by (intro exI [of _ k] exI [of _ w']) simp
      next
        case False
        then have "w_disk w' = w_disk ?w"
          using h by (auto simp: handleFailure_def Let_def split: Kind.splits)
        then show ?thesis using sw by (intro exI [of _ 0] exI [of _ w']) simp
      qed
    qed
  qed
qed

text \<open>Nothing in the way of an upload: no wait, no fault, and something to send.\<close>

definition can_upload :: "env \<Rightarrow> state \<Rightarrow> bool" where
  "can_upload env = (\<lambda>(a, w). disk_ok (w_disk w) \<and> \<not> en_now env < ag_retryAt a \<and> disk_queue (w_disk w) \<noteq> []
     \<and> \<not> ft_readdir (en_peek env) \<and> (\<forall>nm. \<not> ft_read (en_peek env) nm)
     \<and> (\<forall>nm. \<not> ft_remove (en_discard env) nm))"

lemma upload_goes:
  assumes "can_upload env (a, w)"
  shows "upload env (a, w) = (case en_send env (map snd (batch_of (a, w))) of
            Inl err \<Rightarrow> (handleFailure env err (batch_of (a, w)) (a, sent_world env (a, w)), False)
          | Inr resp \<Rightarrow> applyConfig env (Config resp) (a\<lparr>ag_failures := 0, ag_retryAt := 0\<rparr>,
              log_event (Uploaded (int (length (batch_of (a, w)))) (Accepted resp))
                (discard_batch (en_discard env) (batch_of (a, w)) (sent_world env (a, w)))))"
proof -
  have ok: "disk_ok (w_disk w)" and q: "disk_queue (w_disk w) \<noteq> []" and t: "\<not> en_now env < ag_retryAt a"
    using assms by (simp_all add: can_upload_def)
  note pk = Peek_disk [OF ok less_imp_le [OF maxBatch_pos], of "en_peek env" a]
  from pk assms obtain es where "snd (Peek (en_peek env) (maxBatch a) (w_disk w)) = Inr es"
    by (auto simp: can_upload_def)
  moreover from this pk have es: "es = batch_of (a, w)" by (simp add: batch_of_def)
  moreover have "es \<noteq> []" using q unfolding es by (simp add: batch_of_Nil)
  ultimately show ?thesis
    using t by (cases "Peek (en_peek env) (maxBatch a) (w_disk w)")
      (simp add: upload_def sent_world_def Let_def split: sum.splits)
qed

lemma batch_sent_world:
  assumes "disk_ok (w_disk w)"
  shows "batch_of (a, w) = take (nat (maxBatch a)) (disk_queue (w_disk (sent_world env (a, w))))"
  using sent_world_simps(2) [OF assms, of env a] by (simp add: batch_of_def)

section \<open>Example\<close>

text \<open>A machine, an agent with one window queued, and a world in which nothing fails.\<close>

definition example_os :: osenv where
  "example_os = \<lparr>os_ReadFile = (\<lambda>root rel.
     if rel = ''stat'' then Some ''cpu 1 2 3 4 5 6 7 8''
     else if rel = ''meminfo'' then Some example_meminfo
     else if rel = ''loadavg'' then Some ''0.5 0.25 1''
     else if rel = ''uptime'' then Some ''90.5''
     else if rel = ''sys/kernel/random/boot_id'' then Some ''boot-1'' else Some []),
   os_Statfs = (\<lambda>_. Inr \<lparr>st_Bsize = 4096, st_Blocks = 100, st_Bfree = 40\<rparr>), os_Now = unix_epoch\<rparr>"

definition calm_env :: "(Bucket list \<Rightarrow> upload_error + response) \<Rightarrow> env" where
  "calm_env send = \<lparr>en_os = example_os, en_add = no_faults ''7'', en_now = 5, en_peek = no_faults ''7'',
     en_send = send, en_fail_now = 5, en_rand = (\<lambda>n. n - 1), en_discard = no_faults ''7'',
     en_config_add = no_faults ''7'', en_stats = no_faults ''7''\<rparr>"

definition example_agent :: Agent where
  "example_agent = \<lparr>ag_Collector = plain_collector, ag_Spool = example_spool,
     ag_Settings = \<lparr>Interval = second, Flush = minute, Window = 10 * second\<rparr>,
     ag_Backoff = \<lparr>Base = 0, Cap = 0, Rand = None\<rparr>, ag_MaxBatch = 0,
     ag_agg = new_aggregator (10 * second), ag_failures = 0, ag_retryAt = 0\<rparr>"

definition example_world :: world where
  "example_world = \<lparr>w_disk = Some example_dir, w_log = []\<rparr>"

definition accepting :: "Bucket list \<Rightarrow> upload_error + response" where
  "accepting bs = Inr zero_response"

definition refusing :: "Bucket list \<Rightarrow> upload_error + response" where
  "refusing bs = Inl (ShipError (ship_fail Unauthorized 401 ''upload refused''))"

lemma example_world_simps:
  "w_log example_world = []" "disk_queue (w_disk example_world) = [(''b.json'', new_bucket 0 0)]"
  by (simp_all add: example_world_def example_dir_facts)

lemma example_batch: "batch_of (example_agent, example_world) = [(''b.json'', new_bucket 0 0)]"
  by (simp add: batch_of_def example_world_def example_agent_def example_dir_facts maxBatch_def DefaultMaxBatch_def)

lemma example_can_upload: "can_upload (calm_env send) (example_agent, example_world)"
  by (simp add: can_upload_def calm_env_def example_agent_def example_world_def example_dir_facts no_faults_def)

lemma example_disk_ok: "disk_ok (w_disk example_world)"
  by (simp add: example_world_def example_dir_facts)

lemma example_collects: "\<exists>s. Collect example_os plain_collector = Inr s"
proof -
  have "case Collect example_os plain_collector of Inr _ \<Rightarrow> True | Inl _ \<Rightarrow> False" by code_simp
  then show ?thesis by (simp split: sum.splits)
qed

theorem upload_removes_only_settled_witness:
  "disk_queue (w_disk (snd (fst (upload (calm_env refusing) (example_agent, example_world)))))
     = [(''b.json'', new_bucket 0 0)]"
proof -
  obtain a' w' ch where u: "upload (calm_env refusing) (example_agent, example_world) = ((a', w'), ch)"
    by (metis surj_pair)
  have "en_send (calm_env refusing) bs = Inl (ShipError (ship_fail Unauthorized 401 ''upload refused''))" for bs
    by (simp add: calm_env_def refusing_def)
  then show ?thesis
    using upload_removes_only_settled [OF example_disk_ok u]
    by (auto simp: u error_kind_def ship_fail_def example_world_simps)
qed

lemma upload_fails:
  assumes "can_upload env (a, w)" and "en_send env (map snd (batch_of (a, w))) = Inl e"
    and "uniform_source (en_rand env)" and "\<forall>r. Rand (ag_Backoff a) = Some r \<longrightarrow> uniform_source r"
    and "backoff_base (ag_Backoff a) < backoff_max (ag_Backoff a)"
    and "backoff_max (ag_Backoff a) \<le> 4611686018427387904"
  shows "\<exists>t w'. upload env (a, w) = ((a\<lparr>ag_failures := i64 (ag_failures a + 1), ag_retryAt := t\<rparr>, w'), False)
     \<and> en_fail_now env \<le> t \<and> t < en_fail_now env + backoff_max (ag_Backoff a)
     \<and> disk_queue (w_disk w') = (if error_kind e = Rejected
          then drop (length (batch_of (a, w))) (disk_queue (w_disk w)) else disk_queue (w_disk w))"
proof -
  have ok: "disk_ok (w_disk w)" and rm: "\<forall>nm. \<not> ft_remove (en_discard env) nm"
    using assms(1) by (simp_all add: can_upload_def)
  let ?b = "batch_of (a, w)" and ?w = "sent_world env (a, w)"
  let ?n = "i64 (ag_failures a + 1)"
  note sw = sent_world_simps [OF ok, of env a]
  have d: "0 \<le> Delay (en_rand env) (ag_Backoff a) ?n" "Delay (en_rand env) (ag_Backoff a) ?n < backoff_max (ag_Backoff a)"
    using Delay_range [OF assms(3-6), of ?n] by auto
  have h: "upload env (a, w) = (handleFailure env e ?b (a, ?w), False)"
    using upload_goes [OF assms(1)] assms(2) by simp
  let ?wr = "log_event (WindowsRejected (int (length ?b))) ?w"
  have "disk_queue (w_disk (discard_batch (en_discard env) ?b ?wr)) = drop (length ?b) (disk_queue (w_disk ?wr))"
    using discard_batch_quiet [OF _ _ rm, of ?wr ?b "nat (maxBatch a)"] sw(1) batch_sent_world [OF ok, of a env] by simp
  then show ?thesis
    using d sw unfolding h
    by (intro exI [of _ "en_fail_now env + Delay (en_rand env) (ag_Backoff a) ?n"]
        exI [of _ "snd (handleFailure env e ?b (a, ?w))"])
      (cases "error_kind e"; simp add: handleFailure_def Let_def)
qed

text \<open>
  C26.  A failed upload counts one more failure and sets the next attempt at most the backoff's cap
  ahead.  It drops the batch, the whole batch and nothing else, only when the platform rejected it
  for good; a network error, a fault of the platform or a refused token keeps every window.
\<close>

theorem upload_failure:
  assumes "can_upload env (a, w)" and "en_send env (map snd (batch_of (a, w))) = Inl e"
    and "uniform_source (en_rand env)" and "\<forall>r. Rand (ag_Backoff a) = Some r \<longrightarrow> uniform_source r"
    and "backoff_base (ag_Backoff a) < backoff_max (ag_Backoff a)"
    and "backoff_max (ag_Backoff a) \<le> 4611686018427387904"
  shows "\<exists>t w'. upload env (a, w) = ((a\<lparr>ag_failures := i64 (ag_failures a + 1), ag_retryAt := t\<rparr>, w'), False)
     \<and> en_fail_now env \<le> t \<and> t < en_fail_now env + backoff_max (ag_Backoff a)
     \<and> disk_queue (w_disk w') = (if error_kind e = Rejected
          then drop (length (batch_of (a, w))) (disk_queue (w_disk w)) else disk_queue (w_disk w))"
  using assms by (rule upload_fails)

theorem upload_failure_witness:
  "\<exists>a' w'. upload (calm_env refusing) (example_agent, example_world) = ((a', w'), False)
     \<and> ag_failures a' = 1 \<and> 5 \<le> ag_retryAt a' \<and> ag_retryAt a' < 5 + 15 * minute
     \<and> disk_queue (w_disk w') = [(''b.json'', new_bucket 0 0)]"
proof -
  let ?e = "ShipError (ship_fail Unauthorized 401 ''upload refused'')"
  have r: "uniform_source (en_rand (calm_env send))" for send
    by (simp add: calm_env_def uniform_source_def)
  have b: "backoff_base (ag_Backoff example_agent) < backoff_max (ag_Backoff example_agent)"
    "backoff_max (ag_Backoff example_agent) \<le> 4611686018427387904"
    "backoff_max (ag_Backoff example_agent) = 15 * minute"
    by (simp_all add: example_agent_def backoff_base_def backoff_max_def DefaultBase_def DefaultCap_def duration_defs)
  show ?thesis
    using upload_failure [OF example_can_upload, of refusing ?e] r b
    by (auto simp: example_batch) (auto simp: example_agent_def example_world_simps calm_env_def refusing_def
        error_kind_def ship_fail_def)
qed

definition zero_config :: config where
  "zero_config = \<lparr>IntervalSeconds = 0, FlushSeconds = 0, WindowSeconds = 0\<rparr>"

lemma applyConfig_zero: "applyConfig env zero_config (a, w) = ((a, w), False)"
  by (simp add: applyConfig_def Apply_def config_fields_def zero_config_def)

text \<open>
  An acknowledged upload removes exactly the batch it sent, the oldest windows, and ends the
  backoff: the next upload is not delayed.
\<close>

lemma upload_acknowledged:
  assumes "can_upload env (a, w)" and "en_send env (map snd (batch_of (a, w))) = Inr resp"
    and "Config resp = zero_config"
  shows "\<exists>w'. upload env (a, w) = ((a\<lparr>ag_failures := 0, ag_retryAt := 0\<rparr>, w'), False)
     \<and> disk_ok (w_disk w') \<and> disk_queue (w_disk w') = drop (nat (maxBatch a)) (disk_queue (w_disk w))
     \<and> w_log w' = w_log w @ [Sent (map snd (batch_of (a, w))),
          Uploaded (int (length (batch_of (a, w)))) (Accepted resp)]"
proof -
  have ok: "disk_ok (w_disk w)" and rm: "\<forall>nm. \<not> ft_remove (en_discard env) nm"
    using assms(1) by (simp_all add: can_upload_def)
  let ?b = "batch_of (a, w)" and ?w = "sent_world env (a, w)"
  note sw = sent_world_simps [OF ok, of env a]
  have "disk_queue (w_disk (discard_batch (en_discard env) ?b ?w)) = drop (length ?b) (disk_queue (w_disk ?w))
      \<and> w_log (discard_batch (en_discard env) ?b ?w) = w_log ?w"
    by (rule discard_batch_quiet [OF sw(1) batch_sent_world [OF ok] rm])
  moreover have "disk_ok (w_disk (discard_batch (en_discard env) ?b ?w))"
    using discard_batch_spec [OF sw(1) batch_sent_world [OF ok]] by blast
  moreover have "drop (length ?b) (disk_queue (w_disk w)) = drop (nat (maxBatch a)) (disk_queue (w_disk w))"
    by (simp add: batch_of_def min_def)
  ultimately show ?thesis
    using upload_goes [OF assms(1)] assms(2,3) sw by (simp add: applyConfig_zero)
qed

text \<open>
  C27.  A new configuration is adopted whole or not at all.  When it changes the window width, the
  window in progress is closed and stored, and aggregation starts anew under the new width; when it
  does not, the window in progress goes on.
\<close>

theorem applyConfig_adopts:
  assumes "applyConfig env c (a, w) = ((a', w'), changed)"
  shows "(changed \<longleftrightarrow> (\<exists>next. Apply c (ag_Settings a) = (next, None) \<and> next \<noteq> ag_Settings a))
     \<and> ag_Settings a' = (if changed then fst (Apply c (ag_Settings a)) else ag_Settings a)
     \<and> ag_agg a' = (if Window (ag_Settings a') \<noteq> Window (ag_Settings a)
          then new_aggregator (Window (ag_Settings a')) else ag_agg a)
     \<and> w_disk w' = (case snd (agg_Flush (ag_agg a)) of
            Some b \<Rightarrow> if Window (ag_Settings a') \<noteq> Window (ag_Settings a)
              then fst (snd (Add (en_config_add env) b (ag_Spool a) (w_disk w))) else w_disk w
          | None \<Rightarrow> w_disk w)"
proof (cases "Apply c (ag_Settings a)")
  case (Pair s err)
  show ?thesis
  proof (cases "err = None \<and> s \<noteq> ag_Settings a \<and> Window s \<noteq> Window (ag_Settings a)")
    case False
    with Pair assms show ?thesis
      by (auto simp: applyConfig_def split: option.splits if_splits)
  next
    case True
    obtain agg out where f: "agg_Flush (ag_agg a) = (agg, out)" by (cases "agg_Flush (ag_agg a)")
    show ?thesis
    proof (cases out)
      case None
      with True Pair assms f show ?thesis by (auto simp: applyConfig_def persist_opt_def)
    next
      case (Some b)
      obtain a1 w1 where p: "persist (en_config_add env) b (a\<lparr>ag_agg := agg\<rparr>, w) = (a1, w1)"
        by (cases "persist (en_config_add env) b (a\<lparr>ag_agg := agg\<rparr>, w)")
      with persist_frame [OF p] True Some Pair assms f show ?thesis
        by (auto simp: applyConfig_def persist_opt_def)
    qed
  qed
qed

theorem applyConfig_adopts_witness:
  "\<exists>a' w'. applyConfig (calm_env accepting) \<lparr>IntervalSeconds = 0, FlushSeconds = 0, WindowSeconds = 30\<rparr>
       (example_agent, example_world) = ((a', w'), True)
     \<and> ag_Settings a' = \<lparr>Interval = second, Flush = minute, Window = 30 * second\<rparr>
     \<and> ag_agg a' = new_aggregator (30 * second)"
proof -
  let ?c = "\<lparr>IntervalSeconds = 0, FlushSeconds = 0, WindowSeconds = 30\<rparr>"
  obtain a' w' ch where ap: "applyConfig (calm_env accepting) ?c (example_agent, example_world) = ((a', w'), ch)"
    by (metis surj_pair)
  have "Apply ?c (ag_Settings example_agent) = (\<lparr>Interval = second, Flush = minute, Window = 30 * second\<rparr>, None)"
    "ag_Settings example_agent = \<lparr>Interval = second, Flush = minute, Window = 10 * second\<rparr>"
    by (simp_all add: example_agent_def Apply_def config_fields_def bound_defs)
  with applyConfig_adopts [OF ap] ap show ?thesis by (simp add: second_def)
qed

section \<open>What holds throughout a run\<close>

text \<open>
  The directory is a directory, the periods are positive, and the aggregator works with the window
  of the settings.
\<close>

definition state_ok :: "state \<Rightarrow> bool" where
  "state_ok = (\<lambda>(a, w). disk_ok (w_disk w) \<and> 0 < Interval (ag_Settings a) \<and> 0 < Flush (ag_Settings a)
     \<and> agg_Window (ag_agg a) = Window (ag_Settings a))"

lemma agg_Add_window: "agg_Window (fst (agg_Add s a)) = agg_Window a"
  by (auto simp: agg_Add_def agg_Flush_def Let_def split: option.splits)

lemma agg_Flush_window: "agg_Flush a = (a', out) \<Longrightarrow> agg_Window a' = agg_Window a"
  by (auto simp: agg_Flush_def)

lemma new_aggregator_window [simp]: "agg_Window (new_aggregator d) = d"
  by (simp add: new_aggregator_def)

lemma Apply_positive:
  "0 < Interval s \<Longrightarrow> 0 < Flush s \<Longrightarrow> 0 < Interval (fst (Apply c s)) \<and> 0 < Flush (fst (Apply c s))"
  by (auto simp: Apply_def config_fields_def bound_defs Let_def)

lemma persist_ok: "state_ok s \<Longrightarrow> state_ok (persist f b s)"
proof (cases s)
  case (Pair a w)
  assume "state_ok s"
  then show ?thesis
    using persist_frame [of f b a w "fst (persist f b s)" "snd (persist f b s)"] Pair
    by (auto simp: state_ok_def Add_disk_ok split: prod.splits)
qed

lemma persist_opt_ok: "state_ok s \<Longrightarrow> state_ok (persist_opt f out s)"
  by (simp add: persist_opt_def persist_ok split: option.splits)

lemma sample_ok: "state_ok s \<Longrightarrow> state_ok (sample env s)"
proof (cases s)
  case (Pair a w)
  assume ok: "state_ok s"
  show ?thesis
  proof (cases "Collect (en_os env) (ag_Collector a)")
    case (Inl e)
    with ok Pair show ?thesis by (simp add: sample_def state_ok_def)
  next
    case (Inr x)
    obtain agg out where f: "agg_Add x (ag_agg a) = (agg, out)" by (cases "agg_Add x (ag_agg a)")
    have "agg_Window agg = agg_Window (ag_agg a)" using agg_Add_window [of x "ag_agg a"] f by simp
    then have "state_ok (a\<lparr>ag_agg := agg\<rparr>, w)" using ok Pair by (simp add: state_ok_def)
    with Inr f Pair show ?thesis by (simp add: sample_def persist_opt_ok)
  qed
qed

text \<open>Closing the window in progress and storing it.\<close>

lemma flush_ok:
  assumes "state_ok (a, w)" and "agg_Flush (ag_agg a) = (agg, out)"
  shows "state_ok (persist_opt f out (a\<lparr>ag_agg := agg\<rparr>, w))"
  using assms(1) agg_Flush_window [OF assms(2)] by (intro persist_opt_ok) (simp add: state_ok_def)

lemma applyConfig_ok: "state_ok s \<Longrightarrow> state_ok (fst (applyConfig env c s))"
proof (cases s)
  case (Pair a w)
  assume "state_ok s"
  then have ok: "state_ok (a, w)" using Pair by simp
  obtain n err where ap: "Apply c (ag_Settings a) = (n, err)" by (cases "Apply c (ag_Settings a)")
  have pos: "0 < Interval n" "0 < Flush n"
    using Apply_positive [of "ag_Settings a" c] ok ap by (simp_all add: state_ok_def)
  obtain agg out where f: "agg_Flush (ag_agg a) = (agg, out)" by (cases "agg_Flush (ag_agg a)")
  obtain a1 w1 where p: "persist_opt (en_config_add env) out (a\<lparr>ag_agg := agg\<rparr>, w) = (a1, w1)"
    by (cases "persist_opt (en_config_add env) out (a\<lparr>ag_agg := agg\<rparr>, w)")
  have "disk_ok (w_disk w1)" using flush_ok [OF ok f, of "en_config_add env"] by (simp add: p state_ok_def)
  with ok Pair ap pos f p show ?thesis
    by (auto simp: applyConfig_def state_ok_def split: option.splits)
qed

lemma discard_batch_ok: "disk_ok (w_disk w) \<Longrightarrow> disk_ok (w_disk (discard_batch f es w))"
proof -
  assume ok: "disk_ok (w_disk w)"
  have "disk_ok (fst (Discard f es disk))" if "disk_ok disk" for disk
  proof (cases disk)
    case None
    then show ?thesis by (simp add: Discard_def)
  next
    case (Some d)
    obtain k where "fst (discard_loop f es d) = del_all (fst ` set (take k es)) d"
      using discard_loop_removes by blast
    then show ?thesis using Some that by (simp add: Discard_def)
  qed
  from this [OF ok] show ?thesis
    by (cases "Discard f es (w_disk w)") (auto simp: discard_batch_def Let_def split: option.splits)
qed

lemma handleFailure_ok: "state_ok s \<Longrightarrow> state_ok (handleFailure env e es s)"
  by (cases s) (auto simp: handleFailure_def state_ok_def Let_def discard_batch_ok split: Kind.splits)

lemma upload_ok: "state_ok s \<Longrightarrow> state_ok (fst (upload env s))"
proof (cases s)
  case (Pair a w)
  assume "state_ok s"
  then have ok: "state_ok (a, w)" using Pair by simp
  then have d: "disk_ok (w_disk w)" by (simp add: state_ok_def)
  note sw = sent_world_simps [OF d, of env a]
  have h: "state_ok (fst (handleFailure env e es (a, sent_world env (a, w)), False))" for e es
    using handleFailure_ok [of "(a, sent_world env (a, w))"] ok sw by (simp add: state_ok_def)
  have c: "state_ok (fst (applyConfig env c (a\<lparr>ag_failures := 0, ag_retryAt := 0\<rparr>,
      log_event e (discard_batch f es (sent_world env (a, w))))))" for c e f es
    using ok sw discard_batch_ok [of "sent_world env (a, w)"] by (intro applyConfig_ok) (simp add: state_ok_def)
  from upload_shape [OF d, of env a] show ?thesis
  proof (rule disjE, goal_cases)
    case 1
    then obtain disk l where "upload env (a, w) = ((a, w\<lparr>w_disk := disk, w_log := w_log w @ l\<rparr>), False)"
      "disk_ok disk" by (elim exE conjE)
    with ok Pair show ?case by (simp add: state_ok_def)
  next
    case 2
    then show ?case using h c Pair by (simp split: sum.splits)
  qed
qed

lemma shutdown_ok: "state_ok s \<Longrightarrow> state_ok (shutdown env s)"
proof (cases s)
  case (Pair a w)
  assume "state_ok s"
  then have ok: "state_ok (a, w)" using Pair by simp
  obtain agg out where f: "agg_Flush (ag_agg a) = (agg, out)" by (cases "agg_Flush (ag_agg a)")
  obtain a1 w1 where p: "persist_opt (en_add env) out (a\<lparr>ag_agg := agg\<rparr>, w) = (a1, w1)"
    by (cases "persist_opt (en_add env) out (a\<lparr>ag_agg := agg\<rparr>, w)")
  have "state_ok (a1\<lparr>ag_retryAt := 0\<rparr>, w1)"
    using flush_ok [OF ok f, of "en_add env"] by (simp add: p state_ok_def)
  from upload_ok [OF this, of env] Pair f p show ?thesis
    by (auto simp: shutdown_def state_ok_def split: prod.splits)
qed

lemma state_ok_disk: "state_ok s \<Longrightarrow> disk_ok (w_disk (snd s))"
  by (simp add: state_ok_def case_prod_beta)

text \<open>The steps of a run, with what each does to the state and the phase.\<close>

lemma run_act_cases:
  assumes "run_act act r = Some r'"
  obtains (pass) t where "act = Pass t" "rn_now r \<le> t" "r' = r\<lparr>rn_now := t, rn_sampler := ticker_at t (rn_sampler r),
      rn_uploader := ticker_at t (rn_uploader r)\<rparr>"
    | (cancel) "act = Cancel" "r' = r\<lparr>rn_cancelled := True\<rparr>"
    | (enter) t where "rn_phase r = Waiting t" "t \<le> rn_now r" "r' = enter_loop r" "act = SpreadOver"
    | (sample) env where "rn_phase r = Running" "r' = r\<lparr>rn_sampler := (rn_sampler r)\<lparr>tk_ready := False\<rparr>,
        rn_state := sample env (rn_state r)\<rparr>" "act = SampleTick env"
    | (upload) env s where "rn_phase r = Running" "tk_ready (rn_uploader r)" "upload env (rn_state r) = (s, False)"
        "r' = r\<lparr>rn_uploader := (rn_uploader r)\<lparr>tk_ready := False\<rparr>, rn_state := s\<rparr>" "act = UploadTick env"
    | (reset) env s where "rn_phase r = Running" "tk_ready (rn_uploader r)" "upload env (rn_state r) = (s, True)"
        "r' = (case (NewTicker (Interval (ag_Settings (fst s))) (rn_now r),
                    NewTicker (Flush (ag_Settings (fst s))) (rn_now r)) of
                 (Some sampler, Some uploader) \<Rightarrow> r\<lparr>rn_state := s, rn_sampler := sampler, rn_uploader := uploader\<rparr>
               | _ \<Rightarrow> r\<lparr>rn_uploader := (rn_uploader r)\<lparr>tk_ready := False\<rparr>, rn_state := s, rn_phase := Panicked\<rparr>)" "act = UploadTick env"
    | (stop) env where "rn_cancelled r" "r' = r\<lparr>rn_state := shutdown env (rn_state r), rn_phase := Returned None\<rparr>"
        "act = Stop env"
proof (cases act)
  case (Pass t)
  with assms show thesis by (intro pass) (auto simp: run_act_def split: phase.splits if_splits)
next
  case Cancel
  with assms show thesis by (intro cancel) (auto simp: run_act_def split: phase.splits)
next
  case SpreadOver
  with assms show thesis by (auto simp: run_act_def split: phase.splits if_splits intro: enter)
next
  case (SampleTick env)
  with assms have "rn_phase r = Running" "r' = r\<lparr>rn_sampler := (rn_sampler r)\<lparr>tk_ready := False\<rparr>,
        rn_state := sample env (rn_state r)\<rparr>"
    by (auto simp: run_act_def split: phase.splits if_splits)
  then show thesis using SampleTick by (rule sample)
next
  case (UploadTick env)
  with assms have ph: "rn_phase r = Running" "tk_ready (rn_uploader r)"
    by (auto simp: run_act_def split: phase.splits if_splits)
  obtain s ch where u: "upload env (rn_state r) = (s, ch)" by (cases "upload env (rn_state r)")
  show thesis
  proof (cases ch)
    case False
    with u ph UploadTick assms show thesis by (intro upload [of env s]) (simp_all add: run_act_def)
  next
    case True
    with u ph UploadTick assms show thesis
      by (intro reset [of env s]) (simp_all add: run_act_def Let_def split: option.splits)
  qed
next
  case (Stop env)
  with assms show thesis by (intro stop) (auto simp: run_act_def split: phase.splits if_splits)
qed

lemma run_state_ok:
  assumes "0 < Interval (ag_Settings a)" and "0 < Flush (ag_Settings a)" and "disk_ok (w_disk w)"
    and "run_reach (Run_start env now (a, w)) r"
  shows "rn_phase r \<noteq> Panicked \<and> ((\<forall>e. rn_phase r \<noteq> Returned (Some e)) \<longrightarrow> state_ok (rn_state r))"
  using assms(4)
proof (induction rule: run_reach.induct)
  case run_refl
  then show ?case
    using assms(1-3) by (auto simp: Run_start_def NewTicker_def enter_loop_def state_ok_def Let_def split: sum.splits)
next
  case (run_step r act r')
  show ?case
    using run_step.hyps(2)
  proof (cases rule: run_act_cases)
    case (enter t)
    with run_step.IH show ?thesis by (auto simp: enter_loop_def state_ok_def case_prod_beta)
  next
    case (sample env)
    with run_step.IH show ?thesis by (auto intro: sample_ok)
  next
    case (upload env s)
    with run_step.IH upload_ok [of "rn_state r" env] show ?thesis by auto
  next
    case (reset env s)
    then have s: "state_ok s" using run_step.IH upload_ok [of "rn_state r" env] by auto
    then obtain tk1 tk2 where "NewTicker (Interval (ag_Settings (fst s))) (rn_now r) = Some tk1"
      "NewTicker (Flush (ag_Settings (fst s))) (rn_now r) = Some tk2"
      by (cases s) (simp add: state_ok_def NewTicker_def)
    with reset s run_step.IH show ?thesis by simp
  next
    case (stop env)
    have "rn_phase r \<noteq> Returned (Some e)" for e
      using run_step.hyps(2) by (auto simp: run_act_def)
    with stop run_step.IH shutdown_ok [of "rn_state r" env] show ?thesis by auto
  qed (use run_step.IH in auto)
qed

text \<open>
  C10.  Started with positive periods, the agent never panics, whatever the platform, the disk and
  the clock do: the configurations it adopts keep both periods positive, the aggregator always works
  with the window of the current settings, and the spool directory stays well formed.
\<close>

theorem run_never_panics:
  assumes "0 < Interval (ag_Settings a)" and "0 < Flush (ag_Settings a)" and "disk_ok (w_disk w)"
    and "run_reach (Run_start env now (a, w)) r"
  shows "rn_phase r \<noteq> Panicked
     \<and> ((\<forall>e. rn_phase r \<noteq> Returned (Some e)) \<longrightarrow> state_ok (rn_state r))"
  using assms by (rule run_state_ok)

text \<open>A minute of a run: the spread passes, the first upload is acknowledged.\<close>

definition example_start :: run_state where
  "example_start = Run_start (calm_env accepting) unix_epoch (example_agent, example_world)"

definition example_acts :: "action list" where
  "example_acts = [Pass (unix_epoch + minute), SpreadOver, UploadTick (calm_env accepting)]"

definition example_run :: run_state where
  "example_run = the (run_acts example_acts example_start)"

lemma example_run_reach: "run_reach example_start example_run"
proof -
  have "run_acts example_acts example_start \<noteq> None" by code_simp
  then show ?thesis unfolding example_run_def by (intro run_acts_reach [of example_acts]) simp
qed

lemma example_run_facts:
  "(rn_phase example_run, w_log (snd (rn_state example_run)), rn_now example_run)
    = (Running, [Started (ag_Settings example_agent), Sent [new_bucket 0 0], Uploaded 1 0], unix_epoch + minute)"
  by code_simp

lemma example_run_more: "rn_phase example_run = Running"
  "w_log (snd (rn_state example_run)) = [Started (ag_Settings example_agent), Sent [new_bucket 0 0], Uploaded 1 0]"
  "rn_now example_run = unix_epoch + minute"
  using example_run_facts by simp_all

lemma example_positive: "0 < Interval (ag_Settings example_agent)" "0 < Flush (ag_Settings example_agent)"
  "Flush (ag_Settings example_agent) = minute"
  by (simp_all add: example_agent_def duration_defs)

theorem run_never_panics_witness:
  "state_ok (rn_state example_run) \<and> w_log (snd (rn_state example_run)) \<noteq> []"
  using run_never_panics [OF example_positive(1,2) example_disk_ok example_run_reach [unfolded example_start_def]]
  by (simp add: example_run_more)

text \<open>
  The command line does not check the periods: an interval or a flush period that is not positive,
  once the first sample could be read, makes the agent panic at once.
\<close>

lemma Run_panics_on_bad_period:
  assumes "Interval (ag_Settings a) \<le> 0 \<or> Flush (ag_Settings a) \<le> 0"
    and "Collect (en_os env) (ag_Collector a) = Inr s"
  shows "rn_phase (Run_start env now (a, w)) = Panicked"
  using assms by (auto simp: Run_start_def NewTicker_def Let_def split: option.splits)

section \<open>When uploads happen\<close>

text \<open>Every handler only adds to the log, and only uploads add a batch sent.\<close>

definition log_grows :: "state \<Rightarrow> state \<Rightarrow> bool" where
  "log_grows s s' \<longleftrightarrow> (\<exists>l. w_log (snd s') = w_log (snd s) @ l)"

lemma persist_opt_log:
  "\<exists>l. w_log (snd (persist_opt f out (a, w))) = w_log w @ l \<and> (\<forall>bs. Sent bs \<notin> set l)"
proof (cases out)
  case None
  then show ?thesis by (simp add: persist_opt_def)
next
  case (Some b)
  then show ?thesis
    using persist_frame [of f b a w "fst (persist f b (a, w))" "snd (persist f b (a, w))"]
    by (fastforce simp: persist_opt_def)
qed

lemma sample_log: "\<exists>l. w_log (snd (sample env s)) = w_log (snd s) @ l \<and> (\<forall>bs. Sent bs \<notin> set l)"
proof (cases s)
  case (Pair a w)
  then show ?thesis
    using persist_opt_log [of "en_add env" _ _ w]
    by (auto simp: sample_def case_prod_beta split: sum.splits)
qed

lemma applyConfig_log:
  "log_grows s (fst (applyConfig env c s))
   \<and> (snd (applyConfig env c s) \<longrightarrow> (\<exists>n. ConfigUpdated n \<in> set (w_log (snd (fst (applyConfig env c s))))))"
proof (cases s)
  case (Pair a w)
  obtain n err where ap: "Apply c (ag_Settings a) = (n, err)" by (cases "Apply c (ag_Settings a)")
  obtain agg out where f: "agg_Flush (ag_agg a) = (agg, out)" by (cases "agg_Flush (ag_agg a)")
  obtain a1 w1 where p: "persist_opt (en_config_add env) out (a\<lparr>ag_agg := agg\<rparr>, w) = (a1, w1)"
    by (cases "persist_opt (en_config_add env) out (a\<lparr>ag_agg := agg\<rparr>, w)")
  with persist_opt_log [of "en_config_add env" out "a\<lparr>ag_agg := agg\<rparr>" w] Pair ap f show ?thesis
    by (auto simp: applyConfig_def log_grows_def split: option.splits)
qed

lemma log_grows_trans: "log_grows s s' \<Longrightarrow> log_grows s' s'' \<Longrightarrow> log_grows s s''"
  by (auto simp: log_grows_def)

lemma discard_batch_log: "\<exists>l. w_log (discard_batch f es w) = w_log w @ l"
  by (cases "Discard f es (w_disk w)") (auto simp: discard_batch_def Let_def split: option.splits)

lemma handleFailure_log: "log_grows s (handleFailure env e es s)"
proof (cases s)
  case (Pair a w)
  obtain l where "w_log (discard_batch (en_discard env) es (log_event (WindowsRejected (int (length es))) w))
      = w_log w @ l"
    using discard_batch_log [of "en_discard env" es "log_event (WindowsRejected (int (length es))) w"] by auto
  with Pair show ?thesis
    by (cases "error_kind e") (auto simp: handleFailure_def log_grows_def Let_def)
qed

lemma upload_log:
  assumes "disk_ok (w_disk (snd s))" and "upload env s = (s', changed)"
  shows "log_grows s s' \<and> (changed \<longrightarrow> (\<exists>n. ConfigUpdated n \<in> set (w_log (snd s'))))"
proof (cases s)
  case (Pair a w)
  with assms(1) have d: "disk_ok (w_disk w)" by simp
  let ?w = "sent_world env (a, w)" and ?b = "batch_of (a, w)"
  note sw = sent_world_simps [OF d, of env a]
  have g: "log_grows (a, w) (x, ?w)" for x by (simp add: log_grows_def sw)
  from upload_shape [OF d, of env a] show ?thesis
  proof (rule disjE, goal_cases)
    case 1
    with assms(2) Pair show ?case by (auto simp: log_grows_def)
  next
    case 2
    show ?case
    proof (cases "en_send env (map snd ?b)")
      case (Inl e)
      with 2 assms(2) Pair show ?thesis
        using log_grows_trans [OF g handleFailure_log] by auto
    next
      case (Inr resp)
      let ?w1 = "log_event (Uploaded (int (length ?b)) (Accepted resp)) (discard_batch (en_discard env) ?b ?w)"
      let ?s1 = "(a\<lparr>ag_failures := 0, ag_retryAt := 0\<rparr>, ?w1)"
      have "log_grows (a, ?w) ?s1"
        using discard_batch_log [of "en_discard env" ?b ?w] by (auto simp: log_grows_def)
      then have "log_grows (a, w) ?s1" using log_grows_trans [OF g] by blast
      with 2 Inr assms(2) Pair applyConfig_log [of ?s1 env "Config resp"] show ?thesis
        by (auto intro: log_grows_trans)
    qed
  qed
qed

text \<open>The instant of the next tick of a ticker made at \<open>t0\<close> with this period, as seen at \<open>now\<close>.\<close>

definition tick_after :: "time \<Rightarrow> duration \<Rightarrow> time \<Rightarrow> time" where
  "tick_after t0 d now = t0 + d * ((now - t0) div d + 1)"

lemma tick_after_start: "0 < d \<Longrightarrow> tick_after t0 d t0 = t0 + d"
  by (simp add: tick_after_def)

lemma tick_after_bounds:
  assumes "0 < d"
  shows "tick_after t0 d now - d \<le> now" and "now < tick_after t0 d now"
proof -
  have m: "now - t0 = d * ((now - t0) div d) + (now - t0) mod d" by simp
  have "0 \<le> (now - t0) mod d" "(now - t0) mod d < d" using assms by simp_all
  with m show "tick_after t0 d now - d \<le> now" and "now < tick_after t0 d now"
    unfolding tick_after_def distrib_left mult_1_right by linarith+
qed

lemma div_less_pos:
  assumes "0 < d" and "x < d * (k::int)"
  shows "x div d < k"
proof (rule ccontr)
  assume "\<not> x div d < k"
  then have "d * k \<le> d * (x div d)" using assms(1) by simp
  also have "\<dots> = x - x mod d" by (simp add: minus_mod_eq_mult_div)
  also have "\<dots> \<le> x" using assms(1) by simp
  finally show False using assms(2) by simp
qed

lemma ticker_at_schedule:
  assumes "0 < d" and "tk_period tk = d" and "tk_next tk = tick_after t0 d now" and "now \<le> t"
  shows "tk_next (ticker_at t tk) = tick_after t0 d t \<and> tk_period (ticker_at t tk) = d"
proof (cases "tk_next tk \<le> t")
  case True
  let ?k = "(now - t0) div d + 1"
  have "(t - tick_after t0 d now) div d = (t - t0 - d * ?k) div d" by (simp add: tick_after_def algebra_simps)
  also have "\<dots> = ((t - t0) + (- ?k) * d) div d" by (simp only: mult.commute [of d] diff_conv_add_uminus minus_mult_left)
  also have "\<dots> = (t - t0) div d - ?k" using assms(1) by (simp only: div_mult_self1)
  finally have "(t - tick_after t0 d now) div d = (t - t0) div d - ?k" .
  then show ?thesis using True assms by (simp add: ticker_at_def) (simp add: tick_after_def algebra_simps)
next
  case False
  have "(t - t0) div d = (now - t0) div d"
  proof (rule antisym)
    have "t - t0 < d * ((now - t0) div d + 1)" using False assms(3) by (simp add: tick_after_def)
    then have "(t - t0) div d < (now - t0) div d + 1" by (rule div_less_pos [OF assms(1)])
    then show "(t - t0) div d \<le> (now - t0) div d" by simp
    show "(now - t0) div d \<le> (t - t0) div d" using assms(1,4) by (intro zdiv_mono1) simp_all
  qed
  then show ?thesis using False assms by (simp add: ticker_at_def) (simp add: tick_after_def)
qed

definition on_schedule :: "time \<Rightarrow> duration \<Rightarrow> run_state \<Rightarrow> bool" where
  "on_schedule t0 d r \<longleftrightarrow> t0 \<le> rn_now r \<and> tk_period (rn_uploader r) = d
     \<and> tk_next (rn_uploader r) = tick_after t0 d (rn_now r)
     \<and> (tk_ready (rn_uploader r) \<longrightarrow> t0 + d \<le> rn_now r)
     \<and> (\<forall>bs. Sent bs \<in> set (w_log (snd (rn_state r))) \<longrightarrow> t0 + d \<le> rn_now r)"

lemma on_schedule_start:
  assumes "0 < Flush (ag_Settings a)" and "w_log w = []"
    and "\<forall>e. rn_phase (Run_start env t0 (a, w)) \<noteq> Returned e" "rn_phase (Run_start env t0 (a, w)) \<noteq> Panicked"
  shows "on_schedule t0 (Flush (ag_Settings a)) (Run_start env t0 (a, w))"
  using assms
  by (auto simp: Run_start_def NewTicker_def on_schedule_def tick_after_start enter_loop_def Let_def
      split: sum.splits if_splits)

definition reconfigured :: "run_state \<Rightarrow> bool" where
  "reconfigured r \<longleftrightarrow> (\<exists>n. ConfigUpdated n \<in> set (w_log (snd (rn_state r))))"

lemma on_schedule_step:
  assumes "0 < d" and "on_schedule t0 d r" and "state_ok (rn_state r)" and "run_act act r = Some r'"
    and "\<not> reconfigured r'" and "\<forall>e. rn_phase r' \<noteq> Returned e"
  shows "on_schedule t0 d r'"
  using assms(4)
proof (cases rule: run_act_cases)
  case (pass t)
  have "tk_ready (ticker_at t (rn_uploader r)) \<longrightarrow> t0 + d \<le> t"
  proof (cases "tk_next (rn_uploader r) \<le> t")
    case True
    have "t0 + d \<le> tick_after t0 d (rn_now r)"
      using assms(1,2) by (simp add: tick_after_def on_schedule_def pos_imp_zdiv_nonneg_iff distrib_left)
    with True assms(2) show ?thesis by (simp add: on_schedule_def)
  next
    case False
    with assms(2) pass(2) show ?thesis by (auto simp: ticker_at_def on_schedule_def)
  qed
  moreover have "tk_next (ticker_at t (rn_uploader r)) = tick_after t0 d t
      \<and> tk_period (ticker_at t (rn_uploader r)) = d"
    using assms(1,2) pass(2) by (intro ticker_at_schedule) (auto simp: on_schedule_def)
  ultimately show ?thesis using assms(2) pass(2,3) by (auto simp: on_schedule_def)
next
  case (enter t)
  with assms(2) show ?thesis by (auto simp: on_schedule_def enter_loop_def case_prod_beta)
next
  case (sample env)
  with assms(2) sample_log [of env "rn_state r"] show ?thesis by (auto simp: on_schedule_def)
next
  case (upload env s)
  then have "t0 + d \<le> rn_now r" using assms(2) by (simp add: on_schedule_def)
  with assms(2) upload show ?thesis by (simp add: on_schedule_def)
next
  case (reset env s)
  have "\<exists>n. ConfigUpdated n \<in> set (w_log (snd s))"
    using upload_log [OF state_ok_disk [OF assms(3)] reset(3)] by simp
  then have "reconfigured r'" using reset(4) by (auto simp: reconfigured_def split: option.splits)
  with assms(5) show ?thesis by simp
qed (use assms(2,6) in \<open>auto simp: on_schedule_def\<close>)

text \<open>A run that has not been reconfigured was not before.\<close>

lemma reconfigured_mono:
  assumes "run_act act r = Some r'" and "state_ok (rn_state r)" and "reconfigured r"
    and "\<forall>e. rn_phase r' \<noteq> Returned e"
  shows "reconfigured r'"
  using assms(1)
proof (cases rule: run_act_cases)
  case (sample env)
  with assms(3) sample_log [of env "rn_state r"] show ?thesis by (auto simp: reconfigured_def)
next
  case (upload env s)
  with assms(3) upload_log [OF state_ok_disk [OF assms(2)] upload(3)] show ?thesis
    by (auto simp: reconfigured_def log_grows_def)
next
  case (reset env s)
  have "\<exists>n. ConfigUpdated n \<in> set (w_log (snd s))"
    using upload_log [OF state_ok_disk [OF assms(2)] reset(3)] by simp
  with reset(4) show ?thesis by (auto simp: reconfigured_def split: option.splits)
qed (use assms(3,4) in \<open>auto simp: reconfigured_def enter_loop_def case_prod_beta\<close>)

lemma run_phase_back:
  "run_act act r = Some r' \<Longrightarrow> rn_phase r \<noteq> Panicked \<and> (\<forall>e. rn_phase r \<noteq> Returned e)"
  by (auto simp: run_act_def split: phase.splits)

text \<open>
  C28.  The random wait at the start is meant to spread a fleet's uploads, but it does not move
  them: the ticker is made before the wait, so until the platform changes the schedule its ticks
  fall on whole flush periods after the start of the process whatever the draw, and nothing is sent
  before the first of them.
\<close>

theorem uploads_ignore_spread:
  assumes "0 < Interval (ag_Settings a)" and "0 < Flush (ag_Settings a)" and "disk_ok (w_disk w)"
    and "w_log w = []" and "run_reach (Run_start env t0 (a, w)) r"
    and "\<not> reconfigured r" and "\<forall>e. rn_phase r \<noteq> Returned e"
  shows "tk_next (rn_uploader r) = tick_after t0 (Flush (ag_Settings a)) (rn_now r)
     \<and> (\<forall>bs. Sent bs \<in> set (w_log (snd (rn_state r))) \<longrightarrow> t0 + Flush (ag_Settings a) \<le> rn_now r)"
proof -
  have "\<not> reconfigured r \<longrightarrow> (\<forall>e. rn_phase r \<noteq> Returned e) \<longrightarrow> on_schedule t0 (Flush (ag_Settings a)) r"
    using assms(5)
  proof (induction rule: run_reach.induct)
    case run_refl
    show ?case
      using on_schedule_start [OF assms(2,4)] run_state_ok [OF assms(1-3) run_reach.run_refl] by blast
  next
    case (run_step r act r')
    note ph = run_phase_back [OF run_step.hyps(2)]
    have ok: "state_ok (rn_state r)" using run_state_ok [OF assms(1-3) run_step.hyps(1)] ph by blast
    show ?case
    proof (intro impI)
      assume a: "\<not> reconfigured r'" "\<forall>e. rn_phase r' \<noteq> Returned e"
      then have "\<not> reconfigured r" using reconfigured_mono [OF run_step.hyps(2) ok] by blast
      with ph run_step.IH have "on_schedule t0 (Flush (ag_Settings a)) r" by blast
      from on_schedule_step [OF assms(2) this ok run_step.hyps(2) a]
      show "on_schedule t0 (Flush (ag_Settings a)) r'" .
    qed
  qed
  with assms(6,7) show ?thesis by (simp add: on_schedule_def)
qed

theorem uploads_ignore_spread_witness:
  "tk_next (rn_uploader example_run) = unix_epoch + 2 * minute"
proof -
  have "\<not> reconfigured example_run" by (simp add: reconfigured_def example_run_more)
  from uploads_ignore_spread [OF example_positive(1,2) example_disk_ok example_world_simps(1)
      example_run_reach [unfolded example_start_def] this]
  show ?thesis by (simp add: example_run_more tick_after_def example_positive(3)) (simp add: minute_def)
qed

end
