(* ===== verification/Uploading.thy ===== *)
theory Uploading
  imports Agent
begin

text \<open>
  The loop and the client together.  The interface \<open>Uploader\<close> of \<open>internal/agent/agent.go\<close> is the
  locale \<open>upload_service\<close>: a function from a batch to a reply, with the one promise the loop relies on,
  that it reports success or a final refusal only for a batch that is settled.  Within the locale, a
  batch that is not settled stays in the spool.  The locale is interpreted on the client of
  \<open>internal/ship/ship.go\<close>, for which a batch is settled when it cannot be encoded, or the platform
  answered it with a decodable reply in the two hundreds or refused it for good.

  The properties: an outage of any length loses nothing, a failed batch is sent again when its wait is
  over, and once the platform answers again the backlog drains in order.
\<close>

section \<open>The interface\<close>

locale upload_service =
  fixes send :: "Bucket list \<Rightarrow> upload_error + response" and settled :: "Bucket list \<Rightarrow> bool"
  assumes send_accepted: "send bs = Inr resp \<Longrightarrow> settled bs"
    and send_refused: "send bs = Inl e \<Longrightarrow> error_kind e = Rejected \<Longrightarrow> settled bs"
begin

lemma unsettled_kept:
  assumes "disk_ok (w_disk w)" and "en_send env = send" and "\<not> settled (map snd (batch_of (a, w)))"
  shows "\<exists>n t w'. upload env (a, w) = ((a\<lparr>ag_failures := n, ag_retryAt := t\<rparr>, w'), False)
     \<and> disk_ok (w_disk w') \<and> disk_queue (w_disk w') = disk_queue (w_disk w)"
proof -
  let ?b = "batch_of (a, w)" and ?w = "sent_world env (a, w)"
  note sw = sent_world_simps [OF assms(1), of env a]
  from upload_shape [OF assms(1), of env a] show ?thesis
  proof (rule disjE, goal_cases)
    case 1
    then obtain disk l where "upload env (a, w) = ((a, w\<lparr>w_disk := disk, w_log := w_log w @ l\<rparr>), False)"
      "disk_ok disk" "disk_queue disk = disk_queue (w_disk w)" by (elim exE conjE)
    then show ?thesis
      by (intro exI [of _ "ag_failures a"] exI [of _ "ag_retryAt a"] exI [of _ "w\<lparr>w_disk := disk, w_log := w_log w @ l\<rparr>"]) simp
  next
    case 2
    obtain e where e: "send (map snd ?b) = Inl e" "error_kind e \<noteq> Rejected"
      using send_accepted send_refused assms(3) by (cases "send (map snd ?b)") auto
    with 2 assms(2) have "upload env (a, w) = (handleFailure env e ?b (a, ?w), False)" by simp
    then show ?thesis
      using e(2) sw by (cases "error_kind e") (auto simp: handleFailure_def Let_def)
  qed
qed

end

section \<open>The client as an uploader\<close>

text \<open>\<open>Uploader: client\<close>, its errors being of type \<open>*ship.Error\<close>.\<close>

definition client_uploader :: "(request \<Rightarrow> reply) \<Rightarrow> (string \<Rightarrow> string) \<Rightarrow> time \<Rightarrow> Client
    \<Rightarrow> Bucket list \<Rightarrow> upload_error + response" where
  "client_uploader http gzip now c bs = (case Send http gzip now c bs of
     Inl e \<Rightarrow> Inl (ShipError e) | Inr resp \<Rightarrow> Inr resp)"

text \<open>An answer that leaves the fate of the batch open.\<close>

definition outage :: "reply \<Rightarrow> bool" where
  "outage r = (case r of NoReply _ \<Rightarrow> True | BrokenReply _ _ \<Rightarrow> True
     | Reply status text \<Rightarrow>
         if 200 \<le> status \<and> status \<le> 299 then unmarshal_response (take maxResponseBytes text) = None
         else \<not> (400 \<le> status \<and> status < 500) \<or> status \<in> {401, 403, 429})"

definition batch_settled :: "(request \<Rightarrow> reply) \<Rightarrow> (string \<Rightarrow> string) \<Rightarrow> time \<Rightarrow> Client \<Rightarrow> Bucket list \<Rightarrow> bool" where
  "batch_settled http gzip now c bs =
     (case encode gzip \<lparr>Agent_version = Version c, SentAt = now, Buckets = bs\<rparr> of
        None \<Rightarrow> True
      | Some body \<Rightarrow> url_Parse (Endpoint c) \<noteq> None \<and> \<not> outage (http (upload_request c body)))"

lemma client_settles:
  "client_uploader http gzip now c bs = Inr resp \<Longrightarrow> batch_settled http gzip now c bs"
  "client_uploader http gzip now c bs = Inl e \<Longrightarrow> error_kind e = Rejected \<Longrightarrow> batch_settled http gzip now c bs"
  by (auto simp: client_uploader_def Send_def batch_settled_def outage_def Let_def ship_fail_def
      classify_def error_kind_def split: option.splits reply.splits sum.splits if_splits)

interpretation client_up: upload_service "client_uploader http gzip now c" "batch_settled http gzip now c"
  for http gzip now c
  by unfold_locales (rule client_settles; assumption)+

section \<open>An outage\<close>

fun uploads :: "env list \<Rightarrow> state \<Rightarrow> state" where
  "uploads [] s = s"
| "uploads (env # envs) s = uploads envs (fst (upload env s))"

text \<open>The batch an upload sends can be written: its windows can, and the instant has a year of four digits.\<close>

lemma enc_list_some: "\<forall>x\<in>set xs. e x \<noteq> None \<Longrightarrow> enc_list e xs \<noteq> None"
  by (induction xs) (auto split: option.splits)

lemma encode_some:
  "fmt_time now \<noteq> None \<Longrightarrow> \<forall>b\<in>set bs. bucket_json b \<noteq> None \<Longrightarrow>
     \<exists>body. encode gzip \<lparr>Agent_version = v, SentAt = now, Buckets = bs\<rparr> = Some body"
  using enc_list_some [of bs bucket_json] by (auto simp: encode_def batch_json_def)

text \<open>An environment in which the agent has the client and every request of the client meets an outage.\<close>

definition down :: "string \<Rightarrow> string \<Rightarrow> Client \<Rightarrow> env \<Rightarrow> bool" where
  "down endpoint token c env \<longleftrightarrow> (\<exists>http gzip now. en_send env = client_uploader http gzip now c
     \<and> fmt_time now \<noteq> None
     \<and> (\<forall>req. URL req = endpoint \<and> Method req = ''POST''
          \<and> map_of (Headers req) ''Authorization'' = Some (''Bearer '' @ token) \<longrightarrow> outage (http req)))"

lemma upload_down:
  assumes "New endpoint token version = Inr c" and "down endpoint token c env" and "disk_ok (w_disk w)"
    and "\<forall>e\<in>set (disk_queue (w_disk w)). bucket_json (snd e) \<noteq> None"
  shows "\<exists>n t w'. upload env (a, w) = ((a\<lparr>ag_failures := n, ag_retryAt := t\<rparr>, w'), False)
     \<and> disk_ok (w_disk w') \<and> disk_queue (w_disk w') = disk_queue (w_disk w)"
proof -
  obtain http gzip now where d: "en_send env = client_uploader http gzip now c" "fmt_time now \<noteq> None"
    "\<And>req. URL req = endpoint \<Longrightarrow> Method req = ''POST'' \<Longrightarrow>
       map_of (Headers req) ''Authorization'' = Some (''Bearer '' @ token) \<Longrightarrow> outage (http req)"
    using assms(2) unfolding down_def by blast
  have c: "Endpoint c = endpoint" "Token c = token"
    using assms(1) by (auto simp: New_def split: option.splits if_splits)
  let ?bs = "map snd (batch_of (a, w))"
  have "\<forall>b\<in>set ?bs. bucket_json b \<noteq> None"
    using assms(4) by (auto simp: batch_of_def dest: in_set_takeD)
  from encode_some [OF d(2) this] obtain body where
    "encode gzip \<lparr>Agent_version = Version c, SentAt = now, Buckets = ?bs\<rparr> = Some body" by blast
  moreover have "outage (http (upload_request c body))"
    by (rule d(3)) (simp_all add: upload_request_def c)
  ultimately have "\<not> batch_settled http gzip now c ?bs" by (simp add: batch_settled_def)
  from client_up.unsettled_kept [OF assms(3) d(1) this] show ?thesis .
qed

text \<open>
  C8.  However long the platform is down, or the network, or the token refused, no upload loses a
  window: with a client that \<open>New\<close> made, as long as every request to its endpoint fails, breaks off, is
  refused with 401, 403, 429 or a status outside the four hundreds, or is answered with something that
  is not a reply, the queue stays as it is and so do the settings.
\<close>

theorem outage_keeps_queue:
  assumes "New endpoint token version = Inr c" and "\<forall>env\<in>set envs. down endpoint token c env"
    and "disk_ok (w_disk w)" and "\<forall>e\<in>set (disk_queue (w_disk w)). bucket_json (snd e) \<noteq> None"
  shows "disk_queue (w_disk (snd (uploads envs (a, w)))) = disk_queue (w_disk w)
     \<and> ag_Settings (fst (uploads envs (a, w))) = ag_Settings a
     \<and> ag_agg (fst (uploads envs (a, w))) = ag_agg a"
  using assms(2-4)
proof (induction envs arbitrary: a w)
  case (Cons env envs)
  then obtain n t w' where "upload env (a, w) = ((a\<lparr>ag_failures := n, ag_retryAt := t\<rparr>, w'), False)"
    "disk_ok (w_disk w')" "disk_queue (w_disk w') = disk_queue (w_disk w)"
    using upload_down [OF assms(1), of env w a] by auto
  with Cons.IH [of w' "a\<lparr>ag_failures := n, ag_retryAt := t\<rparr>"] Cons.prems show ?case by simp
qed simp

theorem outage_keeps_queue_witness:
  "\<exists>c env. New ''https://k/i'' ''t'' ''1'' = Inr c \<and> en_send env [] \<noteq> Inr zero_response
     \<and> disk_queue (w_disk (snd (uploads [env, env] (example_agent, example_world)))) = [(''b.json'', new_bucket 0 0)]"
proof -
  let ?c = "\<lparr>Endpoint = ''https://k/i'', Token = ''t'', Version = ''1''\<rparr>"
  let ?env = "calm_env (client_uploader (\<lambda>_. Reply 503 []) (\<lambda>x. x) unix_epoch ?c)"
  have u: "url_Parse ''https://k/i'' = Some (''https'', ''k'')" by code_simp
  then have n: "New ''https://k/i'' ''t'' ''1'' = Inr ?c" by (simp add: New_def)
  have t: "fmt_time unix_epoch \<noteq> None" by code_simp
  have o503: "outage (Reply 503 [])" by (simp add: outage_def)
  have "down ''https://k/i'' ''t'' ?c ?env"
    unfolding down_def using t o503
    by (intro exI [of _ "\<lambda>_. Reply 503 []"] exI [of _ "\<lambda>x. x"] exI [of _ unix_epoch]) (simp add: calm_env_def)
  then have d: "\<forall>env\<in>set [?env, ?env]. down ''https://k/i'' ''t'' ?c env" by simp
  have j: "bucket_json (new_bucket 0 0) \<noteq> None" by code_simp
  then have q: "\<forall>e\<in>set (disk_queue (w_disk example_world)). bucket_json (snd e) \<noteq> None"
    by (simp add: example_world_simps)
  have "en_send ?env [] \<noteq> Inr zero_response"
    by (auto simp: calm_env_def client_uploader_def Send_def ship_fail_def split: option.splits)
  with outage_keeps_queue [OF n d example_disk_ok q, of example_agent] n show ?thesis
    by (intro exI [of _ ?c] exI [of _ ?env]) (simp add: example_world_simps)
qed

section \<open>Retries\<close>

abbreviation queue_at :: "state \<Rightarrow> Entry list" where
  "queue_at s \<equiv> disk_queue (w_disk (snd s))"

text \<open>Sampling stores windows; it does not touch the wait, the batch size or the settings.\<close>

lemma sample_keeps:
  assumes "sample env (a, w) = (a', w')" and "disk_ok (w_disk w)"
  shows "ag_retryAt a' = ag_retryAt a \<and> maxBatch a' = maxBatch a \<and> disk_ok (w_disk w')"
proof -
  have p: "ag_retryAt x' = ag_retryAt x \<and> maxBatch x' = maxBatch x \<and> disk_ok (w_disk v')"
    if "persist_opt f out (x, v) = (x', v')" "disk_ok (w_disk v)" for f out x v x' v'
  proof (cases out)
    case None
    with that show ?thesis by (simp add: persist_opt_def)
  next
    case (Some b)
    with that persist_frame [of f b x v x' v'] persist_disk_ok [of v f b x] show ?thesis
      by (auto simp: persist_opt_def maxBatch_def)
  qed
  show ?thesis
  proof (cases "Collect (en_os env) (ag_Collector a)")
    case (Inl e)
    with assms show ?thesis by (auto simp: sample_def)
  next
    case (Inr x)
    obtain g out where "agg_Add x (ag_agg a) = (g, out)" by (cases "agg_Add x (ag_agg a)")
    with Inr assms p [of "en_add env" out "a\<lparr>ag_agg := g\<rparr>" w a' w'] show ?thesis
      by (simp add: sample_def maxBatch_def)
  qed
qed

lemma samples_keep:
  "fold sample envs (a, w) = (a', w') \<Longrightarrow> disk_ok (w_disk w) \<Longrightarrow>
     ag_retryAt a' = ag_retryAt a \<and> maxBatch a' = maxBatch a \<and> disk_ok (w_disk w')"
proof (induction envs arbitrary: a w)
  case (Cons env envs)
  obtain a1 w1 where 1: "sample env (a, w) = (a1, w1)" by (cases "sample env (a, w)")
  with sample_keeps [OF 1 Cons.prems(2)] Cons.IH [of a1 w1] Cons.prems(1) show ?case by simp
qed simp

lemma upload_sends:
  assumes "can_upload env (a, w)"
  shows "\<exists>l. w_log (snd (fst (upload env (a, w)))) = w_log w @ Sent (map snd (batch_of (a, w))) # l"
proof -
  have ok: "disk_ok (w_disk w)" using assms by (simp add: can_upload_def)
  have "log_grows (a, sent_world env (a, w)) (fst (upload env (a, w)))"
  proof (cases "en_send env (map snd (batch_of (a, w)))")
    case (Inl e)
    with upload_goes [OF assms] show ?thesis by (simp add: handleFailure_log)
  next
    case (Inr resp)
    have "log_grows (x, v) (y, log_event ev (discard_batch f es v))" for x y v ev f es
      using discard_batch_log [of f es v] by (auto simp: log_grows_def)
    from log_grows_trans [OF this conjunct1 [OF applyConfig_log]] upload_goes [OF assms] Inr show ?thesis by simp
  qed
  then show ?thesis using sent_world_simps(3) [OF ok, of env a] by (auto simp: log_grows_def)
qed

text \<open>
  C9.  A failed batch is tried again: after a network error, a fault of the platform or a refused token, an
  upload before the wait is over does nothing, and the first one after it sends the windows of the failed
  batch again, in the same order and before any other.  Samples may be taken in the meantime; the windows
  they store, \<open>later\<close>, wait behind those already queued, and join the batch as far as it had room left, so
  it is exactly the same batch when nothing was stored or when it was full.  The wait is shorter than the
  cap of the backoff, which is assumed to be above its base and at most \<open>2^62\<close> nanoseconds.
\<close>

theorem failed_batch_resent:
  assumes "can_upload env (a, w)" and "en_send env (map snd (batch_of (a, w))) = Inl e" and "error_kind e \<noteq> Rejected"
    and "uniform_source (en_rand env)" and "\<forall>r. Rand (ag_Backoff a) = Some r \<longrightarrow> uniform_source r"
    and "backoff_base (ag_Backoff a) < backoff_max (ag_Backoff a)"
    and "backoff_max (ag_Backoff a) \<le> 4611686018427387904"
    and "s = fold sample envs (fst (upload env (a, w)))" and "queue_at s = disk_queue (w_disk w) @ later"
    and "quiet (en_peek env')" and "quiet (en_discard env')"
  shows "\<exists>t. ag_retryAt (fst s) = t \<and> en_fail_now env \<le> t \<and> t < en_fail_now env + backoff_max (ag_Backoff a)
     \<and> (en_now env' < t \<longrightarrow> upload env' s = (s, False))
     \<and> (t \<le> en_now env' \<longrightarrow> (\<exists>l. w_log (snd (fst (upload env' s))) = w_log (snd s)
          @ Sent (map snd (batch_of (a, w) @ take (nat (maxBatch a) - length (batch_of (a, w))) later)) # l))"
proof -
  have ok: "disk_ok (w_disk w)" and q: "disk_queue (w_disk w) \<noteq> []" using assms(1) by (simp_all add: can_upload_def)
  obtain t w' where u: "upload env (a, w) = ((a\<lparr>ag_failures := i64 (ag_failures a + 1), ag_retryAt := t\<rparr>, w'), False)"
    "en_fail_now env \<le> t" "t < en_fail_now env + backoff_max (ag_Backoff a)"
    "disk_queue (w_disk w') = disk_queue (w_disk w)"
    using upload_fails [OF assms(1,2,4-7)] assms(3) by auto
  have "upload env (a, w) = (handleFailure env e (batch_of (a, w)) (a, sent_world env (a, w)), False)"
    using upload_goes [OF assms(1)] assms(2) by simp
  then have "w_disk w' = w_disk (sent_world env (a, w))"
    using u(1) assms(3) by (cases "error_kind e") (auto simp: handleFailure_def Let_def)
  then have ok': "disk_ok (w_disk w')" using sent_world_simps(1) [OF ok, of env a] by simp
  obtain a2 w2 where s: "s = (a2, w2)" by (cases s)
  then have f: "fold sample envs (a\<lparr>ag_failures := i64 (ag_failures a + 1), ag_retryAt := t\<rparr>, w') = (a2, w2)"
    using assms(8) u(1) by simp
  have k: "ag_retryAt a2 = t" "maxBatch a2 = maxBatch a" "disk_ok (w_disk w2)"
    using samples_keep [OF f ok'] by (simp_all add: maxBatch_def)
  have q2: "disk_queue (w_disk w2) = disk_queue (w_disk w) @ later" using assms(9) s by simp
  have b: "batch_of (a2, w2) = batch_of (a, w) @ take (nat (maxBatch a) - length (batch_of (a, w))) later"
    by (simp add: batch_of_def k(2) q2 min_def)
  have wait: "upload env' (a2, w2) = ((a2, w2), False)" if "en_now env' < t"
    using that k(1) by (simp add: upload_def)
  have again: "\<exists>l. w_log (snd (fst (upload env' (a2, w2)))) = w_log w2 @ Sent (map snd (batch_of (a2, w2))) # l"
    if "t \<le> en_now env'"
  proof (rule upload_sends)
    show "can_upload env' (a2, w2)"
      using that k q q2 quiet_simps [OF assms(10)] quiet_simps [OF assms(11)] by (simp add: can_upload_def)
  qed
  show ?thesis using u(2,3) wait again unfolding b by (intro exI [of _ t]) (simp add: s k(1))
qed

theorem failed_batch_resent_witness:
  "\<exists>s l. fst (upload (calm_env refusing) (example_agent, example_world)) = s
     \<and> w_log (snd (fst (upload ((calm_env accepting)\<lparr>en_now := hour\<rparr>) s))) = w_log (snd s) @ Sent [new_bucket 0 0] # l"
proof -
  let ?e = "ShipError (ship_fail Unauthorized 401 ''upload refused'')" and ?env' = "(calm_env accepting)\<lparr>en_now := hour\<rparr>"
  let ?s = "fst (upload (calm_env refusing) (example_agent, example_world))"
  have r: "uniform_source (en_rand (calm_env refusing))" by (simp add: calm_env_def uniform_source_def)
  have b: "backoff_base (ag_Backoff example_agent) < backoff_max (ag_Backoff example_agent)"
    "backoff_max (ag_Backoff example_agent) \<le> 4611686018427387904"
    "backoff_max (ag_Backoff example_agent) = 15 * minute" "\<forall>r. Rand (ag_Backoff example_agent) = Some r \<longrightarrow> uniform_source r"
    by (simp_all add: example_agent_def backoff_base_def backoff_max_def DefaultBase_def DefaultCap_def duration_defs)
  have s: "en_send (calm_env refusing) (map snd (batch_of (example_agent, example_world))) = Inl ?e" "error_kind ?e \<noteq> Rejected"
    by (simp_all add: calm_env_def refusing_def error_kind_def ship_fail_def)
  have q: "quiet (en_peek ?env')" "quiet (en_discard ?env')" using quiet_example by (simp_all add: calm_env_def)
  have n: "en_fail_now (calm_env refusing) + 15 * minute < en_now ?env'" by (simp add: calm_env_def duration_defs)
  have "?s = fold sample [] ?s" by simp
  moreover have "queue_at ?s = disk_queue (w_disk example_world) @ []"
    using upload_fails [OF example_can_upload s(1) r b(4,1,2)] s(2) by auto
  ultimately show ?thesis using failed_batch_resent [OF example_can_upload s r b(4,1,2) _ _ q] n
    by (fastforce simp: example_batch b(3))
qed

section \<open>A backlog drains\<close>

text \<open>An upload that nothing hinders and that the platform acknowledges without a new schedule.\<close>

definition healthy :: "env \<Rightarrow> bool" where
  "healthy env \<longleftrightarrow> 0 \<le> en_now env \<and> \<not> ft_readdir (en_peek env) \<and> (\<forall>nm. \<not> ft_read (en_peek env) nm)
     \<and> (\<forall>nm. \<not> ft_remove (en_discard env) nm)
     \<and> (\<forall>bs. \<exists>resp. en_send env bs = Inr resp \<and> Config resp = zero_config)"

text \<open>Everything the log says was sent, in order.\<close>

definition sent_in :: "event list \<Rightarrow> Bucket list" where
  "sent_in l = concat (map (\<lambda>e. case e of Sent bs \<Rightarrow> bs | _ \<Rightarrow> []) l)"

lemma sent_in_append [simp]: "sent_in (l @ l') = sent_in l @ sent_in l'"
  by (simp add: sent_in_def)

lemma upload_nothing:
  assumes "healthy env" "disk_ok (w_disk w)" "ag_retryAt a = 0" "disk_queue (w_disk w) = []"
  shows "\<exists>disk. upload env (a, w) = ((a, w\<lparr>w_disk := disk\<rparr>), False) \<and> disk_ok disk \<and> disk_queue disk = []"
proof -
  note pk = Peek_disk [OF assms(2) less_imp_le [OF maxBatch_pos], of "en_peek env" a]
  then obtain es where "snd (Peek (en_peek env) (maxBatch a) (w_disk w)) = Inr es" using assms(1) by (auto simp: healthy_def)
  moreover from this pk have "es = []" using assms(4) by simp
  moreover have "\<not> en_now env < 0" using assms(1) by (simp add: healthy_def)
  ultimately show ?thesis using pk assms(3,4)
    by (intro exI [of _ "fst (Peek (en_peek env) (maxBatch a) (w_disk w))"])
      (cases "Peek (en_peek env) (maxBatch a) (w_disk w)", simp add: upload_def)
qed

lemma upload_healthy:
  assumes "healthy env" "disk_ok (w_disk w)" "ag_retryAt a = 0"
  shows "\<exists>a' w'. upload env (a, w) = ((a', w'), False) \<and> maxBatch a' = maxBatch a \<and> ag_retryAt a' = 0
     \<and> disk_ok (w_disk w') \<and> disk_queue (w_disk w') = drop (nat (maxBatch a)) (disk_queue (w_disk w))
     \<and> sent_in (w_log w') = sent_in (w_log w) @ map snd (take (nat (maxBatch a)) (disk_queue (w_disk w)))"
proof (cases "disk_queue (w_disk w) = []")
  case True
  from upload_nothing [OF assms True] True assms(3) show ?thesis by auto
next
  case False
  have c: "can_upload env (a, w)" using assms False by (simp add: can_upload_def healthy_def)
  obtain resp where "en_send env (map snd (batch_of (a, w))) = Inr resp" "Config resp = zero_config"
    using assms(1) unfolding healthy_def by blast
  from upload_acknowledged [OF c this] obtain w' where
    "upload env (a, w) = ((a\<lparr>ag_failures := 0, ag_retryAt := 0\<rparr>, w'), False)" "disk_ok (w_disk w')"
    "disk_queue (w_disk w') = drop (nat (maxBatch a)) (disk_queue (w_disk w))"
    "w_log w' = w_log w @ [Sent (map snd (batch_of (a, w))), Uploaded (int (length (batch_of (a, w)))) (Accepted resp)]"
    by (elim exE conjE)
  then show ?thesis by (simp add: maxBatch_def sent_in_def batch_of_def)
qed

lemma uploads_drain:
  "\<forall>env\<in>set envs. healthy env \<Longrightarrow> disk_ok (w_disk w) \<Longrightarrow> ag_retryAt a = 0 \<Longrightarrow>
     disk_queue (w_disk (snd (uploads envs (a, w)))) = drop (length envs * nat (maxBatch a)) (disk_queue (w_disk w))
     \<and> sent_in (w_log (snd (uploads envs (a, w))))
       = sent_in (w_log w) @ map snd (take (length envs * nat (maxBatch a)) (disk_queue (w_disk w)))"
proof (induction envs arbitrary: a w)
  case (Cons env envs)
  then obtain a' w' where u: "upload env (a, w) = ((a', w'), False)" "maxBatch a' = maxBatch a" "ag_retryAt a' = 0"
    "disk_ok (w_disk w')" "disk_queue (w_disk w') = drop (nat (maxBatch a)) (disk_queue (w_disk w))"
    "sent_in (w_log w') = sent_in (w_log w) @ map snd (take (nat (maxBatch a)) (disk_queue (w_disk w)))"
    using upload_healthy [of env w a] by auto
  have "\<forall>env\<in>set envs. healthy env" using Cons.prems(1) by simp
  from Cons.IH [OF this u(4,3)] show ?case
    by (simp add: u take_add map_append [symmetric] add.commute [of "length envs * nat (maxBatch a)"] del: map_append)
qed simp

text \<open>
  C7.  A backlog drains: once the platform answers again, one upload for every \<open>maxBatch\<close> queued
  windows, rounded up, empties the spool, and the batches sent are together the queue, in order, each
  window exactly once.  It answers with acknowledgements that carry no new schedule, and no backoff is
  pending.
\<close>

theorem backlog_drains:
  assumes "\<forall>env\<in>set envs. healthy env" and "disk_ok (w_disk w)" and "ag_retryAt a = 0"
    and "int (length (disk_queue (w_disk w))) \<le> int (length envs) * maxBatch a"
  shows "disk_queue (w_disk (snd (uploads envs (a, w)))) = []
     \<and> sent_in (w_log (snd (uploads envs (a, w)))) = sent_in (w_log w) @ map snd (disk_queue (w_disk w))"
proof -
  have "int (length envs * nat (maxBatch a)) = int (length envs) * maxBatch a" using maxBatch_pos [of a] by simp
  then have "length (disk_queue (w_disk w)) \<le> length envs * nat (maxBatch a)" using assms(4) by linarith
  with uploads_drain [OF assms(1-3)] show ?thesis by simp
qed

theorem backlog_drains_witness:
  "disk_queue (w_disk (snd (uploads [calm_env accepting] (example_agent, example_world)))) = []
   \<and> sent_in (w_log (snd (uploads [calm_env accepting] (example_agent, example_world)))) = [new_bucket 0 0]"
proof -
  have h: "\<forall>env\<in>set [calm_env accepting]. healthy env"
    by (simp add: healthy_def calm_env_def no_faults_def accepting_def zero_response_def zero_config_def)
  have a: "ag_retryAt example_agent = 0" "maxBatch example_agent = 360"
    by (simp_all add: example_agent_def maxBatch_def DefaultMaxBatch_def)
  show ?thesis
    using backlog_drains [OF h example_disk_ok a(1)] by (simp add: a(2) example_world_simps sent_in_def)
qed

end
