(* ===== verification/JsonText.thy ===== *)
theory JsonText
  imports Json
begin

text \<open>
  Reading a written document gives it back.  The document's strings are valid UTF-8, its numbers are texts
  the tokeniser takes whole (\<open>number_ok\<close>), and it is not nested too deep; every document the program
  writes is of this kind.  The proof goes through the tokens of a document: writing and tokenising
  gives \<open>toks\<close>, and parsing those gives the document.
\<close>

section \<open>Strings\<close>

definition ascii :: "string \<Rightarrow> bool" where
  "ascii s \<longleftrightarrow> (\<forall>c\<in>set s. byte c < 128)"

lemma ascii_simps [simp]: "ascii []" "ascii (c # s) \<longleftrightarrow> byte c < 128 \<and> ascii s"
  "ascii (s @ t) \<longleftrightarrow> ascii s \<and> ascii t"
  by (auto simp: ascii_def)

lemma byte_range: "0 \<le> byte c" "byte c < 256"
proof -
  have "byte c = int (of_char c)" by (simp add: byte_def of_nat_of_char)
  then show "0 \<le> byte c" "byte c < 256" using nat_of_char_less_256 [of c] by simp_all
qed

lemma char_of_byte [simp]: "char_of (byte c) = c"
  by (simp add: byte_def)

lemma hex_digit_facts:
  assumes "0 \<le> d" "d < 16"
  shows "is_digit (hex_digit d) \<or> is_hex_letter (hex_digit d)" "hex_val (hex_digit d) = d"
proof -
  have "\<forall>d\<in>set (map int [0..<16]). (is_digit (hex_digit d) \<or> is_hex_letter (hex_digit d)) \<and> hex_val (hex_digit d) = d"
    by code_simp
  moreover have "d \<in> set (map int [0..<16])" using assms by (auto simp: image_iff intro!: bexI [of _ "nat d"])
  ultimately show "is_digit (hex_digit d) \<or> is_hex_letter (hex_digit d)" "hex_val (hex_digit d) = d" by blast+
qed

lemma unicode_escape_byte:
  assumes "byte c < 128"
  shows "unicode_escape (CHR ''0'' # CHR ''0'' # hex_digit (byte c div 16) # hex_digit (byte c mod 16) # r) = Some ([c], r)"
proof -
  have b: "0 \<le> byte c div 16" "byte c div 16 < 16" "0 \<le> byte c mod 16" "byte c mod 16 < 16"
    using assms byte_range [of c] by auto
  have z: "is_digit (CHR ''0'')" "hex_val (CHR ''0'') = 0" by code_simp+
  have "hex4 (CHR ''0'' # CHR ''0'' # hex_digit (byte c div 16) # hex_digit (byte c mod 16) # r) = Some (byte c, r)"
    using hex_digit_facts [OF b(1,2)] hex_digit_facts [OF b(3,4)] z by (simp add: hex4_def)
  with assms show ?thesis by (simp add: unicode_escape_def utf8_encode_def)
qed

lemma utf8_len_ascii: "byte c < 128 \<Longrightarrow> utf8_len (c # s) = 1"
  using byte_range [of c] by (simp add: utf8_len_def in_range_def)

lemma scan_str_plain:
  assumes "byte c < 128" "32 \<le> byte c" "c \<noteq> CHR 0x22" "c \<noteq> CHR 0x5C"
  shows "scan_str (c # t) = map_option (apfst ((#) c)) (scan_str t)"
  using assms utf8_len_ascii [of c t] by (subst scan_str.simps) (simp add: apfst_def map_prod_def)

lemma scan_str_simple:
  "simple_escape e = Some x \<Longrightarrow> e \<noteq> CHR ''u'' \<Longrightarrow>
     scan_str (CHR 0x5C # e # t) = map_option (apfst ((#) x)) (scan_str t)"
  by (subst scan_str.simps) simp

lemma scan_str_unicode:
  "unicode_escape r = Some ([x], t) \<Longrightarrow>
     scan_str (CHR 0x5C # CHR ''u'' # r) = map_option (apfst ((#) x)) (scan_str t)"
  by (subst scan_str.simps) (simp add: apfst_def map_prod_def)

lemma scan_str_escape_ascii:
  assumes "byte c < 128"
  shows "scan_str (escape_ascii c @ t) = map_option (apfst ((#) c)) (scan_str t)"
proof (cases "c \<in> {CHR 0x22, CHR 0x5C, CHR 0x08, CHR 0x0C, CHR 0x0A, CHR 0x0D, CHR 0x09}")
  case True
  have s: "simple_escape (CHR 0x22) = Some (CHR 0x22)" "simple_escape (CHR 0x5C) = Some (CHR 0x5C)"
    "simple_escape (CHR ''b'') = Some (CHR 0x08)" "simple_escape (CHR ''f'') = Some (CHR 0x0C)"
    "simple_escape (CHR ''n'') = Some (CHR 0x0A)" "simple_escape (CHR ''r'') = Some (CHR 0x0D)"
    "simple_escape (CHR ''t'') = Some (CHR 0x09)" by code_simp+
  from True show ?thesis
    by (elim insertE) (auto simp: escape_ascii_def scan_str_simple [OF s(1)] scan_str_simple [OF s(2)]
        scan_str_simple [OF s(3)] scan_str_simple [OF s(4)] scan_str_simple [OF s(5)] scan_str_simple [OF s(6)]
        scan_str_simple [OF s(7)])
next
  case False
  then show ?thesis
  proof (cases "byte c < 32 \<or> c = CHR ''<'' \<or> c = CHR ''>'' \<or> c = CHR ''&''")
    case True
    then have "escape_ascii c @ t = CHR 0x5C # CHR ''u'' # CHR ''0'' # CHR ''0'' #
        hex_digit (byte c div 16) # hex_digit (byte c mod 16) # t"
      using False by (simp add: escape_ascii_def)
    then show ?thesis by (simp add: scan_str_unicode [OF unicode_escape_byte [OF assms]])
  next
    case plain: False
    then have "escape_ascii c = [c]" using False by (simp add: escape_ascii_def)
    with plain False assms show ?thesis by (simp add: scan_str_plain)
  qed
qed

text \<open>Valid UTF-8: one sequence after the other.\<close>

function utf8 :: "string \<Rightarrow> bool" where
  "utf8 s = (if s = [] then True else if utf8_len s = 0 then False else utf8 (drop (utf8_len s) s))"
  by pat_completeness auto
termination
  by (relation "measure length") auto

declare utf8.simps [simp del]

lemma utf8_simps [simp]: "utf8 []" "byte c < 128 \<Longrightarrow> utf8 (c # s) = utf8 s"
  by (subst utf8.simps, simp add: utf8_len_ascii)+

lemma ascii_utf8: "ascii s \<Longrightarrow> utf8 s"
  by (induction s) auto

text \<open>A sequence is recognised by its own bytes.\<close>

lemma utf8_len_take:
  "utf8_len s \<noteq> 0 \<Longrightarrow> utf8_len s \<le> length s \<and> utf8_len (take (utf8_len s) s @ t) = utf8_len s"
proof -
  assume n: "utf8_len s \<noteq> 0"
  then obtain a s1 where s: "s = a # s1" by (cases s) (auto simp: utf8_len_def)
  show ?thesis
  proof (cases "in_range 0 127 a")
    case True
    then show ?thesis by (simp add: s utf8_len_def)
  next
    case a: False
    then obtain b s2 where s1: "s1 = b # s2" using n by (cases s1) (auto simp: s utf8_len_def)
    show ?thesis
    proof (cases "in_range 194 223 a")
      case True
      with a n show ?thesis by (simp add: s s1 utf8_len_def split: if_splits)
    next
      case a2: False
      then obtain c s3 where s2: "s2 = c # s3" using n a by (cases s2) (auto simp: s s1 utf8_len_def)
      show ?thesis
      proof (cases "in_range 224 239 a")
        case True
        let ?ok = "in_range (if byte a = 224 then 160 else 128) (if byte a = 237 then 159 else 191) b \<and> in_range 128 191 c"
        have "utf8_len (a # b # c # r) = (if ?ok then 3 else 0)" for r
          using a a2 True unfolding utf8_len_def list.case by (simp only: if_False if_True)
        with n show ?thesis by (cases ?ok) (simp_all only: s s1 s2 if_True if_False, simp_all)
      next
        case a3: False
        then obtain d s4 where s3: "s3 = d # s4" using n a a2 by (cases s3) (auto simp: s s1 s2 utf8_len_def)
        let ?ok = "in_range 240 244 a \<and> in_range (if byte a = 240 then 144 else 128) (if byte a = 244 then 143 else 191) b
          \<and> in_range 128 191 c \<and> in_range 128 191 d"
        have "utf8_len (a # b # c # d # r) = (if ?ok then 4 else 0)" for r
          using a a2 a3 unfolding utf8_len_def list.case by (simp only: if_False if_True)
        with n show ?thesis by (cases ?ok) (simp_all only: s s1 s2 s3 if_True if_False, simp_all)
      qed
    qed
  qed
qed

lemma take_three: "take 3 s = [x, y, z] \<Longrightarrow> \<exists>r. s = x # y # z # r"
  by (intro exI [of _ "drop 3 s"]) (metis append_Cons append_Nil append_take_drop_id)

lemma scan_str_seq:
  assumes "utf8_len (c # cs) = n" "n \<noteq> 0" "128 \<le> byte c"
  shows "scan_str (take n (c # cs) @ t) = map_option (apfst ((@) (take n (c # cs)))) (scan_str t)"
proof -
  obtain m where n: "n = Suc m" using assms(2) by (cases n) auto
  note u = utf8_len_take [of "c # cs" t, unfolded assms(1)]
  have "c \<noteq> CHR 0x22" "c \<noteq> CHR 0x5C" using assms(3) by (auto simp: byte_def)
  then show ?thesis
    using u assms(2,3) unfolding n by (subst scan_str.simps) (simp add: min_absorb2)
qed

lemma line_separators:
  "unicode_escape (CHR ''2'' # CHR ''0'' # CHR ''2'' # CHR ''8'' # r) = Some ([CHR 0xE2, CHR 0x80, CHR 0xA8], r)"
  "unicode_escape (CHR ''2'' # CHR ''0'' # CHR ''2'' # CHR ''9'' # r) = Some ([CHR 0xE2, CHR 0x80, CHR 0xA9], r)"
  "utf8_len (CHR 0xE2 # CHR 0x80 # CHR 0xA8 # r) = 3" "utf8_len (CHR 0xE2 # CHR 0x80 # CHR 0xA9 # r) = 3"
proof -
  have h: "is_digit (CHR ''2'')" "is_digit (CHR ''0'')" "is_digit (CHR ''8'')" "is_digit (CHR ''9'')"
    "hex_val (CHR ''2'') = 2" "hex_val (CHR ''0'') = 0" "hex_val (CHR ''8'') = 8" "hex_val (CHR ''9'') = 9"
    by code_simp+
  have e: "utf8_encode 8232 = [CHR 0xE2, CHR 0x80, CHR 0xA8]" "utf8_encode 8233 = [CHR 0xE2, CHR 0x80, CHR 0xA9]"
    by code_simp+
  show "unicode_escape (CHR ''2'' # CHR ''0'' # CHR ''2'' # CHR ''8'' # r) = Some ([CHR 0xE2, CHR 0x80, CHR 0xA8], r)"
    "unicode_escape (CHR ''2'' # CHR ''0'' # CHR ''2'' # CHR ''9'' # r) = Some ([CHR 0xE2, CHR 0x80, CHR 0xA9], r)"
    by (simp_all add: unicode_escape_def hex4_def h e)
  show "utf8_len (CHR 0xE2 # CHR 0x80 # CHR 0xA8 # r) = 3" "utf8_len (CHR 0xE2 # CHR 0x80 # CHR 0xA9 # r) = 3"
    by (simp_all add: utf8_len_def in_range_def byte_def)
qed

lemma scan_str_separator:
  "scan_str (CHR 0x5C # ''u2028'' @ t) = map_option (apfst ((@) [CHR 0xE2, CHR 0x80, CHR 0xA8])) (scan_str t)"
  "scan_str (CHR 0x5C # ''u2029'' @ t) = map_option (apfst ((@) [CHR 0xE2, CHR 0x80, CHR 0xA9])) (scan_str t)"
  by (subst scan_str.simps, simp add: line_separators)+

lemma escape_separator:
  "escape (CHR 0xE2 # CHR 0x80 # CHR 0xA8 # r) = CHR 0x5C # ''u2028'' @ escape r"
  "escape (CHR 0xE2 # CHR 0x80 # CHR 0xA9 # r) = CHR 0x5C # ''u2029'' @ escape r"
  by (subst escape.simps, simp add: line_separators byte_def)+

lemma scan_str_escape: "utf8 s \<Longrightarrow> scan_str (escape s @ CHR 0x22 # t) = Some (s, t)"
proof (induction s rule: utf8.induct)
  case (1 s)
  show ?case
  proof (cases s)
    case Nil
    then show ?thesis by (simp add: escape.simps [of "[]"] scan_str.simps)
  next
    case (Cons c cs)
    have u: "utf8_len s \<noteq> 0" "utf8 (drop (utf8_len s) s)"
      using "1.prems" Cons utf8.simps [of s] by (simp_all split: if_splits)
    have IH: "scan_str (escape (drop (utf8_len s) s) @ CHR 0x22 # t) = Some (drop (utf8_len s) s, t)"
      using "1.IH" u Cons by simp
    consider (ascii) "byte c < 128" | (ls) "128 \<le> byte c" "take 3 s = [CHR 0xE2, CHR 0x80, CHR 0xA8]"
      | (ps) "128 \<le> byte c" "take 3 s = [CHR 0xE2, CHR 0x80, CHR 0xA9]"
      | (seq) "128 \<le> byte c" "take 3 s \<noteq> [CHR 0xE2, CHR 0x80, CHR 0xA8]" "take 3 s \<noteq> [CHR 0xE2, CHR 0x80, CHR 0xA9]"
      by linarith
    then show ?thesis
    proof cases
      case ascii
      with IH Cons have "scan_str (escape cs @ CHR 0x22 # t) = Some (cs, t)" by (simp add: utf8_len_ascii)
      with ascii Cons show ?thesis by (subst escape.simps) (simp add: scan_str_escape_ascii)
    next
      case ls
      from take_three [OF ls(2)] obtain r where r: "s = CHR 0xE2 # CHR 0x80 # CHR 0xA8 # r" ..
      with IH have "scan_str (escape r @ CHR 0x22 # t) = Some (r, t)" by (simp add: line_separators)
      then show ?thesis
        unfolding r escape_separator append_assoc append_Cons
        using scan_str_separator(1) [of "escape r @ CHR 0x22 # t"] by simp
    next
      case ps
      from take_three [OF ps(2)] obtain r where r: "s = CHR 0xE2 # CHR 0x80 # CHR 0xA9 # r" ..
      with IH have "scan_str (escape r @ CHR 0x22 # t) = Some (r, t)" by (simp add: line_separators)
      then show ?thesis
        unfolding r escape_separator append_assoc append_Cons
        using scan_str_separator(2) [of "escape r @ CHR 0x22 # t"] by simp
    next
      case seq
      with u(1) have "escape s = take (utf8_len s) s @ escape (drop (utf8_len s) s)"
        unfolding Cons by (subst escape.simps) auto
      moreover have "scan_str (take (utf8_len s) s @ escape (drop (utf8_len s) s) @ CHR 0x22 # t)
          = Some (take (utf8_len s) s @ drop (utf8_len s) s, t)"
        using scan_str_seq [of c cs "utf8_len s"] u seq(1) Cons IH by simp
      ultimately show ?thesis by simp
    qed
  qed
qed

section \<open>Tokens\<close>

text \<open>What may follow a value inside a document, or at its end.\<close>

definition delim :: "string \<Rightarrow> bool" where
  "delim s \<longleftrightarrow> (case s of [] \<Rightarrow> True | c # _ \<Rightarrow> c = CHR '','' \<or> c = CHR '']'' \<or> c = CHR ''}'')"

lemma delim_simps [simp]: "delim []" "delim (CHR '','' # s)" "delim (CHR '']'' # s)" "delim (CHR ''}'' # s)"
  by (simp_all add: delim_def)

definition number_ok :: "string \<Rightarrow> bool" where
  "number_ok s \<longleftrightarrow> s \<noteq> [] \<and> (is_digit (hd s) \<or> hd s = CHR ''-'')
     \<and> (\<forall>t. delim t \<longrightarrow> scan_number (s @ t) = Some (s, t))"

fun sep_toks :: "tok list list \<Rightarrow> tok list" where
  "sep_toks [] = []"
| "sep_toks [x] = x"
| "sep_toks (x # y # xs) = x @ TComma # sep_toks (y # xs)"

fun toks :: "json \<Rightarrow> tok list" where
  "toks JNull = [TNull]"
| "toks (JBool b) = [if b then TTrue else TFalse]"
| "toks (JNum s) = [TNum s]"
| "toks (JStr s) = [TStr s]"
| "toks (JArr xs) = TOpenArr # sep_toks (map toks xs) @ [TCloseArr]"
| "toks (JObj ms) = TOpenObj # sep_toks (map (\<lambda>(k, v). TStr k # TColon # toks v) ms) @ [TCloseObj]"

fun wf_json :: "json \<Rightarrow> bool" where
  "wf_json JNull = True"
| "wf_json (JBool b) = True"
| "wf_json (JNum s) = number_ok s"
| "wf_json (JStr s) = utf8 s"
| "wf_json (JArr xs) = (\<forall>x\<in>set xs. wf_json x)"
| "wf_json (JObj ms) = (\<forall>(k, v)\<in>set ms. utf8 k \<and> wf_json v)"

text \<open>Tokenising one token at a time.\<close>

lemma lex_json_Cons:
  assumes "\<not> json_space c" and "next_tok (c # s) = Some (t, r)"
  shows "lex_json (c # s) = map_option ((#) t) (lex_json r)"
  using assms by (subst lex_json.simps) simp

lemma lex_punct:
  assumes "punctuation c = Some t"
  shows "lex_json (c # s) = map_option ((#) t) (lex_json s)"
proof -
  have "\<not> json_space c" using assms by (auto simp: punctuation_def json_space_def split: if_splits)
  then show ?thesis using assms by (intro lex_json_Cons) (simp_all add: next_tok_def)
qed

lemma punctuation_simps:
  "punctuation (CHR ''{'') = Some TOpenObj" "punctuation (CHR ''}'') = Some TCloseObj"
  "punctuation (CHR ''['') = Some TOpenArr" "punctuation (CHR '']'') = Some TCloseArr"
  "punctuation (CHR '':'') = Some TColon" "punctuation (CHR '','') = Some TComma"
  by (simp_all add: punctuation_def)

lemmas lex_puncts = punctuation_simps [THEN lex_punct]

lemma lex_quote:
  assumes "utf8 s"
  shows "lex_json (quote s @ t) = map_option ((#) (TStr s)) (lex_json t)"
proof -
  have "next_tok (quote s @ t) = Some (TStr s, t)"
    using scan_str_escape [OF assms, of t] by (simp add: next_tok_def quote_def punctuation_def)
  then show ?thesis unfolding quote_def by (simp, intro lex_json_Cons) (simp_all add: json_space_def)
qed

lemma lex_words:
  "lex_json (''null'' @ t) = map_option ((#) TNull) (lex_json t)"
  "lex_json (''true'' @ t) = map_option ((#) TTrue) (lex_json t)"
  "lex_json (''false'' @ t) = map_option ((#) TFalse) (lex_json t)"
  by (simp, rule lex_json_Cons, simp add: json_space_def,
      simp add: next_tok_def punctuation_def HasPrefix_def)+

lemma lex_number:
  assumes "number_ok s" "delim t"
  shows "lex_json (s @ t) = map_option ((#) (TNum s)) (lex_json t)"
proof -
  obtain c cs where s: "s = c # cs" "is_digit c \<or> c = CHR ''-''"
    using assms(1) by (cases s) (auto simp: number_ok_def)
  have c: "\<not> json_space c" "punctuation c = None" "c \<noteq> CHR 0x22" "c \<noteq> CHR ''t''" "c \<noteq> CHR ''f''" "c \<noteq> CHR ''n''"
    using s(2) by (auto simp: json_space_def punctuation_def is_digit_def)
  have "scan_number (s @ t) = Some (s, t)" using assms by (simp add: number_ok_def)
  then have "next_tok (c # cs @ t) = Some (TNum s, t)"
    using c s(1) by (simp add: next_tok_def HasPrefix_def)
  with c(1) show ?thesis by (simp add: s(1) lex_json_Cons)
qed

lemma lex_comma_sep:
  assumes "\<And>x t. x \<in> set xs \<Longrightarrow> delim t \<Longrightarrow> lex_json (r x @ t) = map_option ((@) (k x)) (lex_json t)"
    and "delim t"
  shows "lex_json (comma_sep (map r xs) @ t) = map_option ((@) (sep_toks (map k xs))) (lex_json t)"
  using assms(1)
proof (induction xs rule: induct_list012)
  case 1
  then show ?case by (simp add: option.map_ident)
next
  case (2 x)
  then show ?case using assms(2) by simp
next
  case (3 x y xs)
  then have "lex_json (comma_sep (map r (y # xs)) @ t) = map_option ((@) (sep_toks (map k (y # xs)))) (lex_json t)"
    by simp
  with "3.prems" [of x] show ?case by (simp add: lex_puncts option.map_comp comp_def)
qed

lemma lex_render:
  "wf_json j \<Longrightarrow> delim t \<Longrightarrow> lex_json (render j @ t) = map_option ((@) (toks j)) (lex_json t)"
proof (induction j arbitrary: t)
  case JNull
  then show ?case using lex_words(1) [of t] by simp
next
  case (JBool b)
  then show ?case using lex_words(2,3) [of t] by simp
next
  case (JNum s)
  then show ?case by (simp add: lex_number)
next
  case (JStr s)
  then show ?case by (simp add: lex_quote)
next
  case (JArr xs)
  have "lex_json (comma_sep (map render xs) @ CHR '']'' # t)
      = map_option ((@) (sep_toks (map toks xs))) (lex_json (CHR '']'' # t))"
    using JArr by (intro lex_comma_sep) auto
  then show ?case by (simp add: lex_puncts option.map_comp comp_def)
next
  case (JObj ms)
  have "lex_json ((\<lambda>(k, v). quote k @ CHR '':'' # render v) m @ u)
      = map_option ((@) ((\<lambda>(k, v). TStr k # TColon # toks v) m)) (lex_json u)"
    if "m \<in> set ms" "delim u" for m u
  proof -
    obtain k v where m: "m = (k, v)" by (cases m)
    have "utf8 k" "wf_json v" using JObj.prems(1) that(1) m by auto
    moreover have "lex_json (render v @ u) = map_option ((@) (toks v)) (lex_json u)"
      using JObj.IH [of m v u] that m calculation(2) by (auto simp: snds.intros)
    ultimately show ?thesis
      by (cases "lex_json u") (simp_all add: m lex_quote lex_puncts option.map_comp comp_def)
  qed
  then have "lex_json (comma_sep (map (\<lambda>(k, v). quote k @ CHR '':'' # render v) ms) @ CHR ''}'' # t)
      = map_option ((@) (sep_toks (map (\<lambda>(k, v). TStr k # TColon # toks v) ms))) (lex_json (CHR ''}'' # t))"
    by (intro lex_comma_sep) auto
  then show ?case by (simp add: lex_puncts option.map_comp comp_def)
qed

section \<open>Parsing\<close>

fun json_depth :: "json \<Rightarrow> nat" where
  "json_depth (JArr xs) = Suc (foldr max (map json_depth xs) 0)"
| "json_depth (JObj ms) = Suc (foldr max (map (\<lambda>(k, v). json_depth v) ms) 0)"
| "json_depth _ = 0"

lemma nesting_ge: "d \<le> nesting d ts"
  by (induction d ts rule: nesting.induct) auto

lemma nesting_sep:
  assumes "\<And>x d ts. x \<in> set xs \<Longrightarrow> nesting d (k x @ ts) = max (d + int (h x)) (nesting d ts)"
  shows "nesting d (sep_toks (map k xs) @ ts) = max (d + int (foldr max (map h xs) 0)) (nesting d ts)"
  using assms
proof (induction xs rule: induct_list012)
  case 1
  then show ?case using nesting_ge [of d ts] by simp
next
  case (2 x)
  then show ?case by simp
next
  case (3 x y xs)
  then have "nesting d (sep_toks (map k (y # xs)) @ ts) = max (d + int (foldr max (map h (y # xs)) 0)) (nesting d ts)"
    by simp
  with "3.prems" [of x d] show ?case by simp
qed

lemma nesting_toks: "nesting d (toks j @ ts) = max (d + int (json_depth j)) (nesting d ts)"
proof (induction j arbitrary: d ts)
  case (JArr xs)
  have "nesting (d + 1) (sep_toks (map toks xs) @ TCloseArr # ts)
      = max (d + 1 + int (foldr max (map json_depth xs) 0)) (nesting (d + 1) (TCloseArr # ts))"
    using JArr by (intro nesting_sep) simp
  then show ?case by simp
next
  case (JObj ms)
  have "nesting (d + 1) (sep_toks (map (\<lambda>(k, v). TStr k # TColon # toks v) ms) @ TCloseObj # ts)
      = max (d + 1 + int (foldr max (map (\<lambda>(k, v). json_depth v) ms) 0)) (nesting (d + 1) (TCloseObj # ts))"
    using JObj by (intro nesting_sep) (force simp: snds.intros)
  then show ?case by simp
qed (simp_all add: max_absorb2 nesting_ge)

lemma toks_pos: "0 < length (toks j)"
  by (cases j) auto

lemma p_elems_toks:
  assumes "\<And>x n ts. x \<in> set xs \<Longrightarrow> length (toks x) < n \<Longrightarrow> p_value n (toks x @ ts) = Some (x, ts)"
    and "xs \<noteq> []" and "length (sep_toks (map toks xs)) + 1 < n"
  shows "p_elems n (sep_toks (map toks xs) @ TCloseArr # ts) = Some (xs, ts)"
  using assms
proof (induction xs arbitrary: n rule: induct_list012)
  case 1
  then show ?case by simp
next
  case (2 x)
  then obtain m where m: "n = Suc m" by (cases n) auto
  with "2.prems"(1) [of x m] "2.prems"(3) show ?case by simp
next
  case (3 x y xs)
  then obtain m where m: "n = Suc m" by (cases n) auto
  have "p_value m (toks x @ TComma # sep_toks (map toks (y # xs)) @ TCloseArr # ts)
      = Some (x, TComma # sep_toks (map toks (y # xs)) @ TCloseArr # ts)"
    using "3.prems"(3) m by (intro "3.prems"(1)) auto
  moreover have "p_elems m (sep_toks (map toks (y # xs)) @ TCloseArr # ts) = Some (y # xs, ts)"
    using "3.prems" m by (intro "3.IH"(2)) auto
  ultimately show ?case by (simp add: m)
qed

lemma p_members_toks:
  fixes ms :: "(string \<times> json) list"
  defines "k \<equiv> \<lambda>(k, v). TStr k # TColon # toks v"
  assumes "\<And>key x n ts. (key, x) \<in> set ms \<Longrightarrow> length (toks x) < n \<Longrightarrow> p_value n (toks x @ ts) = Some (x, ts)"
    and "ms \<noteq> []" and "length (sep_toks (map k ms)) + 1 < n"
  shows "p_members n (sep_toks (map k ms) @ TCloseObj # ts) = Some (ms, ts)"
  using assms(2-)
proof (induction ms arbitrary: n rule: induct_list012)
  case 1
  then show ?case by simp
next
  case (2 m)
  obtain key x where mx: "m = (key, x)" by (cases m)
  obtain l where l: "n = Suc l" using "2.prems"(3) by (cases n) auto
  have "p_value l (toks x @ TCloseObj # ts) = Some (x, TCloseObj # ts)"
    using "2.prems"(3) l mx by (intro "2.prems"(1)) (auto simp: k_def)
  then show ?case by (simp add: l mx k_def)
next
  case (3 m m' ms)
  obtain key x where mx: "m = (key, x)" by (cases m)
  obtain l where l: "n = Suc l" using "3.prems"(3) by (cases n) auto
  have "p_value l (toks x @ TComma # sep_toks (map k (m' # ms)) @ TCloseObj # ts)
      = Some (x, TComma # sep_toks (map k (m' # ms)) @ TCloseObj # ts)"
    using "3.prems"(3) l mx by (intro "3.prems"(1)) (auto simp: k_def)
  moreover have "p_members l (sep_toks (map k (m' # ms)) @ TCloseObj # ts) = Some (m' # ms, ts)"
    using "3.prems" l by (intro "3.IH"(2)) auto
  moreover have "k m = TStr key # TColon # toks x" by (simp add: k_def mx)
  ultimately show ?case by (simp add: l mx)
qed

lemma sep_toks_not_close:
  assumes "xs \<noteq> []" "\<And>x. x \<in> set xs \<Longrightarrow> k x \<noteq> [] \<and> hd (k x) \<noteq> c"
  shows "\<exists>t ts. sep_toks (map k xs) = t # ts \<and> t \<noteq> c"
proof -
  obtain x ys where xs: "xs = x # ys" using assms(1) by (cases xs) auto
  then obtain t u where "k x = t # u" "t \<noteq> c" using assms(2) [of x] by (cases "k x") auto
  then show ?thesis by (cases ys) (simp_all add: xs)
qed

lemma hd_toks: "toks j \<noteq> [] \<and> hd (toks j) \<noteq> TCloseArr"
  by (cases j) auto

lemma p_value_toks: "length (toks j) < n \<Longrightarrow> p_value n (toks j @ ts) = Some (j, ts)"
proof (induction j arbitrary: n ts)
  case (JArr xs)
  obtain m where m: "n = Suc m" using JArr.prems by (cases n) auto
  show ?case
  proof (cases "xs = []")
    case True
    then show ?thesis by (simp add: m)
  next
    case False
    have "p_elems m (sep_toks (map toks xs) @ TCloseArr # ts) = Some (xs, ts)"
      using JArr False m by (intro p_elems_toks) auto
    moreover obtain t u where t: "sep_toks (map toks xs) = t # u" "t \<noteq> TCloseArr"
      using sep_toks_not_close [OF False, of toks TCloseArr] hd_toks by blast
    ultimately show ?thesis by (cases t) (simp_all add: m)
  qed
next
  case (JObj ms)
  obtain m where m: "n = Suc m" using JObj.prems by (cases n) auto
  show ?case
  proof (cases "ms = []")
    case True
    then show ?thesis by (simp add: m)
  next
    case False
    have "p_members m (sep_toks (map (\<lambda>(k, v). TStr k # TColon # toks v) ms) @ TCloseObj # ts) = Some (ms, ts)"
      using JObj False m by (intro p_members_toks) (auto simp: snds.intros)
    moreover obtain t u where t: "sep_toks (map (\<lambda>(k, v). TStr k # TColon # toks v) ms) = t # u" "t \<noteq> TCloseObj"
      using sep_toks_not_close [OF False, of "\<lambda>(k, v). TStr k # TColon # toks v" TCloseObj] by fastforce
    ultimately show ?thesis by (cases t) (simp_all add: m)
  qed
qed (auto simp: gr0_conv_Suc less_Suc_eq_le dest!: less_imp_Suc_add)

text \<open>Parsing what was written gives the document back.\<close>

lemma json_parse_render:
  assumes "wf_json j" and "json_depth j \<le> 10000"
  shows "json_parse (render j) = Some j"
proof -
  have "lex_json (render j) = Some (toks j)"
    using lex_render [OF assms(1), of "[]"] by (simp add: lex_json.simps [of "[]"])
  moreover have "nesting 0 (toks j) = int (json_depth j)"
    using nesting_toks [of 0 j "[]"] by simp
  moreover have "p_value (2 * length (toks j) + 1) (toks j) = Some (j, [])"
    using p_value_toks [of j "2 * length (toks j) + 1" "[]"] by simp
  ultimately show ?thesis using assms(2) by (simp add: json_parse_def)
qed

end
