(* ===== verification/FloatText.thy ===== *)
theory FloatText
  imports JsonText TimeText
begin

text \<open>
  Printed numbers are JSON numbers and read back as the value: the integers, and every finite float64
  (\<open>fmt_float_reads\<close>), written with the fewest decimals that give the value back, in plain form or,
  below a millionth and from \<open>10 ^ 21\<close> on, with an exponent.
\<close>

section \<open>Texts of digits\<close>

definition digits_ok :: "string \<Rightarrow> bool" where
  "digits_ok s \<longleftrightarrow> list_all is_digit s"

text \<open>A text that does not go on with a digit.\<close>

definition no_digit :: "string \<Rightarrow> bool" where
  "no_digit s \<longleftrightarrow> (case s of [] \<Rightarrow> True | c # _ \<Rightarrow> \<not> is_digit c)"

lemma span_digits:
  assumes "list_all is_digit ds" "no_digit t"
  shows "takeWhile is_digit (ds @ t) = ds" "dropWhile is_digit (ds @ t) = t"
proof -
  have "takeWhile is_digit t = []" "dropWhile is_digit t = t"
    using assms(2) by (cases t; simp add: no_digit_def)+
  then show "takeWhile is_digit (ds @ t) = ds" "dropWhile is_digit (ds @ t) = t"
    using assms(1) by (induction ds) auto
qed

lemma delim_no_digit: "delim t \<Longrightarrow> no_digit t"
  by (cases t) (auto simp: delim_def no_digit_def is_digit_def)

lemma dec_head: "0 < n \<Longrightarrow> \<exists>c cs. dec n = c # cs \<and> c \<noteq> CHR ''0''"
proof (induction n rule: dec.induct)
  case (1 n)
  show ?case
  proof (cases "n < 10")
    case True
    have "digit n \<noteq> digit 0" using digit_facts(2) [of n] digit_facts(2) [of 0] 1 True by fastforce
    with True show ?thesis by (subst dec.simps) simp
  next
    case False
    then have "0 < n div 10" by simp
    with 1 False obtain c cs where "dec (n div 10) = c # cs" "c \<noteq> CHR ''0''" by blast
    with False show ?thesis by (subst dec.simps) simp
  qed
qed

lemma dec_0: "dec 0 = ''0''"
  by (subst dec.simps) simp

lemma num_from_dec: "0 \<le> n \<Longrightarrow> num_from 0 (dec n) = Some n"
proof (induction n rule: dec.induct)
  case (1 n)
  then show ?case by (subst dec.simps) (simp add: num_from_append digit_facts)
qed

section \<open>JSON numbers\<close>

lemma scan_int_dec:
  assumes "0 \<le> n" "no_digit t"
  shows "scan_int (dec n @ t) = Some (dec n, t)"
proof (cases "n = 0")
  case True
  then show ?thesis by (simp add: dec_0 scan_int_def)
next
  case False
  with assms(1) obtain c cs where c: "dec n = c # cs" "c \<noteq> CHR ''0''" using dec_head [of n] by auto
  have "scan_digits1 (dec n @ t) = Some (dec n, t)"
    using span_digits [OF dec_digits [OF assms(1)] assms(2)] by (simp add: scan_digits1_def)
  with c show ?thesis by (simp add: scan_int_def)
qed

lemma scan_tail_delim:
  assumes "delim t"
  shows "scan_frac t = Some ([], t)" "scan_exp t = Some ([], t)"
  using assms by (cases t; auto simp: scan_frac_def scan_exp_def delim_def)+

lemma dec_not_minus: "0 \<le> n \<Longrightarrow> \<exists>c cs. dec n = c # cs \<and> is_digit c"
  using dec_digits [of n] dec_not_Nil [of n] by (cases "dec n") auto

lemma digit_not_special: "is_digit c \<Longrightarrow> c \<noteq> CHR ''-'' \<and> c \<noteq> CHR ''+'' \<and> c \<noteq> CHR ''.'' \<and> c \<noteq> CHR ''_'' \<and> c \<noteq> CHR ''e'' \<and> c \<noteq> CHR ''E''"
  by (auto simp: is_digit_def)

text \<open>An optional sign, an integer, an optional fraction and an optional exponent.\<close>

definition exp_text :: "int option \<Rightarrow> string" where
  "exp_text ex = (case ex of None \<Rightarrow> []
     | Some e \<Rightarrow> CHR ''e'' # (if e < 0 then CHR ''-'' # dec (- e) else CHR ''+'' # dec e))"

definition exp_val :: "int option \<Rightarrow> int" where
  "exp_val ex = (case ex of None \<Rightarrow> 0 | Some e \<Rightarrow> e)"

definition frac_text :: "string \<Rightarrow> string" where
  "frac_text fs = (if fs = [] then [] else CHR ''.'' # fs)"

definition number_text :: "bool \<Rightarrow> int \<Rightarrow> string \<Rightarrow> int option \<Rightarrow> string" where
  "number_text neg n fs ex = (if neg then ''-'' else []) @ dec n @ frac_text fs @ exp_text ex"

lemma exp_text_no_digit: "delim t \<Longrightarrow> no_digit (exp_text ex @ t)"
  using delim_no_digit [of t] by (cases ex) (simp_all add: exp_text_def no_digit_def is_digit_def)

lemma scan_digits1_dec: "0 \<le> n \<Longrightarrow> no_digit t \<Longrightarrow> scan_digits1 (dec n @ t) = Some (dec n, t)"
  using span_digits [OF dec_digits, of n t] by (simp add: scan_digits1_def)

lemma scan_exp_text: "delim t \<Longrightarrow> scan_exp (exp_text ex @ t) = Some (exp_text ex, t)"
  using scan_tail_delim(2) [of t] scan_digits1_dec [of "- e" t for e] scan_digits1_dec [of e t for e]
    delim_no_digit [of t]
  by (cases ex) (simp_all add: exp_text_def scan_exp_def [of "CHR ''e'' # _"])

lemma exp_text_frac: "delim t \<Longrightarrow> scan_frac (exp_text ex @ t) = Some ([], exp_text ex @ t)"
  using scan_tail_delim(1) [of t] by (cases ex) (simp_all add: exp_text_def scan_frac_def [of "CHR ''e'' # _"])

lemma scan_frac_text:
  assumes "list_all is_digit fs" "delim t"
  shows "scan_frac (frac_text fs @ exp_text ex @ t) = Some (frac_text fs, exp_text ex @ t)"
proof -
  have "scan_digits1 (fs @ exp_text ex @ t) = Some (fs, exp_text ex @ t)" if "fs \<noteq> []"
    using that span_digits [OF assms(1) exp_text_no_digit [OF assms(2)]] by (simp add: scan_digits1_def)
  then show ?thesis using exp_text_frac [OF assms(2)]
    by (cases "fs = []") (simp_all add: frac_text_def scan_frac_def [of "CHR ''.'' # _"])
qed

lemma number_text_ok:
  assumes "0 \<le> n" "list_all is_digit fs"
  shows "number_ok (number_text neg n fs ex)"
proof -
  obtain c cs where c: "dec n = c # cs" "is_digit c" using dec_not_minus [OF assms(1)] by blast
  have "scan_number (number_text neg n fs ex @ t) = Some (number_text neg n fs ex, t)" if t: "delim t" for t
  proof -
    have "no_digit (frac_text fs @ exp_text ex @ t)" using exp_text_no_digit [OF t, of ex]
      by (cases "fs = []") (simp_all add: frac_text_def no_digit_def is_digit_def)
    then have i: "scan_int (dec n @ frac_text fs @ exp_text ex @ t) = Some (dec n, frac_text fs @ exp_text ex @ t)"
      by (rule scan_int_dec [OF assms(1)])
    have "c \<noteq> CHR ''-''" using c(2) digit_not_special by blast
    then show ?thesis
      using i scan_frac_text [OF assms(2) t, of ex] scan_exp_text [OF t, of ex] c
      by (cases neg) (simp_all add: scan_number_def number_text_def)
  qed
  then show ?thesis using c by (simp add: number_ok_def number_text_def)
qed

lemma dec_plain: "dec n = number_text False n [] None"
  by (simp add: number_text_def frac_text_def exp_text_def)

lemma dec_signed_plain: "dec_signed n = number_text (n < 0) \<bar>n\<bar> [] None"
  by (simp add: number_text_def frac_text_def exp_text_def dec_signed_def)

lemma number_ok_dec: "0 \<le> n \<Longrightarrow> number_ok (dec n)"
  using number_text_ok [of n "[]" False None] by (simp add: dec_plain)

lemma number_ok_dec_signed: "number_ok (dec_signed n)"
  unfolding dec_signed_plain by (rule number_text_ok) simp_all

lemma ParseInt_dec_signed:
  assumes "- 9223372036854775808 \<le> n" "n < 9223372036854775808"
  shows "ParseInt (dec_signed n) = Some n"
proof -
  obtain c cs where c: "dec \<bar>n\<bar> = c # cs" "is_digit c" using dec_not_minus [of "\<bar>n\<bar>"] by auto
  then have o: "opt_sign (dec_signed n) = (n < 0, dec \<bar>n\<bar>)"
    using digit_not_special [OF c(2)] by (cases "n < 0") (simp_all add: dec_signed_def opt_sign_def)
  have "parse_digits 0 (dec \<bar>n\<bar>) = Inr \<bar>n\<bar>" using assms by (intro parse_dec) auto
  with o assms show ?thesis by (simp add: ParseInt_def)
qed

lemma ParseInt_dec_signed_big:
  assumes "n < - 9223372036854775808 \<or> 9223372036854775808 \<le> n"
  shows "ParseInt (dec_signed n) = None"
proof -
  obtain c cs where c: "dec \<bar>n\<bar> = c # cs" "is_digit c" using dec_not_minus [of "\<bar>n\<bar>"] by auto
  then have o: "opt_sign (dec_signed n) = (n < 0, dec \<bar>n\<bar>)"
    using digit_not_special [OF c(2)] by (cases "n < 0") (simp_all add: dec_signed_def opt_sign_def)
  show ?thesis
  proof (cases "\<bar>n\<bar> < 18446744073709551616")
    case True
    then have "parse_digits 0 (dec \<bar>n\<bar>) = Inr \<bar>n\<bar>" by (intro parse_dec) auto
    with o assms show ?thesis by (auto simp: ParseInt_def)
  next
    case False
    then have "parse_digits 0 (dec \<bar>n\<bar>) = Inl ErrRange" by (intro parse_dec_big) simp
    with o show ?thesis by (simp add: ParseInt_def)
  qed
qed

section \<open>Reading floats\<close>

lemma scan_mantissa_digits:
  assumes "list_all is_digit ds" and "num_from (m_val m) ds = Some k"
  shows "scan_mantissa False m (ds @ t) = scan_mantissa False (m\<lparr>m_val := k,
     m_frac := (if m_dot m then m_frac m + int (length ds) else m_frac m),
     m_digits := m_digits m \<or> ds \<noteq> []\<rparr>) t"
  using assms
proof (induction ds arbitrary: m)
  case Nil
  then show ?case by (cases m) simp
next
  case (Cons c ds)
  then have c: "is_digit c" "c \<noteq> CHR ''_''" "c \<noteq> CHR ''.''" using digit_not_special by auto
  let ?m = "m\<lparr>m_val := m_val m * 10 + digit_val c,
    m_frac := (if m_dot m then m_frac m + 1 else m_frac m), m_digits := True\<rparr>"
  have "scan_mantissa False m ((c # ds) @ t) = scan_mantissa False ?m (ds @ t)"
    using c by (simp add: hex_val_def)
  also have "\<dots> = scan_mantissa False (?m\<lparr>m_val := k,
     m_frac := (if m_dot ?m then m_frac ?m + int (length ds) else m_frac ?m), m_digits := m_digits ?m \<or> ds \<noteq> []\<rparr>) t"
    using Cons.prems c by (intro Cons.IH) auto
  finally show ?case by (simp add: add.assoc)
qed

lemma lower_digit: "is_digit c \<Longrightarrow> lower c = c"
  by (simp add: lower_def is_digit_def)

lemma exp_text_chars: "x \<in> set (exp_text ex) \<Longrightarrow> is_digit x \<or> x \<in> {CHR ''e'', CHR ''+'', CHR ''-''}"
  using dec_digits [of "\<bar>the ex\<bar>"]
  by (cases ex; cases "the ex < 0") (auto simp: exp_text_def list_all_iff)

lemma number_chars:
  assumes "0 \<le> n" "list_all is_digit fs" "x \<in> set (dec n @ frac_text fs @ exp_text ex)"
  shows "is_digit x \<or> x \<in> {CHR ''.'', CHR ''e'', CHR ''+'', CHR ''-''}"
  using assms dec_digits [OF assms(1)] exp_text_chars [of x ex]
  by (auto simp: list_all_iff frac_text_def split: if_splits)

lemma lower_marks: "lower (CHR ''.'') = CHR ''.''" "lower (CHR ''e'') = CHR ''e''" "lower (CHR ''+'') = CHR ''+''"
  "lower (CHR ''-'') = CHR ''-''"
  by code_simp+

lemma no_hex_prefix:
  "\<forall>x\<in>set t. lower x \<noteq> CHR ''x'' \<Longrightarrow>
     (case t of z # x # _ # _ \<Rightarrow> z = CHR ''0'' \<and> lower x = CHR ''x'' | _ \<Rightarrow> False) = False"
  by (auto split: list.splits)

lemma number_no_hex:
  assumes "0 \<le> n" "list_all is_digit fs"
  shows "(case dec n @ frac_text fs @ exp_text ex of z # x # _ # _ \<Rightarrow> z = CHR ''0'' \<and> lower x = CHR ''x'' | _ \<Rightarrow> False) = False"
proof -
  have "lower x \<noteq> CHR ''x''" if "x \<in> set (dec n @ frac_text fs @ exp_text ex)" for x
    using number_chars [OF assms that] lower_digit [of x] lower_marks by (auto simp: is_digit_def)
  then show ?thesis by (intro no_hex_prefix) blast
qed

lemma scan_exponent_append:
  "list_all is_digit xs \<Longrightarrow> scan_exponent e (xs @ ys) = scan_exponent (fst (scan_exponent e xs)) ys"
  using digit_not_special by (induction xs arbitrary: e) auto

lemma scan_exponent_dec: "0 \<le> n \<Longrightarrow> n < 100000 \<Longrightarrow> scan_exponent 0 (dec n) = (n, [])"
proof (induction n rule: dec.induct)
  case (1 n)
  have d: "is_digit (digit (n mod 10))" "digit_val (digit (n mod 10)) = n mod 10" by (simp_all add: digit_facts)
  show ?case
  proof (cases "n < 10")
    case True
    then have "n mod 10 = n" using "1.prems"(1) by simp
    with True d digit_not_special [OF d(1)] show ?thesis by (subst dec.simps) simp
  next
    case False
    then have "scan_exponent 0 (dec (n div 10)) = (n div 10, [])" using "1.prems" by (intro "1.IH") auto
    with False d digit_not_special [OF d(1)] dec_digits [of "n div 10"] "1.prems" show ?thesis
      by (subst dec.simps) (simp add: scan_exponent_append)
  qed
qed

text \<open>The mantissa is scanned up to the exponent.\<close>

definition stops_mantissa :: "string \<Rightarrow> bool" where
  "stops_mantissa s \<longleftrightarrow> (case s of [] \<Rightarrow> True | c # _ \<Rightarrow> c = CHR ''e'')"

lemma scan_mantissa_stop: "stops_mantissa s \<Longrightarrow> scan_mantissa False m s = m\<lparr>m_rest := s\<rparr>"
  by (cases s) (auto simp: stops_mantissa_def is_digit_def)

lemma stops_exp_text: "stops_mantissa (exp_text ex)"
  by (cases ex) (simp_all add: exp_text_def stops_mantissa_def)

lemma read_float_text:
  assumes "0 \<le> n" "list_all is_digit fs" "num_from n fs = Some k" and e: "\<bar>exp_val ex\<bar> < 100000"
  shows "read_float (number_text neg n fs ex) = Some (neg, False, k, exp_val ex - int (length fs))"
proof -
  let ?t = "dec n @ frac_text fs @ exp_text ex"
  let ?m0 = "\<lparr>m_val = 0, m_frac = 0, m_dot = False, m_digits = False, m_rest = []\<rparr>"
  obtain c cs where c: "dec n = c # cs" "is_digit c" using dec_not_minus [OF assms(1)] by blast
  have o: "opt_sign (number_text neg n fs ex) = (neg, ?t)"
    using c digit_not_special [OF c(2)] by (simp add: number_text_def opt_sign_def)
  have u: "CHR ''_'' \<notin> set (number_text neg n fs ex)"
    using number_chars [OF assms(1,2), of "CHR ''_''" ex] by (auto simp: number_text_def is_digit_def)
  have i: "scan_mantissa False ?m0 ?t = scan_mantissa False (?m0\<lparr>m_val := n, m_digits := True\<rparr>)
      (frac_text fs @ exp_text ex)"
    using scan_mantissa_digits [OF dec_digits [OF assms(1)], of ?m0 n] num_from_dec [OF assms(1)] by simp
  have f: "scan_mantissa False (?m0\<lparr>m_val := n, m_dot := True, m_digits := True\<rparr>) (fs @ exp_text ex)
      = \<lparr>m_val = k, m_frac = int (length fs), m_dot = True, m_digits = True, m_rest = exp_text ex\<rparr>" if "fs \<noteq> []"
    using scan_mantissa_digits [OF assms(2), of "?m0\<lparr>m_val := n, m_dot := True, m_digits := True\<rparr>" k "exp_text ex"]
      assms(3) that scan_mantissa_stop [OF stops_exp_text]
    by simp
  have "k = n" if "fs = []" using that assms(3) by simp
  with i f have m: "scan_mantissa False ?m0 ?t =
      \<lparr>m_val = k, m_frac = int (length fs), m_dot = (fs \<noteq> []), m_digits = True, m_rest = exp_text ex\<rparr>"
    using scan_mantissa_stop [OF stops_exp_text] by (cases "fs = []") (simp_all add: frac_text_def)
  have x: "(case exp_text ex of [] \<Rightarrow> if False then None else Some (0, [])
     | c # cs \<Rightarrow> if lower c \<noteq> (if False then CHR ''p'' else CHR ''e'')
         then (if False then None else Some (0, c # cs))
         else let (eneg, ds) = opt_sign cs in
           (case ds of [] \<Rightarrow> None
            | d # _ \<Rightarrow> if \<not> is_digit d then None
                else let (e, r) = scan_exponent 0 ds in Some (if eneg then - e else e, r)))
     = Some (exp_val ex, [])"
  proof (cases ex)
    case (Some v)
    have v: "0 \<le> \<bar>v\<bar>" "\<bar>v\<bar> < 100000" using e Some by (simp_all add: exp_val_def)
    obtain d ds where d: "dec \<bar>v\<bar> = d # ds" "is_digit d" using dec_not_minus [OF v(1)] by blast
    show ?thesis using Some d scan_exponent_dec [OF v] lower_marks
      by (cases "v < 0") (simp_all add: exp_text_def exp_val_def opt_sign_def)
  qed (simp add: exp_text_def exp_val_def)
  show ?thesis
    unfolding read_float_def o using number_no_hex [OF assms(1,2), of ex] m u x by simp
qed

lemma special_text:
  assumes "0 \<le> n"
  shows "special (number_text neg n fs ex) = None"
proof -
  obtain c cs where c: "dec n = c # cs" "is_digit c" using dec_not_minus [OF assms] by blast
  have "lower c = c" using c(2) by (rule lower_digit)
  moreover have "c \<noteq> CHR ''i''" "c \<noteq> CHR ''n''" using c(2) by (auto simp: is_digit_def)
  ultimately show ?thesis
    using c digit_not_special [OF c(2)] lower_marks
    by (auto simp: special_def number_text_def opt_sign_def Let_def)
qed

lemma ParseFloat_text:
  assumes "0 \<le> n" "list_all is_digit fs" "num_from n fs = Some k" "\<bar>exp_val ex\<bar> < 100000"
    and "fl ((if neg then - 1 else 1) * of_int k * 10 powi (exp_val ex - int (length fs))) = Fin x"
  shows "ParseFloat (number_text neg n fs ex) = Inr (Fin x)"
  using assms(5) by (simp add: ParseFloat_def special_text [OF assms(1)] read_float_text [OF assms(1-4)])

section \<open>Printing floats\<close>

lemma fl_eq_Fin: "fl x = Fin a \<Longrightarrow> a = rnd x \<and> representable a"
  by (auto simp: fl_def Let_def representable_rnd split: if_splits)

lemma fl_minus: "fl (- x) = Fin (- a) \<longleftrightarrow> fl x = Fin a"
  by (auto simp: fl_def Let_def rnd_minus)

text \<open>With 1074 decimals a float64 is written exactly.\<close>

lemma scaled_integer:
  assumes "representable a" "1074 \<le> d"
  shows "\<exists>k. a * 10 powi d = of_int k"
proof -
  obtain m where "a = of_int m * 2 powi (- 1074)" using representable_scaled [OF assms(1)] by blast
  moreover have "(10::rat) powi d = 2 powi d * 5 powi d" by (simp flip: power_int_mult_distrib)
  moreover have "(2::rat) powi (- 1074) * 2 powi d = 2 powi (d - 1074)"
    by (metis powi_add uminus_add_conv_diff)
  ultimately have "a * 10 powi d = of_int m * (2 powi (d - 1074) * 5 powi d)" by (simp add: mult.assoc)
  also have "\<dots> = of_int (m * (2 ^ nat (d - 1074) * 5 ^ nat d))"
    using assms(2) by (simp add: power_int_nonneg_exp)
  finally show ?thesis by blast
qed

lemma reads_back_exact:
  assumes "fl a = Fin a" "0 < a" "a * 10 powi d = of_int k"
  shows "reads_back a k d"
proof -
  have "0 < a * 10 powi d" using assms(2) by simp
  then have "0 < k" unfolding assms(3) by simp
  moreover have "of_int k * 10 powi (- d) = a" by (simp flip: assms(3) add: power_int_minus field_simps)
  ultimately show ?thesis using assms(1) by (simp add: reads_back_def)
qed

text \<open>The search finds decimals that read back, when it may go on to 1074 of them.\<close>

lemma shortest_reads_back:
  assumes "fl a = Fin a" "0 < a"
  shows "1074 \<le> d + int n \<Longrightarrow> shortest n d a = (m, e) \<Longrightarrow> reads_back a m e"
proof (induction n arbitrary: d)
  case 0
  then have "1074 \<le> d" by simp
  then obtain k where k: "a * 10 powi d = of_int k" using fl_eq_Fin [OF assms(1)] scaled_integer by blast
  with 0 reads_back_exact [OF assms k] show ?case by simp
next
  case (Suc n)
  have "shortest n (d + 1) a = (m, e) \<Longrightarrow> reads_back a m e" using Suc.prems(1) by (intro Suc.IH) auto
  with Suc.prems(2) show ?case by (auto simp: Let_def split: if_splits)
qed

lemma fl_bound:
  assumes "fl x = Fin a" "0 < x"
  shows "x < 2 powi 1024"
proof (rule ccontr)
  assume "\<not> x < 2 powi 1024"
  then have "2 powi 1024 \<le> rnd x"
    using b64.rd_ge [of "2 powi 1024" x] representable_powi [of 1024] by auto
  moreover have "(0::rat) < 2 powi 1024" by simp
  ultimately have r: "0 < rnd x" "\<bar>2 powi 1024\<bar> \<le> \<bar>rnd x\<bar>" by (simp_all only: abs_of_pos less_le_trans abs_of_nonneg)
  then have "binexp (2 powi 1024) \<le> binexp (rnd x)" by (intro binexp_mono) auto
  with r(1) assms(1) show False unfolding binexp_powi fl_def Let_def by (simp split: if_splits)
qed

text \<open>The exponent written in scientific form.\<close>

lemma dec_length: "0 < n \<Longrightarrow> 10 ^ (length (dec n) - 1) \<le> n"
proof (induction n rule: dec.induct)
  case (1 n)
  show ?case
  proof (cases "n < 10")
    case True
    with 1 show ?thesis by (subst dec.simps) simp
  next
    case False
    then have "10 ^ (length (dec (n div 10)) - 1) \<le> n div 10" using 1 by auto
    then have "10 * 10 ^ (length (dec (n div 10)) - 1) \<le> n" by linarith
    moreover have "10 ^ length (dec (n div 10)) = (10::int) * 10 ^ (length (dec (n div 10)) - 1)"
      by (cases "length (dec (n div 10))") auto
    ultimately show ?thesis using False by (subst dec.simps) simp
  qed
qed

lemma two_less_ten_powi: "0 < k \<Longrightarrow> (2::rat) powi k < 10 powi k"
  by (simp add: power_int_def power_strict_mono)

lemma ten_powi_bound:
  assumes "(10::rat) powi a * 10 powi (- d) < 10 powi b"
  shows "a - d < b"
proof (rule ccontr)
  assume "\<not> a - d < b"
  then have "(10::rat) powi b \<le> 10 powi (a + - d)" by (intro power_int_increasing) auto
  also have "(10::rat) powi (a + - d) = 10 powi a * 10 powi (- d)" by (rule power_int_add) simp
  finally show False using assms by simp
qed

lemma exponent_bound:
  assumes "reads_back a m d" "d \<le> 2000"
  shows "\<bar>int (length (dec m)) - 1 - d\<bar> < 100000"
proof -
  let ?l = "int (length (dec m))"
  have m: "0 < m" "fl (of_int m * 10 powi (- d)) = Fin a" using assms(1) by (simp_all add: reads_back_def)
  have l: "1 \<le> ?l" using dec_not_Nil [of m] by (cases "dec m") auto
  have "(10::rat) powi (?l - 1) = of_int (10 ^ (length (dec m) - 1))"
    using l by (simp add: power_int_nonneg_exp nat_diff_distrib)
  also have "\<dots> \<le> of_int m" using dec_length [OF m(1)] by (simp only: of_int_le_iff)
  finally have "(10::rat) powi (?l - 1) * 10 powi (- d) \<le> of_int m * 10 powi (- d)" by simp
  also have "\<dots> < 2 powi 1024" using m by (intro fl_bound [OF m(2)]) simp
  also have "\<dots> < (10::rat) powi 1024" by (rule two_less_ten_powi) simp
  finally have "(10::rat) powi (?l - 1) * 10 powi (- d) < 10 powi 1024" .
  then have "?l - 1 - d < 1024" by (rule ten_powi_bound)
  with l assms(2) show ?thesis by simp
qed

text \<open>Both written forms, as number texts.\<close>

lemma fixed_point_text:
  assumes "0 < m"
  shows "\<exists>n fs. fixed_point m d = number_text False n fs None \<and> 0 \<le> n \<and> list_all is_digit fs
    \<and> (\<exists>k. num_from n fs = Some k \<and> (of_int k :: rat) * 10 powi (- int (length fs)) = of_int m * 10 powi (- d))"
proof (cases "d \<le> 0")
  case True
  have "(of_int (m * 10 ^ nat (- d)) :: rat) = of_int m * 10 powi (- d)"
    using True by (simp add: power_int_nonneg_exp)
  moreover have "fixed_point m d = number_text False (m * 10 ^ nat (- d)) [] None"
    using True by (simp add: fixed_point_def dec_plain)
  ultimately show ?thesis using assms by (intro exI [of _ "m * 10 ^ nat (- d)"] exI [of _ "[]"]) simp
next
  case False
  let ?w = "nat d"
  let ?fs = "digs ?w (m mod 10 ^ ?w)"
  have f: "?fs \<noteq> []" using False by (simp flip: length_0_conv)
  have "fixed_point m d = number_text False (m div 10 ^ ?w) ?fs None"
    using False f pad_dec_digs [of "m mod 10 ^ ?w" ?w]
    by (simp add: fixed_point_def number_text_def frac_text_def exp_text_def)
  moreover have "num_from (m div 10 ^ ?w) ?fs = Some m" by (simp add: num_from_digs div_mult_mod_eq)
  moreover have "list_all is_digit ?fs" by (intro digs_digits) simp
  ultimately show ?thesis using assms False
    by (intro exI [of _ "m div 10 ^ ?w"] exI [of _ ?fs]) (simp add: pos_imp_zdiv_nonneg_iff)
qed

lemma scientific_text:
  assumes "0 < m"
  shows "\<exists>n fs. scientific m d = number_text False n fs (Some (int (length (dec m)) - 1 - d))
    \<and> 0 \<le> n \<and> list_all is_digit fs \<and> num_from n fs = Some m \<and> length fs = length (dec m) - 1"
proof -
  obtain c cs where c: "dec m = c # cs" "is_digit c" using dec_not_minus [of m] assms by auto
  have v: "0 \<le> digit_val c" "digit_val c < 10" using c(2) by (simp_all add: digit_val_def is_digit_def)
  have "digit (digit_val c) = c" by (simp add: digit_val_def digit_def)
  then have d: "dec (digit_val c) = [c]" using v by (subst dec.simps) simp
  have "scientific m d = number_text False (digit_val c) cs (Some (int (length (dec m)) - 1 - d))"
    by (simp add: scientific_def number_text_def frac_text_def exp_text_def c(1) d Let_def)
  moreover have "num_from (digit_val c) cs = Some m"
    using num_from_dec [of m] assms c by simp
  moreover have "list_all is_digit cs" using dec_digits [of m] assms c by simp
  ultimately show ?thesis using v(1) c(1) by (intro exI [of _ "digit_val c"] exI [of _ cs]) simp
qed

text \<open>Text that reads back is what both forms give, with its sign.\<close>

definition reads_as :: "string \<Rightarrow> rat \<Rightarrow> bool" where
  "reads_as s a \<longleftrightarrow> number_ok s \<and> ParseFloat s = Inr (Fin a) \<and> number_ok (''-'' @ s)
     \<and> ParseFloat (''-'' @ s) = Inr (Fin (- a))"

lemma reads_as_text:
  assumes "0 \<le> n" "list_all is_digit fs" "num_from n fs = Some k" "\<bar>exp_val ex\<bar> < 100000"
    and "fl (of_int k * 10 powi (exp_val ex - int (length fs))) = Fin a"
  shows "reads_as (number_text False n fs ex) a"
proof -
  have "''-'' @ number_text False n fs ex = number_text True n fs ex" by (simp add: number_text_def)
  then show ?thesis
    using number_text_ok [OF assms(1,2)] ParseFloat_text [OF assms(1-4), of False a]
      ParseFloat_text [OF assms(1-4), of True "- a"] assms(5) fl_minus
    by (simp add: reads_as_def)
qed

lemma reads_as_fixed_point: "reads_back a m d \<Longrightarrow> reads_as (fixed_point m d) a"
proof -
  assume r: "reads_back a m d"
  then obtain n fs k where f: "fixed_point m d = number_text False n fs None" "0 \<le> n" "list_all is_digit fs"
    "num_from n fs = Some k" "(of_int k :: rat) * 10 powi (- int (length fs)) = of_int m * 10 powi (- d)"
    using fixed_point_text [of m d] unfolding reads_back_def by blast
  show ?thesis unfolding f(1)
    using r by (intro reads_as_text [OF f(2-4)]) (simp_all add: reads_back_def exp_val_def f(5))
qed

lemma reads_as_scientific:
  assumes r: "reads_back a m d" and d: "d \<le> 2000"
  shows "reads_as (scientific m d) a"
proof -
  let ?e = "int (length (dec m)) - 1 - d"
  have m: "0 < m" using r by (simp add: reads_back_def)
  obtain n fs where f: "scientific m d = number_text False n fs (Some ?e)" "0 \<le> n" "list_all is_digit fs"
    "num_from n fs = Some m" "length fs = length (dec m) - 1"
    using scientific_text [OF m, of d] by blast
  have "1 \<le> length (dec m)" using dec_not_Nil [of m] by (cases "dec m") auto
  then have "exp_val (Some ?e) - int (length fs) = - d" using f(5) by (simp add: exp_val_def)
  then have "fl (of_int m * 10 powi (exp_val (Some ?e) - int (length fs))) = Fin a"
    using r by (simp only: reads_back_def)
  then show ?thesis unfolding f(1)
    using exponent_bound [OF r d] by (intro reads_as_text [OF f(2-4)]) (simp_all add: exp_val_def)
qed

lemma shortest_decimals: "shortest n d a = (m, e) \<Longrightarrow> e \<le> d + int n"
  by (induction n arbitrary: d) (force simp: Let_def split: if_splits)+

text \<open>Every finite float64 prints as a JSON number that reads back as the value.\<close>

lemma fmt_float_reads:
  assumes "fl x = Fin x"
  shows "\<exists>s. fmt_float (Fin x) = Some s \<and> number_ok s \<and> ParseFloat s = Inr (Fin x)"
proof (cases "x = 0")
  case True
  have "ParseFloat (number_text False 0 [] None) = Inr (Fin 0)"
    using ParseFloat_text [of 0 "[]" 0 None False 0] by (simp add: exp_val_def fl_def)
  then show ?thesis using True number_ok_dec [of 0] by (simp add: fmt_float_def dec_plain [symmetric] dec_0)
next
  case False
  have a: "0 < \<bar>x\<bar>" "fl \<bar>x\<bar> = Fin \<bar>x\<bar>" using False assms fl_minus [of x x] by (auto simp: abs_if)
  let ?big = "\<bar>x\<bar> < rnd (1 / 1000000) \<or> 1000000000000000000000 \<le> \<bar>x\<bar>"
  obtain m d where big: "shortest 1384 (if \<bar>x\<bar> < 1 then 0 else - 309) \<bar>x\<bar> = (m, d)" by fastforce
  obtain m' d' where small: "shortest 1096 (- 21) \<bar>x\<bar> = (m', d')" by fastforce
  let ?s = "if ?big then scientific m d else fixed_point m' d'"
  have "reads_back \<bar>x\<bar> m d" using shortest_reads_back [OF a(2,1) _ big] by simp
  moreover have "d \<le> 2000" using shortest_decimals [OF big] by (simp split: if_splits)
  moreover have "reads_back \<bar>x\<bar> m' d'" using shortest_reads_back [OF a(2,1) _ small] by simp
  ultimately have "reads_as ?s \<bar>x\<bar>" using reads_as_scientific reads_as_fixed_point by simp
  then have "number_ok ((if x < 0 then ''-'' else []) @ ?s)"
    "ParseFloat ((if x < 0 then ''-'' else []) @ ?s) = Inr (Fin x)"
    by (cases "x < 0"; simp add: reads_as_def)+
  moreover have "fmt_float (Fin x) = Some ((if x < 0 then ''-'' else []) @ ?s)"
    using False by (simp add: fmt_float_def big small)
  ultimately show ?thesis by blast
qed

end
