(* ===== verification/CodecLaws.thy ===== *)
theory CodecLaws
  imports Codec FloatText
begin

text \<open>
  What is written to JSON reads back.  A codec, an encoder with its decoder, obeys one law: a value
  in its domain encodes to a document of bounded depth that decodes, over any value already there, to
  what the codec stores.  The locale \<open>field_codec\<close> states the law; within it a field of a struct and a
  slice built from a codec obey it too, and a struct obeys it when its fields do.  The locale is
  interpreted on every codec of the program: the integers, strings, floats, instants, statistics,
  filesystems, counters and buckets.

  The result is \<open>bucket_codes\<close>: a bucket decodes to itself with its statistics rounded to two
  decimals and without their counts.
\<close>

section \<open>The law of a codec\<close>

definition codes :: "('a \<Rightarrow> json option) \<Rightarrow> (json \<Rightarrow> 'a \<Rightarrow> 'a option) \<Rightarrow> 'a \<Rightarrow> ('a \<Rightarrow> 'a) \<Rightarrow> nat \<Rightarrow> bool" where
  "codes e d x st n \<longleftrightarrow> (\<exists>j. e x = Some j \<and> wf_json j \<and> json_depth j \<le> n \<and> (\<forall>y. d j y = Some (st y)))"

text \<open>The field of a struct that holds a value of a codec.\<close>

definition field_enc :: "('a \<Rightarrow> json option) \<Rightarrow> ('r \<Rightarrow> 'a) \<Rightarrow> 'r \<Rightarrow> json option" where
  "field_enc e get r = e (get r)"

definition field_dec :: "(json \<Rightarrow> 'a \<Rightarrow> 'a option) \<Rightarrow> ('r \<Rightarrow> 'a) \<Rightarrow> ('a \<Rightarrow> 'r \<Rightarrow> 'r) \<Rightarrow> json \<Rightarrow> 'r \<Rightarrow> 'r option" where
  "field_dec d get upd j r = map_option (\<lambda>x. upd x r) (d j (get r))"

definition zero_slice :: "'a \<Rightarrow> ('a \<Rightarrow> 'a \<Rightarrow> 'a) \<Rightarrow> 'a list \<Rightarrow> 'a list" where
  "zero_slice z store xs = map (\<lambda>x. store x z) xs"

locale field_codec =
  fixes enc :: "'a \<Rightarrow> json option" and decode :: "json \<Rightarrow> 'a \<Rightarrow> 'a option"
    and ok :: "'a \<Rightarrow> bool" and store :: "'a \<Rightarrow> 'a \<Rightarrow> 'a" and height :: nat
  assumes law: "ok x \<Longrightarrow> codes enc decode x (store x) height"
begin

lemma field_law:
  assumes "ok (get r)"
  shows "codes (field_enc enc get) (field_dec decode get upd) r (\<lambda>s. upd (store (get r) (get s)) s) height"
  using law [OF assms] by (auto simp: codes_def field_enc_def field_dec_def)

lemma list_law:
  "\<forall>x\<in>set xs. ok x \<Longrightarrow> \<exists>js. enc_list enc xs = Some js \<and> list_all wf_json js
     \<and> (\<forall>j\<in>set js. json_depth j \<le> height) \<and> json_elems decode z js = Some (zero_slice z store xs)"
proof (induction xs)
  case (Cons x xs)
  then obtain js where js: "enc_list enc xs = Some js" "list_all wf_json js"
    "\<forall>j\<in>set js. json_depth j \<le> height" "json_elems decode z js = Some (zero_slice z store xs)" by auto
  obtain j where j: "enc x = Some j" "wf_json j" "json_depth j \<le> height" "\<forall>y. decode j y = Some (store x y)"
    using law [of x] Cons.prems by (auto simp: codes_def)
  show ?case using js j by (intro exI [of _ "j # js"]) (simp add: zero_slice_def)
qed (simp add: zero_slice_def)

lemma slice_law:
  assumes "\<forall>x\<in>set xs. ok x"
  shows "codes (\<lambda>xs. map_option JArr (enc_list enc xs)) (json_slice decode z) xs (\<lambda>_. zero_slice z store xs) (Suc height)"
proof -
  obtain js where js: "enc_list enc xs = Some js" "list_all wf_json js"
    "\<forall>j\<in>set js. json_depth j \<le> height" "json_elems decode z js = Some (zero_slice z store xs)"
    using list_law [OF assms] by blast
  have "json_depth (JArr js) \<le> Suc height" using js(3) by (induction js) auto
  then show ?thesis using js by (auto simp: codes_def json_slice_def list_all_iff)
qed

end

section \<open>The basic codecs\<close>

definition u64_enc :: "u64 \<Rightarrow> json option" where "u64_enc x = Some (JNum (dec (uint x)))"
definition int_enc :: "int \<Rightarrow> json option" where "int_enc x = Some (JNum (dec_signed x))"
definition str_enc :: "string \<Rightarrow> json option" where "str_enc x = Some (JStr x)"
definition f64_enc :: "f64 \<Rightarrow> json option" where "f64_enc x = map_option JNum (fmt_float x)"
definition time_enc :: "time \<Rightarrow> json option" where "time_enc x = map_option JStr (fmt_time x)"

abbreviation replaced :: "'a \<Rightarrow> 'a \<Rightarrow> 'a" where "replaced x y \<equiv> x"

definition int_ok :: "int \<Rightarrow> bool" where
  "int_ok n \<longleftrightarrow> - 9223372036854775808 \<le> n \<and> n < 9223372036854775808"

text \<open>A finite float64.\<close>

definition finite_f64 :: "f64 \<Rightarrow> bool" where
  "finite_f64 v = (case v of Fin x \<Rightarrow> fl x = Fin x | _ \<Rightarrow> False)"

definition time_ok :: "time \<Rightarrow> bool" where
  "time_ok t \<longleftrightarrow> fmt_time t \<noteq> None"

lemma ascii_digs: "0 \<le> n \<Longrightarrow> ascii (digs w n)"
  using digs_digits [of n w] by (auto simp: ascii_def list_all_iff is_digit_def byte_def)

lemma fmt_time_ascii:
  assumes "fmt_time t = Some s"
  shows "ascii s"
proof -
  obtain y m d where c: "civil (t div day_ns) = (y, m, d)" by (cases "civil (t div day_ns)") auto
  note cc = civil_correct [OF c]
  have n: "0 \<le> m" "0 \<le> d" using cc(2,4) by simp_all
  define ns where "ns = t mod day_ns mod 1000000000"
  have "0 \<le> ns" "ns < 1000000000" by (simp_all add: ns_def)
  then have f: "ascii (frac_part ns)" using frac_digits_facts(2) [of ns]
    by (cases "ns = 0") (auto simp: frac_part_def ascii_def list_all_iff is_digit_def byte_def)
  have p: "ascii (pad_dec w k)" if "0 \<le> k" for w k
    using dec_digits [OF that] that
    by (auto simp: pad_dec_def ascii_def list_all_iff is_digit_def byte_def)
  have "0 \<le> t mod day_ns" by (simp add: day_ns_def)
  then have "0 \<le> t mod day_ns div 1000000000" by (simp add: pos_imp_zdiv_nonneg_iff)
  moreover have "byte (CHR ''-'') < 128" "byte (CHR ''T'') < 128" "byte (CHR '':'') < 128" "byte (CHR ''Z'') < 128"
    by code_simp+
  moreover have "0 \<le> y" using assms c by (auto simp: fmt_time_def Let_def split: if_splits)
  ultimately show ?thesis
    using assms n p f unfolding fmt_time_def Let_def c prod.case ns_def [symmetric] frac_part_def [symmetric]
    by (auto simp: pos_imp_zdiv_nonneg_iff split: if_splits)
qed

lemma u64_codes: "codes u64_enc json_u64 x (replaced x) 0"
  by (simp add: codes_def u64_enc_def json_u64_def number_ok_dec ParseUint_dec)

lemma int_codes: "int_ok n \<Longrightarrow> codes int_enc json_int n (replaced n) 0"
  by (simp add: codes_def int_enc_def json_int_def number_ok_dec_signed ParseInt_dec_signed int_ok_def)

lemma str_codes: "utf8 s \<Longrightarrow> codes str_enc json_str s (replaced s) 0"
  by (simp add: codes_def str_enc_def json_str_def)

lemma f64_codes:
  assumes "finite_f64 v"
  shows "codes f64_enc json_f64 v (replaced v) 0"
proof -
  from assms obtain x where x: "v = Fin x" "fl x = Fin x" by (cases v) (auto simp: finite_f64_def)
  then obtain s where "fmt_float v = Some s" "number_ok s" "ParseFloat s = Inr v"
    using fmt_float_reads by blast
  then show ?thesis by (simp add: codes_def f64_enc_def json_f64_def)
qed

lemma time_codes:
  assumes "time_ok t"
  shows "codes time_enc json_time t (replaced t) 0"
proof -
  from assms obtain s where s: "fmt_time t = Some s" by (auto simp: time_ok_def)
  then show ?thesis using parse_fmt_time [OF s] ascii_utf8 [OF fmt_time_ascii [OF s]]
    by (simp add: codes_def time_enc_def json_time_def)
qed

interpretation u64_c: field_codec u64_enc json_u64 "\<lambda>_. True" replaced 0
  by unfold_locales (rule u64_codes)

interpretation int_c: field_codec int_enc json_int int_ok replaced 0
  by unfold_locales (rule int_codes)

interpretation str_c: field_codec str_enc json_str utf8 replaced 0
  by unfold_locales (rule str_codes)

interpretation f64_c: field_codec f64_enc json_f64 finite_f64 replaced 0
  by unfold_locales (rule f64_codes)

interpretation time_c: field_codec time_enc json_time time_ok replaced 0
  by unfold_locales (rule time_codes)

section \<open>Structs\<close>

text \<open>The law of a tag: what it writes of \<open>r\<close>, it reads into any record by \<open>f\<close>.\<close>

definition tag_codes :: "'r \<Rightarrow> nat \<Rightarrow> 'r tag \<Rightarrow> ('r \<Rightarrow> 'r) \<Rightarrow> bool" where
  "tag_codes r n t f \<longleftrightarrow> utf8 (fst t) \<and> codes (fst (snd t)) (snd (snd t)) r f n"

lemma u64_tag: "utf8 k \<Longrightarrow> tag_codes r n (u64_field k get upd) (upd (get r))"
  using u64_c.field_law [where get = get and upd = upd and r = r]
  by (auto simp: tag_codes_def u64_field_def codes_def field_enc_def field_dec_def u64_enc_def)

lemma int_tag: "utf8 k \<Longrightarrow> int_ok (get r) \<Longrightarrow> tag_codes r n (int_field k get upd) (upd (get r))"
  using int_c.field_law [where get = get and upd = upd and r = r]
  by (auto simp: tag_codes_def int_field_def codes_def field_enc_def field_dec_def int_enc_def)

lemma str_tag: "utf8 k \<Longrightarrow> utf8 (get r) \<Longrightarrow> tag_codes r n (str_field k get upd) (upd (get r))"
  using str_c.field_law [where get = get and upd = upd and r = r]
  by (auto simp: tag_codes_def str_field_def codes_def field_enc_def field_dec_def str_enc_def)

lemma f64_tag: "utf8 k \<Longrightarrow> finite_f64 (get r) \<Longrightarrow> tag_codes r n (f64_field k get upd) (upd (get r))"
  using f64_c.field_law [where get = get and upd = upd and r = r]
  by (auto simp: tag_codes_def f64_field_def codes_def field_enc_def field_dec_def f64_enc_def)

lemma time_tag: "utf8 k \<Longrightarrow> time_ok (get r) \<Longrightarrow> tag_codes r n (time_field k get upd) (upd (get r))"
  using time_c.field_law [where get = get and upd = upd and r = r]
  by (auto simp: tag_codes_def time_field_def codes_def field_enc_def field_dec_def time_enc_def)

text \<open>A struct's document depends on the documents of its fields only.\<close>

lemma enc_struct_cong:
  assumes "\<And>k e d. (k, e, d) \<in> set tags \<Longrightarrow> e r = e r'"
  shows "enc_struct tags r = enc_struct tags r'"
proof -
  have "enc_fields tags r = enc_fields tags r'" using assms
  proof (induction tags)
    case (Cons t tags)
    obtain k e d where t: "t = (k, e, d)" by (cases t)
    have "e r = e r'" using Cons.prems [of k e d] t by simp
    moreover have "enc_fields tags r = enc_fields tags r'"
    proof (rule Cons.IH)
      fix k e d assume "(k, e, d) \<in> set tags"
      then show "e r = e r'" using Cons.prems [of k e d] by simp
    qed
    ultimately show ?case unfolding t by (simp split: option.split)
  qed simp
  then show ?thesis by (simp add: enc_struct_def)
qed

text \<open>A struct whose tags obey the law, under distinct names, obeys it.\<close>

lemma enc_fields_law:
  "list_all2 (tag_codes r n) tags fs \<Longrightarrow> \<exists>ms. enc_fields tags r = Some ms \<and> map fst ms = map fst tags
     \<and> (\<forall>(k, j)\<in>set ms. utf8 k \<and> wf_json j \<and> json_depth j \<le> n)
     \<and> list_all2 (\<lambda>(k, j) (t, f). k = fst t \<and> (\<forall>y. snd (snd t) j y = Some (f y))) ms (zip tags fs)"
proof (induction rule: list_all2_induct)
  case (Cons t ts f fs)
  then obtain ms where ms: "enc_fields ts r = Some ms" "map fst ms = map fst ts"
    "\<forall>(k, j)\<in>set ms. utf8 k \<and> wf_json j \<and> json_depth j \<le> n"
    "list_all2 (\<lambda>(k, j) (t, f). k = fst t \<and> (\<forall>y. snd (snd t) j y = Some (f y))) ms (zip ts fs)" by blast
  obtain k e d where t: "t = (k, e, d)" by (cases t)
  obtain j where "e r = Some j" "wf_json j" "json_depth j \<le> n" "\<forall>y. d j y = Some (f y)" "utf8 k"
    using Cons.hyps(1) t by (auto simp: tag_codes_def codes_def)
  with ms t show ?case by (intro exI [of _ "(k, j) # ms"]) simp
qed simp

lemma json_members_law:
  assumes "\<And>t. t \<in> set all \<Longrightarrow> find_field (dec_table all) (fst t) = Some (snd (snd t))"
  shows "list_all2 (\<lambda>(k, j) (t, f). k = fst t \<and> (\<forall>y. snd (snd t) j y = Some (f y))) ms (zip tags fs)
     \<Longrightarrow> set tags \<subseteq> set all \<Longrightarrow> length fs = length tags
     \<Longrightarrow> json_members (dec_table all) ms y = Some (fold (\<lambda>f. f) fs y)"
proof (induction ms arbitrary: tags fs y)
  case Nil
  then have "zip tags fs = []" by simp
  with Nil.prems(3) have "fs = []" by (cases tags; cases fs) auto
  then show ?case by simp
next
  case (Cons m ms)
  obtain k j where m: "m = (k, j)" by (cases m)
  from Cons.prems obtain t tags' f fs' where ts: "tags = t # tags'" "fs = f # fs'"
    by (cases tags; cases fs) auto
  with Cons.prems m have k: "k = fst t" "\<forall>y. snd (snd t) j y = Some (f y)" "t \<in> set all" by auto
  have "json_members (dec_table all) ms (f y) = Some (fold (\<lambda>f. f) fs' (f y))"
    using Cons.prems ts by (intro Cons.IH) auto
  with k m ts show ?case by (simp add: assms)
qed

lemma find_field_table:
  assumes "distinct (map fst tags)" "t \<in> set tags"
  shows "find_field (dec_table tags) (fst t) = Some (snd (snd t))"
proof -
  obtain k e d where t: "t = (k, e, d)" by (cases t)
  have "map fst (dec_table tags) = map fst tags" by (simp add: dec_table_def case_prod_beta comp_def)
  moreover have "(k, d) \<in> set (dec_table tags)" using assms(2) t by (force simp: dec_table_def)
  ultimately have "map_of (dec_table tags) k = Some d" using assms(1) by (intro map_of_is_SomeI) simp
  with t show ?thesis by (simp add: find_field_def)
qed

lemma struct_codes:
  assumes "list_all2 (tag_codes r n) tags fs" "distinct (map fst tags)"
  shows "codes (enc_struct tags) (dec_struct tags) r (fold (\<lambda>f. f) fs) (Suc n)"
proof -
  obtain ms where ms: "enc_fields tags r = Some ms"
    "\<forall>(k, j)\<in>set ms. utf8 k \<and> wf_json j \<and> json_depth j \<le> n"
    "list_all2 (\<lambda>(k, j) (t, f). k = fst t \<and> (\<forall>y. snd (snd t) j y = Some (f y))) ms (zip tags fs)"
    using enc_fields_law [OF assms(1)] by blast
  have "json_members (dec_table tags) ms y = Some (fold (\<lambda>f. f) fs y)" for y
    using json_members_law [OF find_field_table [OF assms(2)] ms(3)] list_all2_lengthD [OF assms(1)] by simp
  moreover have "json_depth (JObj ms) \<le> Suc n" using ms(2) by (induction ms) auto
  ultimately show ?thesis using ms(1,2) by (auto simp: codes_def enc_struct_def dec_struct_def json_struct_def)
qed

section \<open>The statistic\<close>

lemma round_away_bound: "\<bar>of_int (round_away x) :: rat\<bar> \<le> \<bar>x\<bar> + 1"
proof (cases "0 \<le> x")
  case True
  then have "0 \<le> \<lfloor>x + 1/2\<rfloor>" "round_away x = \<lfloor>x + 1/2\<rfloor>" by (simp_all add: round_away_def)
  then show ?thesis using True of_int_floor_le [of "x + 1/2"] by linarith
next
  case False
  then have "0 \<le> \<lfloor>1/2 - x\<rfloor>" "round_away x = - \<lfloor>1/2 - x\<rfloor>" by (simp_all add: round_away_def)
  then show ?thesis using False of_int_floor_le [of "1/2 - x"] by linarith
qed

text \<open>A value far from overflow rounds to a finite one.\<close>

definition moderate :: "f64 \<Rightarrow> bool" where
  "moderate v = (case v of Fin x \<Rightarrow> \<bar>x\<bar> \<le> 2 powi 1000 | _ \<Rightarrow> False)"

lemma finite_fl:
  assumes "fl x = Fin y"
  shows "finite_f64 (Fin y)"
proof -
  have y: "representable y" "y = 0 \<or> binexp y < 1024"
    using assms representable_rnd [of x] by (auto simp: fl_def Let_def split: if_splits)
  then have "rnd y = y" by (intro rnd_representable)
  with y(2) show ?thesis by (simp add: finite_f64_def fl_def)
qed

lemma powi_step: "(2::rat) powi (k + 1) = 2 * 2 powi k"
  by (simp add: powi_add)

lemma round2_finite:
  assumes "moderate v"
  shows "finite_f64 (round2 v)"
proof -
  from assms obtain x where v: "v = Fin x" and x: "\<bar>x\<bar> \<le> 2 powi 1000" by (cases v) (auto simp: moderate_def)
  have "(2::rat) powi 7 = 128" by simp
  moreover have "(1000::int) + 7 = 1007" by simp
  ultimately have p: "(2::rat) powi 1007 = 128 * 2 powi 1000" using powi_add [of 1000 7] by (simp only: mult.commute)
  have q: "(2::rat) powi 1008 = 2 * 2 powi 1007" using powi_step [of 1007] by simp
  have one: "(1::rat) \<le> 2 powi 1007" using powi_le [of 0 1007] by (simp del: powi_le)
  have b: "\<bar>x * 100\<bar> \<le> 2 powi 1007" unfolding p using x by (simp only: abs_mult)
  then have z: "fl (x * 100) = Fin (rnd (x * 100))" by (rule fl_small) simp
  have "\<bar>rnd (x * 100)\<bar> \<le> 2 powi 1007" by (rule rnd_abs_le_powi [OF _ b]) simp
  then have r: "\<bar>of_int (round_away (rnd (x * 100))) :: rat\<bar> \<le> 2 powi 1008"
    using round_away_bound [of "rnd (x * 100)"] one unfolding q by linarith
  let ?w = "of_int (round_away (rnd (x * 100))) / (100::rat)"
  have "\<bar>?w\<bar> \<le> \<bar>of_int (round_away (rnd (x * 100)))\<bar>" by simp
  then have "\<bar>?w\<bar> \<le> 2 powi 1008" using r by linarith
  then have "fl ?w = Fin (rnd ?w)" by (rule fl_small) simp
  moreover have "round2 v = fl ?w" by (simp add: round2_def v go_simps z)
  ultimately show ?thesis using finite_fl by metis
qed

definition stat_ok :: "Stat \<Rightarrow> bool" where
  "stat_ok s \<longleftrightarrow> moderate (s_Min s) \<and> moderate (s_Avg s) \<and> moderate (s_Max s)"

definition store_stat :: "Stat \<Rightarrow> Stat \<Rightarrow> Stat" where
  "store_stat s y = y\<lparr>s_Min := round2 (s_Min s), s_Avg := round2 (s_Avg s), s_Max := round2 (s_Max s)\<rparr>"

lemma stat_codes:
  assumes "stat_ok s"
  shows "codes Stat_MarshalJSON (dec_struct stat_tags) s (store_stat s) 1"
proof -
  let ?r = "s\<lparr>s_Min := round2 (s_Min s), s_Avg := round2 (s_Avg s), s_Max := round2 (s_Max s)\<rparr>"
  have f: "finite_f64 (s_Min ?r)" "finite_f64 (s_Avg ?r)" "finite_f64 (s_Max ?r)"
    using assms round2_finite by (simp_all add: stat_ok_def)
  have "codes (enc_struct stat_tags) (dec_struct stat_tags) ?r (fold (\<lambda>f. f)
      [\<lambda>y. y\<lparr>s_Min := s_Min ?r\<rparr>, \<lambda>y. y\<lparr>s_Avg := s_Avg ?r\<rparr>, \<lambda>y. y\<lparr>s_Max := s_Max ?r\<rparr>]) (Suc 0)"
    by (rule struct_codes; unfold stat_tags_def; (intro list.rel_intros f64_tag f)?) (simp_all add: f64_field_def byte_def)
  then show ?thesis by (simp add: codes_def Stat_MarshalJSON_def store_stat_def)
qed

interpretation stat_c: field_codec Stat_MarshalJSON "dec_struct stat_tags" stat_ok store_stat 1
  by unfold_locales (rule stat_codes)

lemma stat_tag: "utf8 k \<Longrightarrow> stat_ok (get r) \<Longrightarrow> 1 \<le> n \<Longrightarrow>
    tag_codes r n (stat_field k get upd) (\<lambda>y. upd (store_stat (get r) (get y)) y)"
  using stat_c.field_law [where get = get and upd = upd and r = r]
  by (auto simp: tag_codes_def stat_field_def codes_def field_enc_def field_dec_def intro: order_trans)

section \<open>Filesystems, counters, buckets\<close>

definition filesystem_ok :: "Filesystem \<Rightarrow> bool" where
  "filesystem_ok x \<longleftrightarrow> utf8 (fs_Mount x)"

lemma filesystem_codes:
  assumes "filesystem_ok x"
  shows "codes (enc_struct filesystem_tags) (dec_struct filesystem_tags) x (replaced x) 1"
proof -
  have a: "utf8 (fs_Mount x)" using assms by (simp add: filesystem_ok_def)
  have "codes (enc_struct filesystem_tags) (dec_struct filesystem_tags) x (fold (\<lambda>f. f)
      [\<lambda>y. y\<lparr>fs_Mount := fs_Mount x\<rparr>, \<lambda>y. y\<lparr>fs_Total := fs_Total x\<rparr>, \<lambda>y. y\<lparr>fs_Used := fs_Used x\<rparr>]) (Suc 0)"
    by (rule struct_codes; unfold filesystem_tags_def; (intro list.rel_intros u64_tag str_tag a)?)
      (simp_all add: str_field_def u64_field_def byte_def)
  moreover have "y\<lparr>fs_Mount := fs_Mount x, fs_Total := fs_Total x, fs_Used := fs_Used x\<rparr> = x" for y
    by (cases x; cases y) simp
  ultimately show ?thesis by (simp add: codes_def)
qed

interpretation filesystem_c: field_codec "enc_struct filesystem_tags" "dec_struct filesystem_tags"
    filesystem_ok replaced 1
  by unfold_locales (rule filesystem_codes)

lemma counters_codes: "codes (enc_struct counters_tags) (dec_struct counters_tags) x (replaced x) 1"
proof -
  have "codes (enc_struct counters_tags) (dec_struct counters_tags) x (fold (\<lambda>f. f)
      [\<lambda>y. y\<lparr>c_NetRxBytes := c_NetRxBytes x\<rparr>, \<lambda>y. y\<lparr>c_NetTxBytes := c_NetTxBytes x\<rparr>,
       \<lambda>y. y\<lparr>c_DiskReadBytes := c_DiskReadBytes x\<rparr>, \<lambda>y. y\<lparr>c_DiskWriteBytes := c_DiskWriteBytes x\<rparr>,
       \<lambda>y. y\<lparr>c_UptimeSeconds := c_UptimeSeconds x\<rparr>]) (Suc 0)"
    by (rule struct_codes; unfold counters_tags_def; (intro list.rel_intros u64_tag)?)
      (simp_all add: u64_field_def byte_def)
  moreover have "y\<lparr>c_NetRxBytes := c_NetRxBytes x, c_NetTxBytes := c_NetTxBytes x,
      c_DiskReadBytes := c_DiskReadBytes x, c_DiskWriteBytes := c_DiskWriteBytes x,
      c_UptimeSeconds := c_UptimeSeconds x\<rparr> = x" for y
    by (cases x; cases y) simp
  ultimately show ?thesis by (simp add: codes_def)
qed

interpretation counters_c: field_codec "enc_struct counters_tags" "dec_struct counters_tags"
    "\<lambda>_. True" replaced 1
  by unfold_locales (rule counters_codes)

lemma counters_tag: "utf8 k \<Longrightarrow> 1 \<le> n \<Longrightarrow> tag_codes r n (struct_field k counters_tags get upd) (upd (get r))"
  using counters_c.field_law [where get = get and upd = upd and r = r]
  by (auto simp: tag_codes_def struct_field_def codes_def field_enc_def field_dec_def intro: order_trans)

lemma filesystems_tag:
  assumes "utf8 k" "\<forall>x\<in>set (get r). filesystem_ok x" "2 \<le> n"
  shows "tag_codes r n (slice_field k filesystem_tags z get upd) (upd (get r))"
  using filesystem_c.slice_law [OF assms(2), of z] assms(1,3)
  by (auto simp: tag_codes_def slice_field_def codes_def zero_slice_def intro: order_trans)

definition bucket_ok :: "Bucket \<Rightarrow> bool" where
  "bucket_ok b \<longleftrightarrow> time_ok (b_Start b) \<and> time_ok (b_End b) \<and> int_ok (b_Samples b) \<and> utf8 (b_BootID b)
     \<and> stat_ok (b_CPUBusy b) \<and> stat_ok (b_CPUIOWait b) \<and> stat_ok (b_CPUSteal b) \<and> stat_ok (b_CPUUser b) \<and> stat_ok (b_CPUSystem b) \<and> stat_ok (b_MemUsed b)
     \<and> stat_ok (b_SwapUsed b) \<and> stat_ok (b_Load1 b) \<and> stat_ok (b_NetRx b) \<and> stat_ok (b_NetTx b) \<and> stat_ok (b_DiskRead b) \<and> stat_ok (b_DiskWrite b)
     \<and> (\<forall>x\<in>set (b_FS b). filesystem_ok x)"

definition store_bucket :: "Bucket \<Rightarrow> Bucket \<Rightarrow> Bucket" where
  "store_bucket b y = b\<lparr>b_CPUBusy := store_stat (b_CPUBusy b) (b_CPUBusy y), b_CPUIOWait := store_stat (b_CPUIOWait b) (b_CPUIOWait y),
     b_CPUSteal := store_stat (b_CPUSteal b) (b_CPUSteal y), b_CPUUser := store_stat (b_CPUUser b) (b_CPUUser y),
     b_CPUSystem := store_stat (b_CPUSystem b) (b_CPUSystem y), b_MemUsed := store_stat (b_MemUsed b) (b_MemUsed y),
     b_SwapUsed := store_stat (b_SwapUsed b) (b_SwapUsed y), b_Load1 := store_stat (b_Load1 b) (b_Load1 y),
     b_NetRx := store_stat (b_NetRx b) (b_NetRx y), b_NetTx := store_stat (b_NetTx b) (b_NetTx y),
     b_DiskRead := store_stat (b_DiskRead b) (b_DiskRead y), b_DiskWrite := store_stat (b_DiskWrite b) (b_DiskWrite y)\<rparr>"

lemma bucket_codes:
  assumes "bucket_ok b"
  shows "codes bucket_json (dec_struct bucket_tags) b (store_bucket b) 3"
proof -
  have t: "time_ok (b_Start b)" "time_ok (b_End b)" "int_ok (b_Samples b)" "utf8 (b_BootID b)"
    "\<forall>x\<in>set (b_FS b). filesystem_ok x"
    and st: "stat_ok (b_CPUBusy b)" "stat_ok (b_CPUIOWait b)" "stat_ok (b_CPUSteal b)" "stat_ok (b_CPUUser b)"
      "stat_ok (b_CPUSystem b)" "stat_ok (b_MemUsed b)" "stat_ok (b_SwapUsed b)" "stat_ok (b_Load1 b)"
      "stat_ok (b_NetRx b)" "stat_ok (b_NetTx b)" "stat_ok (b_DiskRead b)" "stat_ok (b_DiskWrite b)"
    using assms unfolding bucket_ok_def by blast+
  let ?fs = "[\<lambda>y. y\<lparr>b_Start := b_Start b\<rparr>,
       \<lambda>y. y\<lparr>b_End := b_End b\<rparr>,
       \<lambda>y. y\<lparr>b_Samples := b_Samples b\<rparr>,
       \<lambda>y. y\<lparr>b_BootID := b_BootID b\<rparr>,
       \<lambda>y. y\<lparr>b_CPUBusy := store_stat (b_CPUBusy b) (b_CPUBusy y)\<rparr>,
       \<lambda>y. y\<lparr>b_CPUIOWait := store_stat (b_CPUIOWait b) (b_CPUIOWait y)\<rparr>,
       \<lambda>y. y\<lparr>b_CPUSteal := store_stat (b_CPUSteal b) (b_CPUSteal y)\<rparr>,
       \<lambda>y. y\<lparr>b_CPUUser := store_stat (b_CPUUser b) (b_CPUUser y)\<rparr>,
       \<lambda>y. y\<lparr>b_CPUSystem := store_stat (b_CPUSystem b) (b_CPUSystem y)\<rparr>,
       \<lambda>y. y\<lparr>b_MemUsed := store_stat (b_MemUsed b) (b_MemUsed y)\<rparr>,
       \<lambda>y. y\<lparr>b_SwapUsed := store_stat (b_SwapUsed b) (b_SwapUsed y)\<rparr>,
       \<lambda>y. y\<lparr>b_Load1 := store_stat (b_Load1 b) (b_Load1 y)\<rparr>,
       \<lambda>y. y\<lparr>b_NetRx := store_stat (b_NetRx b) (b_NetRx y)\<rparr>,
       \<lambda>y. y\<lparr>b_NetTx := store_stat (b_NetTx b) (b_NetTx y)\<rparr>,
       \<lambda>y. y\<lparr>b_DiskRead := store_stat (b_DiskRead b) (b_DiskRead y)\<rparr>,
       \<lambda>y. y\<lparr>b_DiskWrite := store_stat (b_DiskWrite b) (b_DiskWrite y)\<rparr>,
       \<lambda>y. y\<lparr>b_MemTotal := b_MemTotal b\<rparr>,
       \<lambda>y. y\<lparr>b_SwapTotal := b_SwapTotal b\<rparr>,
       \<lambda>y. y\<lparr>b_FS := b_FS b\<rparr>,
       \<lambda>y. y\<lparr>b_Counters := b_Counters b\<rparr>]"
  have "codes (enc_struct bucket_tags) (dec_struct bucket_tags) b (fold (\<lambda>f. f) ?fs) (Suc 2)"
    by (rule struct_codes; unfold bucket_tags_def;
        (intro list.rel_intros u64_tag str_tag int_tag time_tag stat_tag counters_tag filesystems_tag t st)?)
      (simp_all add: byte_def str_field_def u64_field_def int_field_def time_field_def stat_field_def
        struct_field_def slice_field_def)
  moreover have "fold (\<lambda>f. f) ?fs y = store_bucket b y" for y
    by (cases b; cases y) (simp add: store_bucket_def)
  ultimately show ?thesis by (simp only: codes_def bucket_json_def) simp
qed

interpretation bucket_c: field_codec bucket_json "dec_struct bucket_tags" bucket_ok store_bucket 3
  by unfold_locales (rule bucket_codes)

text \<open>A bucket as its JSON form keeps it, and that the form of every valid bucket does keep it so.\<close>

definition stored :: "Bucket \<Rightarrow> Bucket" where
  "stored b = store_bucket b (new_bucket 0 0)"

lemma marshal_stored:
  assumes "bucket_ok b"
  shows "\<exists>s. marshal_bucket b = Some s \<and> unmarshal_bucket s = Some (stored b)"
proof -
  obtain j where j: "bucket_json b = Some j" "wf_json j" "json_depth j \<le> 3"
    "\<forall>y. dec_struct bucket_tags j y = Some (store_bucket b y)"
    using bucket_codes [OF assms] by (auto simp: codes_def)
  then have "json_parse (render j) = Some j" by (intro json_parse_render) auto
  with j show ?thesis by (simp add: marshal_bucket_def unmarshal_bucket_def stored_def)
qed

section \<open>Rounding to two decimals is stable\<close>

text \<open>Up to twenty tera (bytes, say), where two decimals are well above the resolution of a float64.\<close>

definition small :: "f64 \<Rightarrow> bool" where
  "small v = (case v of Fin x \<Rightarrow> \<bar>x\<bar> \<le> 20000000000000 | _ \<Rightarrow> False)"

lemma round_away_unique:
  assumes "\<bar>z - of_int k\<bar> < 1/2"
  shows "round_away z = k"
proof -
  have "\<lfloor>z + 1/2\<rfloor> = k" "\<lfloor>1/2 - z\<rfloor> = - k" using assms by (simp_all only: floor_eq_iff of_int_minus) linarith+
  then show ?thesis by (simp add: round_away_def)
qed

lemma hundredths:
  assumes "\<bar>k\<bar> \<le> 2000000000000001"
  shows "round_away (rnd (rnd (of_int k / 100) * 100)) = k"
proof -
  let ?y = "rnd (of_int k / 100)"
  have k: "\<bar>of_int k :: rat\<bar> \<le> 2000000000000001" using assms of_int_le_numeral [of "\<bar>k\<bar>"] by simp
  have "\<bar>?y - of_int k / 100\<bar> \<le> \<bar>of_int k / 100\<bar> / 9007199254740992 + eta" by (rule rnd_error)
  then have y: "\<bar>?y * 100 - of_int k\<bar> \<le> 23 / 100" using k eta_le by (simp add: abs_le_iff field_simps) linarith
  then have "\<bar>?y * 100\<bar> \<le> 2000000000000002" using k by linarith
  moreover have "\<bar>rnd (?y * 100) - ?y * 100\<bar> \<le> \<bar>?y * 100\<bar> / 9007199254740992 + eta" by (rule rnd_error)
  ultimately have "\<bar>rnd (?y * 100) - ?y * 100\<bar> \<le> 23 / 100" using eta_le by linarith
  with y show ?thesis by (intro round_away_unique) linarith
qed

lemma round2_round2:
  assumes "small v"
  shows "round2 (round2 v) = round2 v"
proof -
  from assms obtain x where v: "v = Fin x" and x: "\<bar>x\<bar> \<le> 20000000000000" by (cases v) (auto simp: small_def)
  let ?z = "rnd (x * 100)"
  let ?k = "round_away ?z"
  have "\<bar>x * 100\<bar> \<le> 2000000000000000" using x by simp
  then have z: "fl (x * 100) = Fin ?z" "\<bar>?z\<bar> \<le> 2000000000000000"
    using fl_128 [of "x * 100"] b64.rd_le [of 2000000000000000 "x * 100"] b64.rd_ge [of "- 2000000000000000" "x * 100"]
      representable_of_int [of 2000000000000000] representable_of_int [of "- 2000000000000000"]
    by (simp_all add: abs_le_iff)
  have k: "\<bar>?k\<bar> \<le> 2000000000000001" using round_away_bound [of ?z] z(2) by linarith
  let ?y = "rnd (of_int ?k / 100)"
  have kr: "\<bar>of_int ?k :: rat\<bar> \<le> 2000000000000001" using k of_int_le_numeral [of "\<bar>?k\<bar>"] by simp
  have y: "fl (of_int ?k / 100) = Fin ?y" using kr by (intro fl_128) (simp add: abs_le_iff)
  have "\<bar>?y\<bar> \<le> 20000000000002" using rnd_error [of "of_int ?k / 100"] kr eta_le by linarith
  then have "fl (?y * 100) = Fin (rnd (?y * 100))" by (intro fl_128) (simp add: abs_le_iff)
  with z y hundredths [OF k] show ?thesis by (simp add: round2_def v go_simps)
qed

section \<open>Decoded numbers fit their types\<close>

lemma ParseInt_range: "ParseInt s = Some n \<Longrightarrow> int_ok n"
proof -
  have nonneg: "0 \<le> m \<Longrightarrow> parse_digits m s = Inr k \<Longrightarrow> 0 \<le> k" for m k s
  proof (induction s arbitrary: m)
    case (Cons c s)
    then have "parse_digits (m * 10 + digit_val c) s = Inr k" "0 \<le> m * 10 + digit_val c"
      by (auto simp: Let_def is_digit_def digit_val_def split: if_splits)
    with Cons.IH show ?case by blast
  qed simp
  assume p: "ParseInt s = Some n"
  obtain neg t where t: "opt_sign s = (neg, t)" by (cases "opt_sign s")
  with p obtain k where "parse_digits 0 t = Inr k" "n = (if neg then - k else k)"
    "if neg then k \<le> 9223372036854775808 else k < 9223372036854775808"
    by (cases "parse_digits 0 t") (auto simp: ParseInt_def split: if_splits)
  with nonneg [of 0 t k] show ?thesis by (auto simp: int_ok_def split: if_splits)
qed

lemma json_members_invariant:
  assumes "\<And>k f j r r'. (k, f) \<in> set tab \<Longrightarrow> f j r = Some r' \<Longrightarrow> P r \<Longrightarrow> P r'"
  shows "json_members tab ms r = Some r' \<Longrightarrow> P r \<Longrightarrow> P r'"
proof (induction ms arbitrary: r)
  case (Cons m ms)
  obtain k j where m: "m = (k, j)" by (cases m)
  show ?case
  proof (cases "find_field tab k")
    case None
    with Cons m show ?thesis by simp
  next
    case (Some f)
    then have "f \<in> snd ` set tab"
      by (force simp: find_field_def split: option.splits dest!: map_of_SomeD)
    then obtain n where "(n, f) \<in> set tab" by auto
    moreover obtain r1 where "f j r = Some r1" "json_members tab ms r1 = Some r'"
      using Cons.prems(1) m Some by (auto split: option.splits)
    ultimately show ?thesis using assms Cons by blast
  qed
qed simp

lemma json_struct_invariant:
  assumes "\<And>k f j r r'. (k, f) \<in> set tab \<Longrightarrow> f j r = Some r' \<Longrightarrow> P r \<Longrightarrow> P r'"
    and "json_struct tab j r = Some r'" and "P r"
  shows "P r'"
  using assms json_members_invariant [of tab P]
  by (cases j) (auto simp: json_struct_def split: if_splits)

definition config_typed :: "config \<Rightarrow> bool" where
  "config_typed c \<longleftrightarrow> int_ok (IntervalSeconds c) \<and> int_ok (FlushSeconds c) \<and> int_ok (WindowSeconds c)"

lemma json_int_ok: "json_int j x = Some y \<Longrightarrow> int_ok x \<Longrightarrow> int_ok y"
  using ParseInt_range by (auto simp: json_int_def split: json.splits)

lemma response_typed:
  assumes "unmarshal_response s = Some r"
  shows "int_ok (Accepted r) \<and> config_typed (Config r)"
proof -
  let ?P = "\<lambda>r :: response. int_ok (Accepted r) \<and> config_typed (Config r)"
  obtain j where j: "dec_struct response_tags j zero_response = Some r"
    using assms by (auto simp: unmarshal_response_def split: option.splits)
  have cfg: "config_typed c'" if "dec_struct config_tags i c = Some c'" "config_typed c" for i c c'
    using that unfolding dec_struct_def
    by (rule json_struct_invariant [rotated])
      (auto simp: config_tags_def dec_table_def int_field_def config_typed_def dest: json_int_ok)
  have "?P zero_response" by (simp add: zero_response_def config_typed_def int_ok_def)
  from j [unfolded dec_struct_def] this show ?thesis
    by (rule json_struct_invariant [where P = ?P, rotated])
      (auto simp: response_tags_def dec_table_def int_field_def struct_field_def dest: json_int_ok cfg)
qed

text \<open>An integer that does not fit is an error, and so is a struct with a member that is one.\<close>

lemma json_int_dec: "json_int (JNum (dec_signed n)) x = (if int_ok n then Some n else None)"
  using ParseInt_dec_signed [of n] ParseInt_dec_signed_big [of n] by (auto simp: json_int_def int_ok_def)

lemma json_members_all:
  "json_members tab ms r = Some r' \<Longrightarrow> (k, j) \<in> set ms \<Longrightarrow> find_field tab k = Some f \<Longrightarrow> \<exists>x. f j x \<noteq> None"
proof (induction ms arbitrary: r)
  case (Cons m ms)
  obtain k' j' where m: "m = (k', j')" by (cases m)
  then obtain r1 where "json_members tab ms r1 = Some r'"
    "find_field tab k' = Some f \<longrightarrow> f j' r \<noteq> None"
    using Cons.prems(1) by (cases "find_field tab k'") (auto split: option.splits)
  with Cons m show ?case by (cases "m = (k, j)") auto
qed simp

lemma lower_letters: "lower CHR ''a'' = CHR ''a''" "lower CHR ''c'' = CHR ''c''" "lower CHR ''d'' = CHR ''d''"
  "lower CHR ''e'' = CHR ''e''" "lower CHR ''f'' = CHR ''f''" "lower CHR ''g'' = CHR ''g''"
  "lower CHR ''h'' = CHR ''h''" "lower CHR ''i'' = CHR ''i''" "lower CHR ''l'' = CHR ''l''"
  "lower CHR ''n'' = CHR ''n''" "lower CHR ''o'' = CHR ''o''" "lower CHR ''p'' = CHR ''p''"
  "lower CHR ''r'' = CHR ''r''" "lower CHR ''s'' = CHR ''s''" "lower CHR ''t'' = CHR ''t''"
  "lower CHR ''u'' = CHR ''u''" "lower CHR ''v'' = CHR ''v''" "lower CHR ''w'' = CHR ''w''"
  by code_simp+

text \<open>A field is found by its name in any capitalisation.\<close>

lemma find_field_lower:
  assumes "map (\<lambda>(n, f). (map lower n, f)) tab = tab" and "map_of tab (map lower k) = Some f"
  shows "find_field tab k = Some f"
proof (cases "map_of tab k")
  case (Some g)
  then have "(map lower k, g) \<in> set (map (\<lambda>(n, f). (map lower n, f)) tab)" "(k, g) \<in> set tab"
    by (force dest: map_of_SomeD)+
  have "map lower k = k"
  proof -
    have "\<forall>(n, f)\<in>set tab. map lower n = n"
      using assms(1) by (auto simp: map_idI list.map_ident dest!: map_eq_conv [THEN iffD1, of _ _ id, simplified])
    with \<open>(k, g) \<in> set tab\<close> show ?thesis by auto
  qed
  then show ?thesis using assms(2) Some by (simp add: find_field_def)
next
  case None
  then show ?thesis using assms by (simp add: find_field_def)
qed

lemma response_names: "map (\<lambda>(n, f). (map lower n, f)) (dec_table response_tags) = dec_table response_tags"
  by (simp add: dec_table_def response_tags_def int_field_def struct_field_def lower_letters)

lemma config_names: "map (\<lambda>(n, f). (map lower n, f)) (dec_table config_tags) = dec_table config_tags"
  by (simp add: dec_table_def config_tags_def int_field_def lower_letters)

lemma find_field_accepted:
  "map lower k = ''accepted'' \<Longrightarrow> find_field (dec_table response_tags) k = Some (snd (snd (response_tags ! 0)))"
  by (rule find_field_lower [OF response_names]) (simp add: dec_table_def response_tags_def int_field_def)

lemma find_field_config:
  "map lower k = ''config'' \<Longrightarrow> find_field (dec_table response_tags) k = Some (snd (snd (response_tags ! 1)))"
  by (rule find_field_lower [OF response_names]) (simp add: dec_table_def response_tags_def int_field_def struct_field_def)

lemma config_field:
  "t \<in> {''interval'', ''flush'', ''window''} \<Longrightarrow> \<exists>tag\<in>set config_tags. map_of (dec_table config_tags) t = Some (snd (snd tag))"
  by (auto simp: dec_table_def config_tags_def int_field_def)

lemma config_tag_int:
  "tag \<in> set config_tags \<Longrightarrow> snd (snd tag) (JNum (dec_signed n)) x \<noteq> None \<Longrightarrow> int_ok n"
  by (auto simp: config_tags_def int_field_def json_int_dec split: if_splits)

lemma find_field_period:
  assumes "map lower k \<in> {''interval'', ''flush'', ''window''}"
  shows "\<exists>tag\<in>set config_tags. find_field (dec_table config_tags) k = Some (snd (snd tag))"
proof -
  obtain tag where t: "tag \<in> set config_tags" "map_of (dec_table config_tags) (map lower k) = Some (snd (snd tag))"
    using config_field [OF assms] by (elim bexE)
  from find_field_lower [OF config_names t(2)] t(1) show ?thesis by (rule bexI)
qed

lemma response_members_fit:
  assumes "unmarshal_response s = Some r" and "json_parse s = Some (JObj ms)"
  shows "(k, JNum (dec_signed n)) \<in> set ms \<Longrightarrow> map lower k = ''accepted'' \<Longrightarrow> int_ok n"
    and "(k, JObj cs) \<in> set ms \<Longrightarrow> map lower k = ''config'' \<Longrightarrow> (k', JNum (dec_signed n)) \<in> set cs \<Longrightarrow>
       map lower k' \<in> {''interval'', ''flush'', ''window''} \<Longrightarrow> int_ok n"
proof -
  have m: "json_members (dec_table response_tags) ms zero_response = Some r"
    using assms by (simp add: unmarshal_response_def dec_struct_def json_struct_def)
  show "int_ok n" if k: "(k, JNum (dec_signed n)) \<in> set ms" "map lower k = ''accepted''"
    using json_members_all [OF m k(1) find_field_accepted [OF k(2)]]
    by (auto simp: response_tags_def int_field_def json_int_dec split: if_splits)
  show "int_ok n" if k: "(k, JObj cs) \<in> set ms" "map lower k = ''config''"
    and k': "(k', JNum (dec_signed n)) \<in> set cs" "map lower k' \<in> {''interval'', ''flush'', ''window''}"
  proof -
    obtain c c' where "json_members (dec_table config_tags) cs c = Some c'"
      using json_members_all [OF m k(1) find_field_config [OF k(2)]]
      by (auto simp: response_tags_def struct_field_def dec_struct_def json_struct_def)
    note c = this
    obtain tag where t: "tag \<in> set config_tags" "find_field (dec_table config_tags) k' = Some (snd (snd tag))"
      using find_field_period [OF k'(2)] by (elim bexE)
    obtain x where "snd (snd tag) (JNum (dec_signed n)) x \<noteq> None" using json_members_all [OF c k'(1) t(2)] by (elim exE)
    with t(1) show ?thesis by (rule config_tag_int)
  qed
qed

text \<open>The reply as the platform writes it, with any integers.\<close>

definition reply_text :: "int \<Rightarrow> int \<Rightarrow> int \<Rightarrow> int \<Rightarrow> string" where
  "reply_text a i f w = render (JObj [(''accepted'', JNum (dec_signed a)), (''config'',
     JObj [(''interval'', JNum (dec_signed i)), (''flush'', JNum (dec_signed f)), (''window'', JNum (dec_signed w))])])"

lemma unmarshal_reply_text:
  "unmarshal_response (reply_text a i f w) = (if int_ok a \<and> int_ok i \<and> int_ok f \<and> int_ok w
     then Some \<lparr>Accepted = a, Config = \<lparr>IntervalSeconds = i, FlushSeconds = f, WindowSeconds = w\<rparr>\<rparr> else None)"
proof -
  have "json_parse (reply_text a i f w) = Some (JObj [(''accepted'', JNum (dec_signed a)), (''config'',
     JObj [(''interval'', JNum (dec_signed i)), (''flush'', JNum (dec_signed f)), (''window'', JNum (dec_signed w))])])"
    unfolding reply_text_def by (rule json_parse_render) (simp_all add: number_ok_dec_signed byte_def)
  then show ?thesis
    by (simp add: unmarshal_response_def dec_struct_def json_struct_def find_field_def dec_table_def
        response_tags_def config_tags_def int_field_def struct_field_def json_int_dec zero_response_def)
qed

text \<open>
  C32.  The numbers of a reply are taken exactly or not at all.  The reply written with any four
  integers is decoded to these integers when they all fit an \<open>int\<close>, and is an error when one does not.
  Whatever other text the platform sends, what is decoded from it fits its Go type, and an object with an
  integer that does not fit under one of the names of the reply, however it is capitalised and whatever
  else is there, is an error.  No value is wrapped or clamped.
\<close>

theorem decoded_response_typed:
  "(unmarshal_response (reply_text a i f w) = (if int_ok a \<and> int_ok i \<and> int_ok f \<and> int_ok w
      then Some \<lparr>Accepted = a, Config = \<lparr>IntervalSeconds = i, FlushSeconds = f, WindowSeconds = w\<rparr>\<rparr> else None))
   \<and> (unmarshal_response s = Some r \<longrightarrow> int_ok (Accepted r) \<and> config_typed (Config r)
      \<and> (\<forall>ms. json_parse s = Some (JObj ms) \<longrightarrow>
           (\<forall>k n. (k, JNum (dec_signed n)) \<in> set ms \<and> map lower k = ''accepted'' \<longrightarrow> int_ok n)
         \<and> (\<forall>k cs k' n. (k, JObj cs) \<in> set ms \<and> map lower k = ''config'' \<and> (k', JNum (dec_signed n)) \<in> set cs
              \<and> map lower k' \<in> {''interval'', ''flush'', ''window''} \<longrightarrow> int_ok n)))"
proof (intro conjI impI allI; (elim conjE)?)
  show "unmarshal_response (reply_text a i f w) = (if int_ok a \<and> int_ok i \<and> int_ok f \<and> int_ok w
      then Some \<lparr>Accepted = a, Config = \<lparr>IntervalSeconds = i, FlushSeconds = f, WindowSeconds = w\<rparr>\<rparr> else None)"
    by (rule unmarshal_reply_text)
  show "int_ok (Accepted r)" "config_typed (Config r)" if "unmarshal_response s = Some r"
    using response_typed [OF that] by simp_all
qed (rule response_members_fit(1) response_members_fit(2); assumption)+

theorem decoded_response_typed_witness:
  "\<exists>r. unmarshal_response ''{\"accepted\":3,\"config\":{\"interval\":5}}'' = Some r \<and> int_ok (Accepted r)
     \<and> unmarshal_response (reply_text 3 5 9223372036854775808 0) = None"
proof -
  have "unmarshal_response ''{\"accepted\":3,\"config\":{\"interval\":5}}'' \<noteq> None" by code_simp
  then obtain r where "unmarshal_response ''{\"accepted\":3,\"config\":{\"interval\":5}}'' = Some r" by auto
  with decoded_response_typed [of 3 5 9223372036854775808 0 "''{\"accepted\":3,\"config\":{\"interval\":5}}''" r]
  show ?thesis by (simp add: int_ok_def)
qed

end
