(* ===== verification/Accounting.thy ===== *)
theory Accounting
  imports Uploading CodecLaws
begin

text \<open>
  No window disappears silently.  Each handler of the loop is shown to account for a window: it is
  still queued after the handler, or the log says what became of it, that it was part of a batch sent
  and settled, or that the cap dropped windows, or its name was given to another window.  Accounts compose,
  so the same holds of a run.

  A later window overwrites an earlier one only under its name, so the accounts name the windows stored
  meanwhile: \<open>given\<close> lists the names that the steps of a run gave.  \<open>entry_name_seq\<close> shows that none of them
  is a name the process gave before, until its 32-bit sequence number wraps.
\<close>

section \<open>Sequence numbers in names\<close>

lemma parse_digits_zeros: "parse_digits 0 (replicate m (CHR ''0'') @ s) = parse_digits 0 s"
  by (induction m) (simp_all add: is_digit_def digit_val_def)

lemma parse_pad_dec: "0 \<le> n \<Longrightarrow> n < 18446744073709551616 \<Longrightarrow> parse_digits 0 (pad_dec w n) = Inr n"
  by (simp add: pad_dec_def parse_digits_zeros parse_dec)

lemma pad_dec_no_dash: "0 \<le> n \<Longrightarrow> CHR ''-'' \<notin> set (pad_dec w n)"
  using dec_digits [of n] by (auto simp: pad_dec_def list_all_iff is_digit_def)

lemma last_dash:
  assumes "u @ x # v = u' @ x # v'" and "x \<notin> set v" and "x \<notin> set v'"
  shows "v = v'"
proof -
  have "rev v @ x # rev u = rev v' @ x # rev u'" using arg_cong [OF assms(1), of rev] by simp
  then have "takeWhile (\<lambda>y. y \<noteq> x) (rev v @ x # rev u) = takeWhile (\<lambda>y. y \<noteq> x) (rev v' @ x # rev u')" by simp
  moreover have "takeWhile (\<lambda>y. y \<noteq> x) (rev w @ x # rev z) = rev w" if "x \<notin> set w" for w z
    using that by (subst takeWhile_append2) auto
  ultimately show ?thesis using assms(2,3) by simp
qed

lemma entry_name_seq:
  assumes "entry_name j b = entry_name k c"
  shows "j = k"
proof -
  let ?n = "\<lambda>b k. pad_dec 20 (UnixNano (b_Start b)) @ CHR ''-'' # pad_dec 6 (uint (k :: u32))"
  have "?n b j = ?n c k" using assms unfolding entry_name_def by simp
  then have p: "pad_dec 6 (uint j) = pad_dec 6 (uint k)"
    by (rule last_dash) (intro pad_dec_no_dash uint_ge_0)+
  have u: "uint x < 18446744073709551616" for x :: u32 by (rule order.strict_trans [OF uint_lt2p]) simp
  have "Inr (uint j) = (Inr (uint k) :: num_error + int)"
    using arg_cong [OF p, of "parse_digits 0"] parse_pad_dec [OF uint_ge_0 u [of j], of 6]
      parse_pad_dec [OF uint_ge_0 u [of k], of 6] by (simp only:)
  then show ?thesis by (simp only: sum.inject word_uint_eq_iff)
qed

section \<open>Accounts\<close>

text \<open>The log says that a batch with the window was sent and answered for good.\<close>

definition settled_in :: "Bucket \<Rightarrow> event list \<Rightarrow> bool" where
  "settled_in b l \<longleftrightarrow> (\<exists>bs l1 m e l2. b \<in> set bs \<and> l = l1 @ Sent bs # m @ e # l2
     \<and> (m = [] \<or> (\<exists>x. m = [DiscardFailed x]))
     \<and> (e = WindowsRejected (int (length bs)) \<or> (\<exists>n. e = Uploaded (int (length bs)) n)))"

text \<open>The log says that the cap dropped windows, or was dropping them when a removal failed.\<close>

definition drop_reported :: "event list \<Rightarrow> bool" where
  "drop_reported l \<longleftrightarrow> (\<exists>k. DroppedOldest k \<in> set l) \<or> (\<exists>n. SpoolWriteFailed (DropError n) \<in> set l)"

definition excused :: "Bucket \<Rightarrow> event list \<Rightarrow> bool" where
  "excused b l \<longleftrightarrow> settled_in b l \<or> drop_reported l"

lemma settled_in_append: "settled_in b l \<Longrightarrow> settled_in b (u @ l @ v)"
  unfolding settled_in_def by (elim exE conjE) (metis append.assoc append_Cons)

lemma excused_append:
  assumes "excused b u \<or> excused b v"
  shows "excused b (u @ v)"
proof -
  have "settled_in b (u @ v)" if "settled_in b u \<or> settled_in b v"
    using that settled_in_append [of b u "[]" v] settled_in_append [of b v u "[]"] by auto
  with assms show ?thesis by (auto simp: excused_def drop_reported_def)
qed

abbreviation seq_at :: "state \<Rightarrow> u32" where
  "seq_at s \<equiv> sp_seq (ag_Spool (fst s))"

text \<open>A well-formed directory, and drops that are reported.\<close>

definition sound :: "state \<Rightarrow> bool" where
  "sound s \<longleftrightarrow> disk_ok (w_disk (snd s)) \<and> sp_OnDrop (ag_Spool (fst s))"

text \<open>
  The name that a step gave: a step stores at most one window, the one in progress before it, and gave it a
  name when the sequence number moved.
\<close>

definition added :: "state \<Rightarrow> state \<Rightarrow> string list" where
  "added s s' = (if seq_at s' = seq_at s then []
     else case agg_current (ag_agg (fst s)) of None \<Rightarrow> [] | Some b \<Rightarrow> [entry_name (seq_at s + 1) b])"

text \<open>A part of a handler that stores nothing, and one that may.\<close>

definition settles :: "string \<Rightarrow> Bucket \<Rightarrow> state \<Rightarrow> state \<Rightarrow> bool" where
  "settles n b s s' \<longleftrightarrow> sound s' \<and> seq_at s' = seq_at s \<and> (\<exists>l. w_log (snd s') = w_log (snd s) @ l
     \<and> ((n, b) \<in> set (queue_at s) \<longrightarrow> (n, b) \<in> set (queue_at s') \<or> excused b l))"

definition accounts :: "string \<Rightarrow> Bucket \<Rightarrow> state \<Rightarrow> state \<Rightarrow> bool" where
  "accounts n b s s' \<longleftrightarrow> sound s'
     \<and> (seq_at s' = seq_at s \<or> (\<exists>c. agg_current (ag_agg (fst s)) = Some c) \<and> seq_at s' = seq_at s + 1)
     \<and> (\<exists>l. w_log (snd s') = w_log (snd s) @ l
          \<and> ((n, b) \<in> set (queue_at s) \<longrightarrow> (n, b) \<in> set (queue_at s') \<or> excused b l \<or> n \<in> set (added s s')))"

lemma settles_accounts: "settles n b s s' \<Longrightarrow> accounts n b s s'"
  by (auto simp: settles_def accounts_def)

lemma accounts_idle: "accounts n b s s' \<Longrightarrow> agg_current (ag_agg (fst s)) = None \<Longrightarrow> settles n b s s'"
  by (auto simp: settles_def accounts_def added_def)

lemma accounts_settles:
  assumes "accounts n b s s'" and "settles n b s' s''"
  shows "accounts n b s s''"
proof -
  obtain l where l: "w_log (snd s') = w_log (snd s) @ l"
    "(n, b) \<in> set (queue_at s) \<longrightarrow> (n, b) \<in> set (queue_at s') \<or> excused b l \<or> n \<in> set (added s s')"
    using assms(1) unfolding accounts_def by blast
  obtain l' where l': "w_log (snd s'') = w_log (snd s') @ l'" "seq_at s'' = seq_at s'"
    "(n, b) \<in> set (queue_at s') \<longrightarrow> (n, b) \<in> set (queue_at s'') \<or> excused b l'"
    using assms(2) unfolding settles_def by blast
  have "(n, b) \<in> set (queue_at s) \<longrightarrow> (n, b) \<in> set (queue_at s'') \<or> excused b (l @ l') \<or> n \<in> set (added s s'')"
    using l(2) l'(2,3) excused_append [of b l l'] by (auto simp: added_def)
  with l(1) l'(1,2) assms show ?thesis unfolding accounts_def settles_def by auto
qed

lemma settles_trans_accounts:
  assumes "settles n b s s'" and "accounts n b s' s''" and "ag_agg (fst s') = ag_agg (fst s)"
  shows "accounts n b s s''"
proof -
  obtain l where l: "w_log (snd s') = w_log (snd s) @ l" "seq_at s' = seq_at s"
    "(n, b) \<in> set (queue_at s) \<longrightarrow> (n, b) \<in> set (queue_at s') \<or> excused b l"
    using assms(1) unfolding settles_def by blast
  obtain l' where l': "w_log (snd s'') = w_log (snd s') @ l'"
    "(n, b) \<in> set (queue_at s') \<longrightarrow> (n, b) \<in> set (queue_at s'') \<or> excused b l' \<or> n \<in> set (added s' s'')"
    using assms(2) unfolding accounts_def by blast
  have "(n, b) \<in> set (queue_at s) \<longrightarrow> (n, b) \<in> set (queue_at s'') \<or> excused b (l @ l') \<or> n \<in> set (added s s'')"
    using l(2,3) l'(2) excused_append [of b l l'] assms(3) by (auto simp: added_def)
  with l(1,2) l'(1) assms show ?thesis unfolding accounts_def by auto
qed

text \<open>A change of the settings, the aggregator, the backoff or the end of the log settles nothing and loses nothing.\<close>

lemma settles_same:
  assumes "sound s" and "ag_Spool (fst s') = ag_Spool (fst s)" and "disk_ok (w_disk (snd s'))"
    and "queue_at s' = queue_at s" and "w_log (snd s') = w_log (snd s) @ l"
  shows "settles n b s s'"
  using assms by (auto simp: settles_def sound_def)

section \<open>Storing a window\<close>

lemma queue_of_view: "(n, b) \<in> set (queue_of d) \<longleftrightarrow> (\<exists>c. (n, c) \<in> set (view d) \<and> unmarshal_bucket c = Some b)"
proof -
  have "(n, b) \<in> set (decoded v) \<longleftrightarrow> (\<exists>c. (n, c) \<in> set v \<and> unmarshal_bucket c = Some b)" for v
    by (induction v) (auto split: option.splits)
  then show ?thesis by (simp add: queue_decoded)
qed

text \<open>Publishing an entry keeps every entry of another name.\<close>

lemma spool_write_keeps:
  assumes "dir_ok d" and "filepath_Ext m = ext" and "list_all is_digit (ft_suffix f)"
    and "spool_write f m p d = (ds, r)" and "n \<noteq> m" and "(n, c) \<in> set (view d)"
  shows "(n, c) \<in> set (view (last ds))"
proof -
  have "(n, c) \<in> set (view (put m (File p) d))"
  proof (cases "is_entry d m")
    case True
    show ?thesis unfolding view_put_old [OF assms(1) True] using assms(5,6) by force
  next
    case False
    with assms show ?thesis by (simp add: view_put_new set_insort_key)
  qed
  with spool_write_atomic_aux [OF assms(1-4)] assms(6) show ?thesis by (auto split: if_splits)
qed

lemma Add_accounts:
  assumes "disk_ok disk" and "list_all is_digit (ft_suffix f)" and "sp_OnDrop s"
    and "Add f c s disk = (s', disk', err, calls)"
  shows "s' = s \<and> set (disk_queue disk) \<subseteq> set (disk_queue disk')
    \<or> s' = s\<lparr>sp_seq := sp_seq s + 1\<rparr>
      \<and> ((n, b) \<in> set (disk_queue disk) \<longrightarrow> (n, b) \<in> set (disk_queue disk')
          \<or> n = entry_name (sp_seq s + 1) c \<or> calls \<noteq> [] \<or> (\<exists>x. err = Some (DropError x)))"
proof -
  let ?d = "case disk of None \<Rightarrow> [] | Some d \<Rightarrow> d"
  have ok: "dir_ok ?d" using assms(1) by (cases disk) (simp_all add: dir_ok_def)
  have q: "set (disk_queue disk) \<subseteq> set (queue_of ?d)" by (cases disk) simp_all
  show ?thesis
  proof (cases "ft_mkdir f \<or> marshal_bucket c = None")
    case True
    with assms(4) q show ?thesis by (auto simp: Add_def split: if_splits)
  next
    case False
    then obtain p where p: "marshal_bucket c = Some p" by auto
    let ?n = "entry_name (sp_seq s + 1) c" and ?s = "s\<lparr>sp_seq := sp_seq s + 1\<rparr>"
    obtain ds r where w: "spool_write f ?n p ?d = (ds, r)" by (cases "spool_write f ?n p ?d")
    have keep: "(n, b) \<in> set (queue_of (last ds))" if qd: "(n, b) \<in> set (disk_queue disk)" "n \<noteq> ?n"
    proof -
      obtain x where "(n, x) \<in> set (view ?d)" "unmarshal_bucket x = Some b"
        using qd(1) q queue_of_view [of n b ?d] by blast
      then show ?thesis
        using spool_write_keeps [OF ok filepath_Ext_entry assms(2) w qd(2)] queue_of_view by blast
    qed
    show ?thesis
    proof (cases r)
      case (Some e)
      with False assms(4) p w keep show ?thesis by (auto simp: Add_def spool_name_def)
    next
      case None
      then have s': "s' = ?s" and e: "enforceCap f ?s (Some (last ds)) = (disk', err, calls)"
        using False assms(4) p w by (auto simp: Add_def spool_name_def)
      have "sp_OnDrop ?s" using assms(3) by simp
      from enforceCap_reports [OF e this] keep s' show ?thesis by auto
    qed
  qed
qed

text \<open>Storing the window in progress, after a change of the rest of the agent.\<close>

lemma persist_accounts:
  assumes "sound (a, w)" and "list_all is_digit (ft_suffix f)" and "agg_current (ag_agg a) = Some c"
    and "ag_Spool a' = ag_Spool a"
  shows "accounts n b (a, w) (persist f c (a', w))"
proof -
  let ?sp = "ag_Spool a"
  have ok: "disk_ok (w_disk w)" and dr: "sp_OnDrop ?sp" using assms(1) by (simp_all add: sound_def)
  obtain sp' disk' err calls where A: "Add f c ?sp (w_disk w) = (sp', disk', err, calls)"
    by (cases "Add f c ?sp (w_disk w)")
  note acc = Add_accounts [OF ok assms(2) dr A, of n b]
  have ok': "disk_ok disk'" using Add_disk_ok [OF ok, of f c ?sp] A by simp
  let ?l = "map DroppedOldest calls @ (case err of None \<Rightarrow> [] | Some e \<Rightarrow> [SpoolWriteFailed e])"
  have r: "fst (persist f c (a', w)) = a'\<lparr>ag_Spool := sp'\<rparr>" "w_disk (snd (persist f c (a', w))) = disk'"
    "w_log (snd (persist f c (a', w))) = w_log w @ ?l"
    using A assms(4) by (auto simp: persist_def Let_def split: option.splits)
  have sp: "sp' = ?sp \<or> sp' = ?sp\<lparr>sp_seq := sp_seq ?sp + 1\<rparr>" using acc by blast
  have "drop_reported ?l" if "calls \<noteq> [] \<or> (\<exists>x. err = Some (DropError x))"
    using that by (cases calls) (auto simp: drop_reported_def)
  then have "(n, b) \<in> set (disk_queue (w_disk w)) \<longrightarrow>
      (n, b) \<in> set (disk_queue disk') \<or> excused b ?l \<or> n \<in> set (added (a, w) (persist f c (a', w)))"
    using acc assms(3) r(1) by (auto simp: excused_def added_def)
  moreover have "sp_OnDrop sp'" using sp dr by auto
  ultimately show ?thesis
    using ok' sp assms(3) unfolding accounts_def sound_def r by auto
qed

section \<open>The handlers\<close>

lemma persist_opt_accounts:
  assumes "sound (a, w)" and "list_all is_digit (ft_suffix f)" and "out = None \<or> out = agg_current (ag_agg a)"
    and "ag_Spool a' = ag_Spool a"
  shows "accounts n b (a, w) (persist_opt f out (a', w))"
proof (cases out)
  case None
  have "settles n b (a, w) (a', w)" using assms by (intro settles_same [where l = "[]"]) (simp_all add: sound_def)
  with None show ?thesis by (simp add: persist_opt_def settles_accounts)
next
  case (Some c)
  then have "agg_current (ag_agg a) = Some c" using assms(3) by simp
  from persist_accounts [OF assms(1,2) this assms(4)] show ?thesis by (simp add: persist_opt_def Some)
qed

text \<open>What the aggregator gives away is the window in progress.\<close>

lemma agg_Flush_current: "snd (agg_Flush g) = None \<or> snd (agg_Flush g) = agg_current g"
  by (auto simp: agg_Flush_def split: option.splits)

lemma agg_Add_current: "snd (agg_Add x g) = None \<or> snd (agg_Add x g) = agg_current g"
  using agg_Flush_current [of "g\<lparr>agg_prev := Some x\<rparr>"]
  by (auto simp: agg_Add_def Let_def case_prod_beta split: option.splits)

lemma sample_accounts:
  assumes "sound s" and "list_all is_digit (ft_suffix (en_add env))"
  shows "accounts n b s (sample env s)"
proof (cases s)
  case (Pair a w)
  show ?thesis
  proof (cases "Collect (en_os env) (ag_Collector a)")
    case (Inl e)
    then have "settles n b s (sample env s)"
      using assms(1) Pair by (intro settles_same [where l = "[SampleFailed e]"]) (simp_all add: sample_def sound_def)
    then show ?thesis by (rule settles_accounts)
  next
    case (Inr x)
    obtain agg out where "agg_Add x (ag_agg a) = (agg, out)" by (cases "agg_Add x (ag_agg a)")
    with Inr Pair agg_Add_current [of x "ag_agg a"]
      persist_opt_accounts [OF assms(1) [unfolded Pair] assms(2), of out "a\<lparr>ag_agg := agg\<rparr>" n b]
    show ?thesis by (simp add: sample_def)
  qed
qed

lemma applyConfig_accounts:
  assumes "sound s" and "list_all is_digit (ft_suffix (en_config_add env))"
  shows "accounts n b s (fst (applyConfig env c s))"
proof (cases s)
  case (Pair a w)
  have same: "accounts n b s (a', w\<lparr>w_log := w_log w @ l\<rparr>)" if "ag_Spool a' = ag_Spool a" for a' l
    using that assms(1) Pair by (intro settles_accounts settles_same [where l = l]) (simp_all add: sound_def)
  obtain nx err where ap: "Apply c (ag_Settings a) = (nx, err)" by (cases "Apply c (ag_Settings a)")
  show ?thesis
  proof (cases "err = None \<and> nx \<noteq> ag_Settings a \<and> Window nx \<noteq> Window (ag_Settings a)")
    case False
    with same [of a "[]"] same [of a "[ConfigIgnored (the err)]"] same [of "a\<lparr>ag_Settings := nx\<rparr>" "[ConfigUpdated nx]"]
      ap Pair show ?thesis
      by (cases err) (auto simp: applyConfig_def log_event_def)
  next
    case True
    obtain agg out where f: "agg_Flush (ag_agg a) = (agg, out)" by (cases "agg_Flush (ag_agg a)")
    obtain a1 w1 where p: "persist_opt (en_config_add env) out (a\<lparr>ag_agg := agg\<rparr>, w) = (a1, w1)"
      by (cases "persist_opt (en_config_add env) out (a\<lparr>ag_agg := agg\<rparr>, w)")
    have 1: "accounts n b s (a1, w1)"
      using persist_opt_accounts [OF assms(1) [unfolded Pair] assms(2), of out "a\<lparr>ag_agg := agg\<rparr>" n b] p Pair
        agg_Flush_current [of "ag_agg a"] f by simp
    have "settles n b (a1, w1) (a1\<lparr>ag_agg := new_aggregator (Window nx), ag_Settings := nx\<rparr>, log_event (ConfigUpdated nx) w1)"
      using 1 by (intro settles_same [where l = "[ConfigUpdated nx]"]) (simp_all add: accounts_def sound_def)
    from accounts_settles [OF 1 this] True ap f p Pair show ?thesis by (simp add: applyConfig_def)
  qed
qed

text \<open>A batch that was sent and is discarded once it is settled.\<close>

lemma discard_settles:
  assumes "sound (a, w)" and "ag_Spool a' = ag_Spool a"
    and "w1 = sent_world env (a, w) \<and> (\<exists>m. e = Uploaded (int (length (batch_of (a, w)))) m)
         \<and> w' = log_event e (discard_batch f (batch_of (a, w)) w1)
       \<or> w1 = log_event (WindowsRejected (int (length (batch_of (a, w))))) (sent_world env (a, w))
         \<and> w' = discard_batch f (batch_of (a, w)) w1"
  shows "settles n b (a, w) (a', w')"
proof -
  let ?b = "batch_of (a, w)"
  have ok: "disk_ok (w_disk w)" using assms(1) by (simp add: sound_def)
  note sw = sent_world_simps [OF ok, of env a]
  have d: "disk_ok (w_disk w1)" "disk_queue (w_disk w1) = disk_queue (w_disk w)" using assms(3) sw by auto
  then have "?b = take (nat (maxBatch a)) (disk_queue (w_disk w1))" by (simp add: batch_of_def)
  from discard_batch_spec [OF d(1) this, of f] obtain k l where D:
    "disk_ok (w_disk (discard_batch f ?b w1))" "k \<le> length ?b"
    "disk_queue (w_disk (discard_batch f ?b w1)) = drop k (disk_queue (w_disk w))"
    "w_log (discard_batch f ?b w1) = w_log w1 @ l" "l = [] \<or> (\<exists>x. l = [DiscardFailed x])"
    using d(2) by auto
  have w': "disk_ok (w_disk w')" "disk_queue (w_disk w') = drop k (disk_queue (w_disk w))"
    using assms(3) D(1,3) by auto
  let ?bs = "map snd ?b"
  obtain m e' l2 where L: "w_log w' = w_log w @ Sent ?bs # m @ e' # l2" "m = [] \<or> (\<exists>x. m = [DiscardFailed x])"
    "e' = WindowsRejected (int (length ?bs)) \<or> (\<exists>n. e' = Uploaded (int (length ?bs)) n)"
    using assms(3)
  proof (elim disjE conjE, goal_cases)
    case 1
    with D(4,5) sw show ?case by (intro 1(1) [of l e "[]"]) auto
  next
    case 2
    with D(4) sw show ?case by (intro 2(1) [of "[]" "WindowsRejected (int (length ?b))" l]) auto
  qed
  have "settled_in b (Sent ?bs # m @ e' # l2)" if "b \<in> set ?bs"
    unfolding settled_in_def using that L(2,3)
    by (intro exI [of _ ?bs] exI [of _ "[]"] exI [of _ m] exI [of _ e'] exI [of _ l2]) simp
  moreover have "(n, b) \<in> set (drop k (disk_queue (w_disk w))) \<or> b \<in> set ?bs" if "(n, b) \<in> set (disk_queue (w_disk w))"
  proof -
    have "set (take k (disk_queue (w_disk w))) \<subseteq> set ?b"
      using D(2) unfolding batch_of_def by (auto intro: set_take_subset_set_take [THEN subsetD])
    moreover have "(n, b) \<in> set (take k (disk_queue (w_disk w))) \<union> set (drop k (disk_queue (w_disk w)))"
      using that by (metis append_take_drop_id set_append)
    ultimately show ?thesis by (auto intro: rev_image_eqI)
  qed
  ultimately show ?thesis
    using assms(1,2) w' L(1) unfolding settles_def sound_def excused_def by (auto intro!: exI [of _ "Sent ?bs # m @ e' # l2"])
qed

lemma handleFailure_settles:
  assumes "sound (a, w)"
  shows "settles n b (a, w) (handleFailure env e (batch_of (a, w)) (a, sent_world env (a, w)))"
proof -
  let ?h = "handleFailure env e (batch_of (a, w)) (a, sent_world env (a, w))"
  have ok: "disk_ok (w_disk w)" using assms by (simp add: sound_def)
  note sw = sent_world_simps [OF ok, of env a]
  have sp: "ag_Spool (fst ?h) = ag_Spool a"
    by (cases "error_kind e") (simp_all add: handleFailure_def Let_def)
  show ?thesis
  proof (cases "error_kind e = Rejected")
    case True
    let ?w1 = "log_event (WindowsRejected (int (length (batch_of (a, w))))) (sent_world env (a, w))"
    have "snd ?h = discard_batch (en_discard env) (batch_of (a, w)) ?w1"
      using True by (simp add: handleFailure_def Let_def)
    then have "settles n b (a, w) (fst ?h, snd ?h)"
      by (intro discard_settles [OF assms sp, where env = env and ?w1.0 = ?w1 and f = "en_discard env" and e = Stopped]) simp
    then show ?thesis by simp
  next
    case False
    then obtain ev where "w_disk (snd ?h) = w_disk (sent_world env (a, w))"
      "w_log (snd ?h) = w_log (sent_world env (a, w)) @ [ev]"
      by (cases "error_kind e") (simp_all add: handleFailure_def Let_def)
    with sw sp assms show ?thesis
      by (intro settles_same [where l = "[Sent (map snd (batch_of (a, w))), ev]"]) simp_all
  qed
qed

lemma upload_accounts:
  assumes "sound s" and "list_all is_digit (ft_suffix (en_config_add env))"
  shows "accounts n b s (fst (upload env s))"
proof (cases s)
  case (Pair a w)
  have S: "sound (a, w)" using assms(1) Pair by simp
  then have ok: "disk_ok (w_disk w)" by (simp add: sound_def)
  let ?b = "batch_of (a, w)"
  from upload_shape [OF ok, of env a] show ?thesis
  proof (rule disjE, goal_cases)
    case 1
    then obtain disk l where "upload env (a, w) = ((a, w\<lparr>w_disk := disk, w_log := w_log w @ l\<rparr>), False)"
      "disk_ok disk" "disk_queue disk = disk_queue (w_disk w)" by (elim exE conjE)
    then have "settles n b s (fst (upload env s))"
      using S Pair by (intro settles_same [where l = l]) simp_all
    then show ?case by (rule settles_accounts)
  next
    case 2
    show ?case
    proof (cases "en_send env (map snd ?b)")
      case (Inl e)
      with 2 Pair have "settles n b s (fst (upload env s))"
        using handleFailure_settles [OF S, of n b env e] by simp
      then show ?thesis by (rule settles_accounts)
    next
      case (Inr resp)
      let ?s1 = "(a\<lparr>ag_failures := 0, ag_retryAt := 0\<rparr>, log_event (Uploaded (int (length ?b)) (Accepted resp))
        (discard_batch (en_discard env) ?b (sent_world env (a, w))))"
      have 1: "settles n b s ?s1" unfolding Pair
        by (intro discard_settles [OF S, where env = env and ?w1.0 = "sent_world env (a, w)"
            and f = "en_discard env" and e = "Uploaded (int (length ?b)) (Accepted resp)"]) simp_all
      then have "sound ?s1" by (simp only: settles_def)
      then have "accounts n b ?s1 (fst (applyConfig env (Config resp) ?s1))"
        using assms(2) by (rule applyConfig_accounts)
      from settles_trans_accounts [OF 1 this] 2 Inr Pair show ?thesis by simp
    qed
  qed
qed

lemma persist_opt_agg: "ag_agg (fst (persist_opt f out (a, w))) = ag_agg a"
proof (cases out)
  case (Some b)
  obtain a' w' where p: "persist f b (a, w) = (a', w')" by (cases "persist f b (a, w)")
  from persist_frame [OF p] p show ?thesis by (auto simp: persist_opt_def Some)
qed (simp add: persist_opt_def)

lemma shutdown_accounts:
  assumes "sound s" and "list_all is_digit (ft_suffix (en_add env))"
    and "list_all is_digit (ft_suffix (en_config_add env))"
  shows "accounts n b s (shutdown env s)"
proof (cases s)
  case (Pair a w)
  obtain agg out where f: "agg_Flush (ag_agg a) = (agg, out)" by (cases "agg_Flush (ag_agg a)")
  obtain a1 w1 where p: "persist_opt (en_add env) out (a\<lparr>ag_agg := agg\<rparr>, w) = (a1, w1)"
    by (cases "persist_opt (en_add env) out (a\<lparr>ag_agg := agg\<rparr>, w)")
  have 1: "accounts n b s (a1, w1)"
    using persist_opt_accounts [OF assms(1) [unfolded Pair] assms(2), of out "a\<lparr>ag_agg := agg\<rparr>" n b] p Pair
      agg_Flush_current [of "ag_agg a"] f by simp
  have 2: "settles n b (a1, w1) (a1\<lparr>ag_retryAt := 0\<rparr>, w1)"
    using 1 by (intro settles_same [where l = "[]"]) (simp_all add: accounts_def sound_def)
  obtain a2 w2 ch where u: "upload env (a1\<lparr>ag_retryAt := 0\<rparr>, w1) = ((a2, w2), ch)" by (metis surj_pair)
  have "sound (a1\<lparr>ag_retryAt := 0\<rparr>, w1)" using 2 by (simp only: settles_def)
  from upload_accounts [OF this assms(3)] have "accounts n b (a1\<lparr>ag_retryAt := 0\<rparr>, w1) (a2, w2)"
    by (metis u fst_conv)
  moreover have "agg_current (ag_agg (a1\<lparr>ag_retryAt := 0\<rparr>)) = None"
  proof -
    have "ag_agg a1 = agg" using persist_opt_agg [of "en_add env" out "a\<lparr>ag_agg := agg\<rparr>" w] unfolding p by simp
    moreover have "agg_current (fst (agg_Flush (ag_agg a))) = None" by (simp add: agg_Flush_def split: option.split)
    ultimately show ?thesis by (simp add: f)
  qed
  ultimately have 3: "settles n b (a1\<lparr>ag_retryAt := 0\<rparr>, w1) (a2, w2)" by (intro accounts_idle) simp_all
  have "settles n b (a2, w2) (a2, log_event (stop_event (en_stats env) (w_disk w2)) w2)"
    using 3 by (intro settles_same [where l = "[stop_event (en_stats env) (w_disk w2)]"]) (simp_all add: settles_def sound_def)
  from accounts_settles [OF accounts_settles [OF accounts_settles [OF 1 2] 3] this] f p u Pair
  show ?thesis by (simp add: shutdown_def)
qed

section \<open>Runs\<close>

text \<open>\<open>CreateTemp\<close> puts digits in the place of the star.\<close>

definition digit_suffixes :: "action \<Rightarrow> bool" where
  "digit_suffixes act = (case act of
     SampleTick env \<Rightarrow> list_all is_digit (ft_suffix (en_add env))
   | UploadTick env \<Rightarrow> list_all is_digit (ft_suffix (en_config_add env))
   | Stop env \<Rightarrow> list_all is_digit (ft_suffix (en_add env)) \<and> list_all is_digit (ft_suffix (en_config_add env))
   | _ \<Rightarrow> True)"

lemma run_act_accounts:
  assumes "run_act act r = Some r'" and "digit_suffixes act" and "sound (rn_state r)"
  shows "accounts n b (rn_state r) (rn_state r')"
proof -
  have same: "accounts n b (rn_state r) s'"
    if "s' = (fst (rn_state r), (snd (rn_state r))\<lparr>w_log := w_log (snd (rn_state r)) @ l\<rparr>)" for s' l
    using that assms(3) by (intro settles_accounts settles_same [where l = l]) (simp_all add: sound_def)
  have up: "accounts n b (rn_state r) s" if "act = UploadTick env" "upload env (rn_state r) = (s, ch)" for env s ch
    using upload_accounts [OF assms(3), of env n b] that assms(2) by (auto simp: digit_suffixes_def)
  from assms(1) show ?thesis
  proof (cases rule: run_act_cases)
    case (pass t)
    then show ?thesis by (intro same [where l = "[]"]) simp
  next
    case cancel
    then show ?thesis by (intro same [where l = "[]"]) simp
  next
    case (enter t)
    then show ?thesis
      by (intro same [where l = "[Started (ag_Settings (fst (rn_state r)))]"])
        (simp add: enter_loop_def log_event_def case_prod_beta)
  next
    case (sample env)
    then show ?thesis using sample_accounts [OF assms(3), of env n b] assms(2) by (simp add: digit_suffixes_def)
  next
    case (upload env s)
    from up [OF upload(5,3)] upload(4) show ?thesis by simp
  next
    case (reset env s)
    then have "rn_state r' = s" by (simp split: option.splits)
    with up [OF reset(5,3)] show ?thesis by simp
  next
    case (stop env)
    then show ?thesis using shutdown_accounts [OF assms(3), of env n b] assms(2) by (simp add: digit_suffixes_def)
  qed
qed

text \<open>The names that the steps of a run gave, in order.\<close>

fun given :: "action list \<Rightarrow> run_state \<Rightarrow> string list" where
  "given [] r = []"
| "given (act # acts) r = (case run_act act r of None \<Rightarrow> []
     | Some r' \<Rightarrow> added (rn_state r) (rn_state r') @ given acts r')"

lemma run_accounts:
  "run_acts acts r = Some r' \<Longrightarrow> \<forall>act\<in>set acts. digit_suffixes act \<Longrightarrow> sound (rn_state r) \<Longrightarrow>
     (\<exists>l. w_log (snd (rn_state r')) = w_log (snd (rn_state r)) @ l \<and> ((n, b) \<in> set (queue_at (rn_state r)) \<longrightarrow>
        (n, b) \<in> set (queue_at (rn_state r')) \<or> excused b l \<or> n \<in> set (given acts r)))"
proof (induction acts arbitrary: r)
  case (Cons act acts)
  from Cons.prems(1) obtain r1 where r1: "run_act act r = Some r1" "run_acts acts r1 = Some r'"
    by (auto split: option.splits)
  have 1: "accounts n b (rn_state r) (rn_state r1)"
    using run_act_accounts [OF r1(1) _ Cons.prems(3)] Cons.prems(2) by simp
  then obtain l where l: "w_log (snd (rn_state r1)) = w_log (snd (rn_state r)) @ l"
    "(n, b) \<in> set (queue_at (rn_state r)) \<longrightarrow> (n, b) \<in> set (queue_at (rn_state r1)) \<or> excused b l
       \<or> n \<in> set (added (rn_state r) (rn_state r1))"
    unfolding accounts_def by blast
  have "sound (rn_state r1)" using 1 by (simp add: accounts_def)
  then obtain l' where l': "w_log (snd (rn_state r')) = w_log (snd (rn_state r1)) @ l'"
    "(n, b) \<in> set (queue_at (rn_state r1)) \<longrightarrow> (n, b) \<in> set (queue_at (rn_state r')) \<or> excused b l' \<or> n \<in> set (given acts r1)"
    using Cons.IH [OF r1(2)] Cons.prems(2) by auto
  have "(n, b) \<in> set (queue_at (rn_state r)) \<longrightarrow>
      (n, b) \<in> set (queue_at (rn_state r')) \<or> excused b (l @ l') \<or> n \<in> set (given (act # acts) r)"
    using l(2) l'(2) excused_append [of b l l'] r1(1) by auto
  with l(1) l'(1) show ?case by (intro exI [of _ "l @ l'"]) simp
qed simp

text \<open>The names given carry the next sequence numbers.\<close>

lemma given_seq:
  "run_acts acts r = Some r' \<Longrightarrow> \<forall>act\<in>set acts. digit_suffixes act \<Longrightarrow> sound (rn_state r) \<Longrightarrow>
     unat (seq_at (rn_state r)) + length acts < 2 ^ 32 \<Longrightarrow> n \<in> set (given acts r) \<Longrightarrow>
     \<exists>k c. seq_at (rn_state r) < k \<and> n = entry_name k c"
proof (induction acts arbitrary: r)
  case (Cons act acts)
  from Cons.prems(1) obtain r1 where r1: "run_act act r = Some r1" "run_acts acts r1 = Some r'"
    by (auto split: option.splits)
  have a: "accounts n b (rn_state r) (rn_state r1)" for b
    using run_act_accounts [OF r1(1) _ Cons.prems(3)] Cons.prems(2) by simp
  let ?q = "seq_at (rn_state r)"
  have up: "?q < ?q + 1" "unat (?q + 1) = unat ?q + 1"
    using Cons.prems(4) by (auto simp: word_less_nat_alt unat_word_ariths)
  have q: "seq_at (rn_state r1) = ?q \<or> seq_at (rn_state r1) = ?q + 1" using a unfolding accounts_def by blast
  from Cons.prems(5) r1(1) consider "n \<in> set (added (rn_state r) (rn_state r1))" | "n \<in> set (given acts r1)" by auto
  then show ?case
  proof cases
    case 1
    then show ?thesis using up(1) by (auto simp: added_def split: if_splits option.splits)
  next
    case 2
    have "unat (seq_at (rn_state r1)) + length acts < 2 ^ 32" using q up(2) Cons.prems(4) by auto
    moreover have "sound (rn_state r1)" using a unfolding accounts_def by blast
    ultimately obtain k c where "seq_at (rn_state r1) < k" "n = entry_name k c"
      using Cons.IH [OF r1(2)] Cons.prems(2) 2 by auto
    moreover have "?q \<le> seq_at (rn_state r1)" using q up(1) by auto
    ultimately show ?thesis by (intro exI [of _ k] exI [of _ c]) auto
  qed
qed simp

text \<open>
  C3.  No window disappears without a word, but for one case.  Whatever the disk, the platform and the
  clock do during a run, a queued window is afterwards still queued, or the log says that a batch with it
  was sent and acknowledged or refused for good, or that windows were dropped for the cap; or the run gave its
  name to another window, which replaced it.  That last case is that of C38, of a window left by an
  earlier process: no name of the process itself is given again, as long as the sequence number does
  not wrap at \<open>2^32\<close>.
\<close>

theorem no_silent_loss:
  assumes "run_acts acts r = Some r'" and "\<forall>act\<in>set acts. digit_suffixes act" and "sound (rn_state r)"
    and "(n, b) \<in> set (queue_at (rn_state r))"
  shows "(\<exists>l. w_log (snd (rn_state r')) = w_log (snd (rn_state r)) @ l
       \<and> ((n, b) \<in> set (queue_at (rn_state r')) \<or> settled_in b l \<or> drop_reported l \<or> n \<in> set (given acts r)))
     \<and> (unat (seq_at (rn_state r)) + length acts < 2 ^ 32 \<and> j \<le> seq_at (rn_state r) \<longrightarrow> entry_name j c \<notin> set (given acts r))"
proof
  show "\<exists>l. w_log (snd (rn_state r')) = w_log (snd (rn_state r)) @ l
       \<and> ((n, b) \<in> set (queue_at (rn_state r')) \<or> settled_in b l \<or> drop_reported l \<or> n \<in> set (given acts r))"
    using run_accounts [OF assms(1-3), of n b] assms(4) unfolding excused_def by blast
  show "unat (seq_at (rn_state r)) + length acts < 2 ^ 32 \<and> j \<le> seq_at (rn_state r) \<longrightarrow> entry_name j c \<notin> set (given acts r)"
    using given_seq [OF assms(1-3), of "entry_name j c"] entry_name_seq by (fastforce simp: not_less)
qed

text \<open>The window an earlier process left, in a run that uploads it: no other window gets its name.\<close>

definition left_dir :: directory where
  "left_dir = [(entry_name 1 example_bucket, File (the (marshal_bucket example_bucket)))]"

lemma example_bucket_ok: "bucket_ok example_bucket"
proof -
  have "time_ok unix_epoch" "time_ok (unix_epoch + 10 * second)" unfolding time_ok_def by code_simp+
  moreover have "moderate (Fin 0)" by (simp add: moderate_def)
  ultimately show ?thesis
    by (simp add: bucket_ok_def example_bucket_def new_bucket_def stat_ok_def zero_stat_def int_ok_def byte_def)
qed

lemma left_dir_queue: "queue_of left_dir = [(entry_name 1 example_bucket, stored example_bucket)]" "dir_ok left_dir"
proof -
  from marshal_stored [OF example_bucket_ok] obtain p where "marshal_bucket example_bucket = Some p"
    "unmarshal_bucket p = Some (stored example_bucket)" by blast
  then show "queue_of left_dir = [(entry_name 1 example_bucket, stored example_bucket)]"
    by (simp add: left_dir_def queue_of_def names_of_def contents_def)
  show "dir_ok left_dir" by (simp add: left_dir_def dir_ok_def)
qed

definition left_start :: run_state where
  "left_start = Run_start (calm_env accepting) unix_epoch (example_agent, \<lparr>w_disk = Some left_dir, w_log = []\<rparr>)"

lemma left_start_state:
  "rn_state left_start = (example_agent, \<lparr>w_disk = Some left_dir, w_log = []\<rparr>)"
  "rn_phase left_start = Waiting (unix_epoch + (minute - 1))" "rn_now left_start = unix_epoch"
  "tk_next (rn_uploader left_start) = unix_epoch + minute" "tk_period (rn_uploader left_start) = minute"
  "tk_next (rn_sampler left_start) = unix_epoch + second" "tk_period (rn_sampler left_start) = second"
proof -
  obtain x where x: "Collect (en_os (calm_env accepting)) (ag_Collector example_agent) = Inr x"
    using example_collects by (auto simp: calm_env_def example_agent_def)
  have sp: "Spread (en_rand (calm_env accepting)) (ag_Backoff example_agent) minute = minute - 1" by code_simp
  have ag: "ag_Settings example_agent = \<lparr>Interval = second, Flush = minute, Window = 10 * second\<rparr>"
    "example_agent\<lparr>ag_agg := new_aggregator 10000000000\<rparr> = example_agent"
    by (simp_all add: example_agent_def duration_defs)
  note st = x NewTicker_def ag sp [unfolded duration_defs] Let_def
  show "rn_state left_start = (example_agent, \<lparr>w_disk = Some left_dir, w_log = []\<rparr>)"
    "rn_phase left_start = Waiting (unix_epoch + (minute - 1))" "rn_now left_start = unix_epoch"
    "tk_next (rn_uploader left_start) = unix_epoch + minute" "tk_period (rn_uploader left_start) = minute"
    "tk_next (rn_sampler left_start) = unix_epoch + second" "tk_period (rn_sampler left_start) = second"
    by (simp_all add: left_start_def Run_start_def st duration_defs)
qed

lemma added_idle: "agg_current (ag_agg (fst s)) = None \<Longrightarrow> added s s' = []"
  by (simp add: added_def)

lemma left_start_run: "\<exists>r. run_acts example_acts left_start = Some r \<and> given example_acts left_start = []"
proof -
  have idle: "agg_current (ag_agg example_agent) = None" by (simp add: example_agent_def new_aggregator_def)
  obtain r1 where 1: "run_act (Pass (unix_epoch + minute)) left_start = Some r1" "rn_state r1 = rn_state left_start"
    "rn_phase r1 = rn_phase left_start" "rn_now r1 = unix_epoch + minute" "tk_ready (rn_uploader r1)"
    by (simp add: run_act_def left_start_state ticker_at_def duration_defs)
  obtain r2 where 2: "run_act SpreadOver r1 = Some r2" "fst (rn_state r2) = example_agent"
    "rn_phase r2 = Running" "tk_ready (rn_uploader r2)"
    using 1(2-5) by (simp add: run_act_def left_start_state enter_loop_def)
  have "run_act (UploadTick (calm_env accepting)) r2 \<noteq> None"
    using 2(3,4) by (simp add: run_act_def Let_def case_prod_beta split: option.split)
  then obtain r3 where 3: "run_act (UploadTick (calm_env accepting)) r2 = Some r3" by blast
  show ?thesis
    using 1(1,2) 2(1,2) 3 idle by (simp add: example_acts_def added_idle left_start_state)
qed

theorem no_silent_loss_witness:
  "\<exists>r l. run_acts example_acts left_start = Some r \<and> w_log (snd (rn_state r)) = l
     \<and> ((entry_name 1 example_bucket, stored example_bucket) \<in> set (queue_at (rn_state r))
        \<or> settled_in (stored example_bucket) l \<or> drop_reported l)"
proof -
  let ?n = "entry_name 1 example_bucket" and ?b = "stored example_bucket"
  obtain r where r: "run_acts example_acts left_start = Some r" and g: "given example_acts left_start = []"
    using left_start_run by blast
  have digits: "\<forall>act\<in>set example_acts. digit_suffixes act"
    by (simp add: example_acts_def digit_suffixes_def calm_env_def no_faults_def is_digit_def)
  have sound: "sound (rn_state left_start)"
    by (simp add: sound_def left_start_state left_dir_queue example_agent_def example_spool_def)
  have q: "(?n, ?b) \<in> set (queue_at (rn_state left_start))" by (simp add: left_start_state left_dir_queue)
  from no_silent_loss [OF r digits sound q] r g show ?thesis by (auto simp: left_start_state)
qed

end
