(* ===== verification/Storable.thy ===== *)
theory Storable
  imports CodecLaws
begin

text \<open>
  Every window the aggregator emits can be written: its statistics stay finite through every rounding,
  so \<open>json.Marshal\<close> has no infinity or NaN to refuse.  The bounds go with the operations: a value of
  magnitude at most \<open>2 ^ k\<close>, rounded, keeps the bound.
\<close>

section \<open>Bounded values\<close>

definition bounded :: "int \<Rightarrow> f64 \<Rightarrow> bool" where
  "bounded k v \<longleftrightarrow> (case v of Fin x \<Rightarrow> representable x \<and> \<bar>x\<bar> \<le> 2 powi k | _ \<Rightarrow> False)"

lemma bounded_Fin [simp]: "bounded k (Fin x) \<longleftrightarrow> representable x \<and> \<bar>x\<bar> \<le> 2 powi k"
  by (simp add: bounded_def)

lemma boundedE: "bounded k v \<Longrightarrow> \<exists>x. v = Fin x \<and> representable x \<and> \<bar>x\<bar> \<le> 2 powi k"
  by (cases v) (simp_all add: bounded_def)

lemma bounded_mono: "bounded j v \<Longrightarrow> j \<le> k \<Longrightarrow> bounded k v"
  using powi_le [of j k] by (auto dest!: boundedE simp del: powi_le intro: order_trans)

lemma bounded_fl:
  assumes "\<bar>y\<bar> \<le> 2 powi k" "0 \<le> k" "k \<le> 1000"
  shows "bounded k (fl y)"
proof -
  have "fl y = Fin (rnd y)" using assms by (intro fl_small [of y k]) auto
  moreover have "\<bar>rnd y\<bar> \<le> 2 powi k" using assms by (intro rnd_abs_le_powi) auto
  ultimately show ?thesis by (simp add: representable_rnd)
qed

lemma bounded_sum:
  assumes "bounded k a" "bounded k b" "0 \<le> k" "k < 1000"
  shows "bounded (k + 1) (a + b)" "bounded (k + 1) (a - b)"
proof -
  obtain x y where xy: "a = Fin x" "b = Fin y" "\<bar>x\<bar> \<le> 2 powi k" "\<bar>y\<bar> \<le> 2 powi k"
    using assms(1,2) by (auto dest!: boundedE)
  have "\<bar>x + y\<bar> \<le> 2 powi (k + 1)" "\<bar>x - y\<bar> \<le> 2 powi (k + 1)"
    using xy(3,4) unfolding powi_step by linarith+
  then show "bounded (k + 1) (a + b)" "bounded (k + 1) (a - b)"
    using assms(3,4) by (simp_all add: xy(1,2) go_simps bounded_fl)
qed

lemma bounded_times:
  assumes "bounded j a" "bounded k b" "0 \<le> j + k" "j + k \<le> 1000"
  shows "bounded (j + k) (a * b)"
proof -
  obtain x y where xy: "a = Fin x" "b = Fin y" "\<bar>x\<bar> \<le> 2 powi j" "\<bar>y\<bar> \<le> 2 powi k"
    using assms(1,2) by (auto dest!: boundedE)
  have "\<bar>x * y\<bar> \<le> 2 powi (j + k)" unfolding powi_add abs_mult using xy(3,4) by (intro mult_mono) auto
  then show ?thesis using assms(3,4) by (simp add: xy(1,2) go_simps bounded_fl)
qed

lemma bounded_divide:
  assumes "bounded j a" "2 powi (- k) \<le> y" "0 \<le> j + k" "j + k \<le> 1000"
  shows "bounded (j + k) (a / Fin y)"
proof -
  obtain x where x: "a = Fin x" "\<bar>x\<bar> \<le> 2 powi j" using assms(1) by (auto dest!: boundedE)
  have p: "(0::rat) < 2 powi (- k)" by (rule powi_pos)
  then have y: "0 < y" using assms(2) by linarith
  have "\<bar>x / y\<bar> = \<bar>x\<bar> / y" using y by simp
  also have "\<dots> \<le> 2 powi j / 2 powi (- k)" using x(2) assms(2) p by (intro frac_le) auto
  also have "\<dots> = 2 powi (j + k)" by (simp only: powi_diff [symmetric]) simp
  finally show ?thesis using assms(3,4) y by (simp add: x(1) go_simps bounded_fl)
qed

lemma bounded_u64: "bounded 64 (of_u64 w)"
proof -
  have "(2::rat) powi 64 = 18446744073709551616" by simp
  then show ?thesis using rnd_u2r_le [of w] b64.rd_nonneg [of "u2r w"] by (simp add: of_u64_Fin representable_rnd)
qed

lemma bounded_reading: "bounded k v \<Longrightarrow> k \<le> 1000 \<Longrightarrow> \<exists>x. v = Fin x \<and> reading x"
  using bounded_mono [of k v 1000] by (auto dest!: boundedE simp: reading_def)

section \<open>Derived rates\<close>

lemma bounded_share:
  assumes "tot \<noteq> 0"
  shows "bounded 71 (share tot now before)"
proof (cases "now < before")
  case True
  then show ?thesis by (simp add: share_def)
next
  case False
  have "2 powi (- 0) \<le> rnd (u2r tot)" using rnd_u2r_ge_1 [OF assms] by simp
  then have "bounded (64 + 0) (of_u64 (now - before) / Fin (rnd (u2r tot)))"
    by (intro bounded_divide bounded_u64) auto
  moreover have "representable 100" by (rule b64.rep_numerals)
  ultimately have "bounded (64 + 7) (of_u64 (now - before) / Fin (rnd (u2r tot)) * Fin 100)"
    by (intro bounded_times) (simp_all add: bounded_def)
  then show ?thesis using False by (simp add: share_def of_u64_Fin)
qed

lemma bounded_rate:
  assumes "rate (Seconds d) now before = Some v" "0 < d" "d < 9223372036854775808"
  shows "bounded 94 v"
proof -
  obtain s where s: "Seconds d = Fin s" "1 / 1073741824 \<le> s" using Seconds_pos [OF assms(2,3)] by blast
  have "(2::rat) powi (- 30) = 1 / 1073741824" by (simp add: power_int_minus field_simps)
  with s(2) have "2 powi (- 30) \<le> s" by simp
  then have "bounded (64 + 30) (of_u64 (now - before) / Fin s)" by (intro bounded_divide bounded_u64) auto
  then show ?thesis using assms(1) s(1) by (auto simp: rate_def split: if_splits)
qed

definition rates_bounded :: "Rates \<Rightarrow> bool" where
  "rates_bounded r \<longleftrightarrow> (\<forall>v\<in>set [r_CPUBusy r, r_CPUIOWait r, r_CPUSteal r, r_CPUUser r, r_CPUSystem r,
     r_NetRx r, r_NetTx r, r_DiskRead r, r_DiskWrite r]. bounded 100 v)"

lemma Derive_user:
  assumes "Derive p c = Some r"
  shows "r_CPUUser r = share (Total (CPU c) - Total (CPU p)) (cpu_User (CPU c)) (cpu_User (CPU p))
      + share (Total (CPU c) - Total (CPU p)) (cpu_Nice (CPU c)) (cpu_Nice (CPU p))"
    and "r_Load1 r = load_One (LoadAvg c)" and "r_FS r = FS c"
  using assms by (auto simp: Derive_def Let_def split: option.splits if_splits)

lemma Derive_rates:
  assumes "Derive p c = Some r"
  shows "rate (Seconds (Sub (At c) (At p))) (net_RxBytes (Net c)) (net_RxBytes (Net p)) = Some (r_NetRx r)"
    and "rate (Seconds (Sub (At c) (At p))) (net_TxBytes (Net c)) (net_TxBytes (Net p)) = Some (r_NetTx r)"
    and "rate (Seconds (Sub (At c) (At p))) (disk_ReadBytes (Disk c)) (disk_ReadBytes (Disk p)) = Some (r_DiskRead r)"
    and "rate (Seconds (Sub (At c) (At p))) (disk_WriteBytes (Disk c)) (disk_WriteBytes (Disk p)) = Some (r_DiskWrite r)"
  using assms by (auto simp: Derive_def Let_def split: option.splits if_splits)

lemma Derive_bounded:
  assumes "Derive p c = Some r"
  shows "rates_bounded r"
proof -
  let ?t = "Total (CPU c) - Total (CPU p)"
  have dv: "derivable p c" using assms by (rule Derive_derivable)
  then have "?t \<noteq> 0" by (auto simp: derivable_def)
  note sh = bounded_share [OF this]
  have lo: "0 < Sub (At c) (At p)" using dv Sub_pos_iff [of "At c" "At p"] by (simp add: derivable_def)
  have hi: "Sub (At c) (At p) < 9223372036854775808" using Sub_range [of "At c" "At p"] by simp
  have rt: "bounded 94 v" if "rate (Seconds (Sub (At c) (At p))) x y = Some v" for x y v
    using that lo hi by (rule bounded_rate)
  note F = Derive_fields [OF assms] and R = Derive_rates [OF assms]
  have h: "bounded 71 (Fin 100)" using b64.rep_numerals powi_le [of 7 71] by (simp del: powi_le)
  have "bounded 72 (Fin 100 - r_CPUIdle r)" using bounded_sum(2) [OF h sh] by (simp add: F)
  moreover have "bounded 72 (r_CPUIOWait r)" using bounded_mono [OF sh, of 72] by (simp add: F)
  ultimately have busy: "bounded 73 (r_CPUBusy r)" using bounded_sum(2) [of 72] by (simp add: F(1))
  have user: "bounded 72 (r_CPUUser r)" using bounded_sum(1) [OF sh sh] by (simp add: Derive_user [OF assms])
  have "bounded 71 (r_CPUIOWait r)" "bounded 71 (r_CPUSystem r)" "bounded 71 (r_CPUSteal r)"
    using sh by (simp_all add: F)
  with busy user rt [OF R(1)] rt [OF R(2)] rt [OF R(3)] rt [OF R(4)] show ?thesis
    by (auto simp: rates_bounded_def intro: bounded_mono)
qed

section \<open>Windows\<close>

lemma stat_ok_of_readings:
  assumes "xs \<noteq> []" "\<forall>x\<in>set xs. reading x" "int (length xs) < 9223372036854775807"
  shows "stat_ok (stat_of (map Fin xs))"
proof -
  obtain a where a: "stat_of (map Fin xs) = \<lparr>s_Min = Fin (Min (set xs)), s_Avg = Fin a,
      s_Max = Fin (Max (set xs)), s_N = int (length xs)\<rparr>" "Min (set xs) \<le> a" "a \<le> Max (set xs)"
    using stat_of_range [OF assms] by blast
  note m = reading_small [OF reading_Min_Max(1) [OF assms(1,2)]] reading_small [OF reading_Min_Max(2) [OF assms(1,2)]]
  then have "\<bar>a\<bar> \<le> 2 powi 1000" using a(2,3) by linarith
  with a m show ?thesis by (simp add: stat_ok_def moderate_def)
qed

lemma stat_ok_column:
  assumes "g \<noteq> []" "\<forall>x\<in>set g. \<exists>y. f x = Fin y \<and> reading y" "int (length g) < 9223372036854775807"
  shows "stat_ok (stat_of (map f g))"
proof -
  from assms(2) obtain h where h: "\<forall>x\<in>set g. f x = Fin (h x) \<and> reading (h x)" by (metis (no_types))
  then have e: "map f g = map Fin (map h g)" by simp
  show ?thesis unfolding e by (rule stat_ok_of_readings) (use assms h in simp_all)
qed

text \<open>A reading whose window can be written: its strings, its load average and its instants.\<close>

definition sample_ok :: "duration \<Rightarrow> Sample \<Rightarrow> bool" where
  "sample_ok w s \<longleftrightarrow> utf8 (BootID s) \<and> (\<forall>x\<in>set (FS s). filesystem_ok x) \<and> bounded 1000 (load_One (LoadAvg s))
     \<and> time_ok (Truncate (At s) w) \<and> time_ok (Truncate (At s) w + w)"

lemma intervals_derived:
  "Some x \<in> set (intervals p ss) \<Longrightarrow> snd x \<in> set ss \<and> (\<exists>q. Derive q (snd x) = Some (fst x))"
proof (induction ss arbitrary: p)
  case (Cons s ss)
  show ?case
  proof (cases "Some x \<in> set (intervals s ss)")
    case True
    with Cons.IH show ?thesis by auto
  next
    case False
    with Cons.prems show ?thesis by (cases "Derive p s") auto
  qed
qed simp

lemma derived_intervals:
  "x \<in> set (map the (filter (\<lambda>x. x \<noteq> None) (intervals p ss))) \<Longrightarrow> Some x \<in> set (intervals p ss)"
  by auto

lemma bucket_of_last:
  assumes "g \<noteq> []"
  shows "b_FS (bucket_of w g) = r_FS (fst (last g))" "b_BootID (bucket_of w g) = BootID (snd (last g))"
proof -
  have "b_FS (fold (\<lambda>(r, s) b. bucket_add r s b) g b) = r_FS (fst (last g))" for b
    using assms by (induction g arbitrary: b rule: rev_induct) (auto simp: bucket_add_def)
  then show "b_FS (bucket_of w g) = r_FS (fst (last g))" by (simp add: bucket_of_def Let_def)
  show "b_BootID (bucket_of w g) = BootID (snd (last g))"
    using fold_bucket_add_last(2) [OF assms] by (simp add: bucket_of_def Let_def)
qed

lemma bucket_of_ok:
  assumes "g \<noteq> []" "int (length g) < 9223372036854775807"
    and "\<forall>x\<in>set g. sample_ok w (snd x) \<and> (\<exists>q. Derive q (snd x) = Some (fst x))"
  shows "bucket_ok (bucket_of w g)"
proof -
  have rb: "rates_bounded (fst x)" "r_Load1 (fst x) = load_One (LoadAvg (snd x))" "r_FS (fst x) = FS (snd x)"
    "sample_ok w (snd x)" if "x \<in> set g" for x
    using assms(3) that Derive_bounded Derive_user by blast+
  have b: "\<exists>y. v = Fin y \<and> reading y" if "bounded 100 v" for v using bounded_reading [OF that] by simp
  have cols: "\<forall>x\<in>set g. \<exists>y. (r_CPUBusy \<circ> fst) x = Fin y \<and> reading y"
    "\<forall>x\<in>set g. \<exists>y. (r_CPUIOWait \<circ> fst) x = Fin y \<and> reading y"
    "\<forall>x\<in>set g. \<exists>y. (r_CPUSteal \<circ> fst) x = Fin y \<and> reading y"
    "\<forall>x\<in>set g. \<exists>y. (r_CPUUser \<circ> fst) x = Fin y \<and> reading y"
    "\<forall>x\<in>set g. \<exists>y. (r_CPUSystem \<circ> fst) x = Fin y \<and> reading y"
    "\<forall>x\<in>set g. \<exists>y. (r_NetRx \<circ> fst) x = Fin y \<and> reading y"
    "\<forall>x\<in>set g. \<exists>y. (r_NetTx \<circ> fst) x = Fin y \<and> reading y"
    "\<forall>x\<in>set g. \<exists>y. (r_DiskRead \<circ> fst) x = Fin y \<and> reading y"
    "\<forall>x\<in>set g. \<exists>y. (r_DiskWrite \<circ> fst) x = Fin y \<and> reading y"
    using rb(1) b by (simp_all add: rates_bounded_def)
  have load: "\<forall>x\<in>set g. \<exists>y. (r_Load1 \<circ> fst) x = Fin y \<and> reading y"
    using rb(2,4) bounded_reading [of 1000] by (simp add: sample_ok_def)
  have u: "\<exists>y. of_u64 k = Fin y \<and> reading y" for k using bounded_reading [OF bounded_u64] by simp
  then have mem: "\<forall>x\<in>set g. \<exists>y. (of_u64 \<circ> r_MemUsed \<circ> fst) x = Fin y \<and> reading y"
    "\<forall>x\<in>set g. \<exists>y. (of_u64 \<circ> r_SwapUsed \<circ> fst) x = Fin y \<and> reading y" by simp_all
  note st = stat_ok_column [OF assms(1) _ assms(2)]
  have stats: "stat_ok (b_CPUBusy (bucket_of w g))"
    "stat_ok (b_CPUIOWait (bucket_of w g))"
    "stat_ok (b_CPUSteal (bucket_of w g))"
    "stat_ok (b_CPUUser (bucket_of w g))"
    "stat_ok (b_CPUSystem (bucket_of w g))"
    "stat_ok (b_MemUsed (bucket_of w g))"
    "stat_ok (b_SwapUsed (bucket_of w g))"
    "stat_ok (b_Load1 (bucket_of w g))"
    "stat_ok (b_NetRx (bucket_of w g))"
    "stat_ok (b_NetTx (bucket_of w g))"
    "stat_ok (b_DiskRead (bucket_of w g))"
    "stat_ok (b_DiskWrite (bucket_of w g))"
    unfolding bucket_of_columns [OF assms(1)] by (rule st, rule cols load mem)+
  have l: "last g \<in> set g" and h: "hd g \<in> set g" using assms(1) by simp_all
  have strings: "utf8 (b_BootID (bucket_of w g))" "\<forall>x\<in>set (b_FS (bucket_of w g)). filesystem_ok x"
    using rb(3,4) [OF l] by (simp_all add: bucket_of_last [OF assms(1)] sample_ok_def)
  have times: "time_ok (b_Start (bucket_of w g))" "time_ok (b_End (bucket_of w g))"
    using rb(4) [OF h] by (simp_all add: bucket_of_Start bucket_of_End window_of_def sample_ok_def)
  have "int_ok (b_Samples (bucket_of w g))"
    using assms(2) bucket_of_Samples [of g w] by (simp add: int_ok_def)
  with stats strings times show ?thesis unfolding bucket_ok_def by blast
qed

lemma agg_output_ok:
  assumes "int (length ss) < 9223372036854775807" and "w' = agg_window (new_aggregator w)"
    and "\<forall>x\<in>set ss. sample_ok w' x" and "b \<in> set (agg_output (new_aggregator w) (s # ss))"
  shows "bucket_ok b"
proof -
  have "int (length ss) < 9223372036854775808" using assms(1) by simp
  then obtain g where g: "g \<in> set (group w' [] (intervals s ss))" "b = bucket_of w' g"
    using agg_output_groups [of ss w s] assms(2,4) by auto
  have c: "concat (group w' [] (intervals s ss)) = map the (filter (\<lambda>x. x \<noteq> None) (intervals s ss))"
    by (simp add: concat_group)
  have "length (concat (group w' [] (intervals s ss))) \<le> length ss"
    unfolding c by (metis length_filter_le length_intervals length_map)
  with length_in_concat [OF g(1)] have len: "int (length g) < 9223372036854775807" using assms(1) by linarith
  have "x \<in> set (concat (group w' [] (intervals s ss)))" if "x \<in> set g" for x using g(1) that by auto
  then have "snd x \<in> set ss \<and> (\<exists>q. Derive q (snd x) = Some (fst x))" if "x \<in> set g" for x
    using that unfolding c by (intro intervals_derived derived_intervals)
  then have "\<forall>x\<in>set g. sample_ok w' (snd x) \<and> (\<exists>q. Derive q (snd x) = Some (fst x))" using assms(3) by blast
  moreover have "g \<noteq> []" using group_windows [OF g(1) one_window_Nil] by (rule conjunct1)
  ultimately show ?thesis unfolding g(2) using len by (intro bucket_of_ok) auto
qed

text \<open>
  C13.  Every window the aggregator emits can be written and read back: no statistic of it is an
  infinity or NaN, whatever the counters did, as long as the load average is a moderate number, the
  strings are valid UTF-8 and the window lies within the years JSON can write.
\<close>

theorem aggregated_windows_storable:
  assumes "int (length ss) < 9223372036854775807" and "w' = agg_window (new_aggregator w)"
    and "\<forall>x\<in>set ss. sample_ok w' x" and "b \<in> set (agg_output (new_aggregator w) (s # ss))"
  shows "bucket_ok b \<and> (\<exists>p. marshal_bucket b = Some p \<and> unmarshal_bucket p = Some (stored b))"
  using agg_output_ok [OF assms] marshal_stored by blast

theorem aggregated_windows_storable_witness:
  "\<exists>b p. b \<in> set (agg_output (new_aggregator 0) [example_first, example_second])
     \<and> marshal_bucket b = Some p \<and> unmarshal_bucket p = Some (stored b)"
proof -
  obtain r where r: "Derive example_first example_second = Some r" using example_pair by blast
  have w: "agg_window (new_aggregator 0) = DefaultWindow" by (simp add: agg_window_def new_aggregator_def)
  have b: "bucket_of DefaultWindow [(r, example_second)] \<in> set (agg_output (new_aggregator 0) [example_first, example_second])"
    using agg_output_groups [of "[example_second]" 0 example_first] r w by simp
  have t: "time_ok (Truncate second DefaultWindow)" "time_ok (Truncate second DefaultWindow + DefaultWindow)"
    unfolding time_ok_def by code_simp+
  have "(1::rat) \<le> 2 powi 1000" using powi_le [of 0 1000] by (simp del: powi_le)
  then have s: "\<forall>x\<in>set [example_second]. sample_ok DefaultWindow x"
    using t b64.rep_numerals
    by (auto simp: sample_ok_def example_second_def example_sample_def byte_def)
  have len: "int (length [example_second]) < 9223372036854775807" by simp
  from aggregated_windows_storable [OF len w [symmetric] s b] b show ?thesis by blast
qed

end
