(* ===== verification/Delivery.thy ===== *)
theory Delivery
  imports Accounting Storable
begin

text \<open>
  What a machine whose disk works delivers: an addition appends to the queue, an upload that nothing
  stands in the way of sends its batch once, the windows of samples in the order of time are in order and
  so are their names.  \<open>named\<close> is the state of the spool after a series of windows.
\<close>

section \<open>One more window\<close>

lemma Add_queue:
  assumes "dir_ok d" "quiet f" "map_of d (''tmp-'' @ ft_suffix f) = None" "bucket_ok b" "marshal_bucket b = Some p"
    and "n = entry_name (sp_seq s + 1) b" and "map_of d n = None" and "\<forall>m\<in>set (names_of d). m < n"
  shows "\<exists>d' k j. Add f b s (Some d) = (s\<lparr>sp_seq := sp_seq s + 1\<rparr>, Some d', None,
        if 0 < j \<and> sp_OnDrop s then [j] else [])
     \<and> dir_ok d' \<and> k \<le> length (queue_of d) \<and> queue_of d' = drop k (queue_of d) @ [(n, stored b)]
     \<and> (bytes_in d (names_of d) + int (length p) \<le> maxBytes s \<longrightarrow> k = 0) \<and> (j = 0 \<longrightarrow> k = 0)"
proof -
  obtain d' j where d': "Add f b s (Some d) = (s\<lparr>sp_seq := sp_seq s + 1\<rparr>, Some d', None,
        if 0 < j \<and> sp_OnDrop s then [j] else [])"
    "dir_ok d'" "view d' = drop j (view d) @ [(n, p)]"
    "bytes_in d (names_of d) + int (length p) \<le> maxBytes s \<longrightarrow> j = 0"
    using Add_new_last [OF assms(1-3,5-8)] by blast
  obtain k where k: "k \<le> length (queue_of d)" "decoded (drop j (view d)) = drop k (queue_of d)" "j = 0 \<longrightarrow> k = 0"
    using decoded_drop [of "view d" j] by (auto simp: queue_decoded)
  have "unmarshal_bucket p = Some (stored b)" using marshal_stored [OF assms(4)] assms(5) by simp
  then have "queue_of d' = drop k (queue_of d) @ [(n, stored b)]"
    by (simp add: queue_decoded [of d'] d'(3) k(2))
  with d' k show ?thesis by blast
qed

section \<open>An upload of a batch\<close>

text \<open>The batches that the log says were sent, in order.\<close>

definition batches :: "event list \<Rightarrow> Bucket list list" where
  "batches l = concat (map (\<lambda>e. case e of Sent bs \<Rightarrow> [bs] | _ \<Rightarrow> []) l)"

lemma batches_simps [simp]:
  "batches [] = []" "batches (e # l) = (case e of Sent bs \<Rightarrow> [bs] | _ \<Rightarrow> []) @ batches l"
  "batches (l @ l') = batches l @ batches l'"
  by (simp_all add: batches_def)

lemma batches_none: "\<forall>bs. Sent bs \<notin> set l \<Longrightarrow> batches l = []"
  by (induction l) (auto split: event.splits)

lemma applyConfig_idle:
  assumes "agg_current (ag_agg a) = None"
  shows "w_disk (snd (fst (applyConfig env c (a, w)))) = w_disk w"
    and "batches (w_log (snd (fst (applyConfig env c (a, w))))) = batches (w_log w)"
  using assms by (cases "Apply c (ag_Settings a)";
    auto simp: applyConfig_def persist_opt_def agg_Flush_def Let_def split: option.splits)+

text \<open>An upload that nothing stands in the way of, with no window in progress: one batch, sent once.\<close>

lemma upload_batch:
  assumes "can_upload env (a, w)" and "agg_current (ag_agg a) = None"
  shows "batches (w_log (snd (fst (upload env (a, w))))) = batches (w_log w) @ [map snd (batch_of (a, w))]
     \<and> disk_queue (w_disk (snd (fst (upload env (a, w)))))
       = (if \<exists>e. en_send env (map snd (batch_of (a, w))) = Inl e \<and> error_kind e \<noteq> Rejected then disk_queue (w_disk w)
          else drop (nat (maxBatch a)) (disk_queue (w_disk w)))"
proof -
  have ok: "disk_ok (w_disk w)" and rm: "\<forall>nm. \<not> ft_remove (en_discard env) nm"
    using assms(1) by (simp_all add: can_upload_def)
  let ?b = "batch_of (a, w)" and ?w = "sent_world env (a, w)"
  note sw = sent_world_simps [OF ok, of env a]
  have d: "disk_queue (w_disk (discard_batch (en_discard env) ?b v)) = drop (nat (maxBatch a)) (disk_queue (w_disk w))
      \<and> w_log (discard_batch (en_discard env) ?b v) = w_log v" if "w_disk v = w_disk ?w" for v
    using discard_batch_quiet [OF _ _ rm, of v ?b "nat (maxBatch a)"] sw(1,2) batch_sent_world [OF ok, of a env] that
    by (simp add: batch_of_def min_def)
  note u = upload_goes [OF assms(1)]
  show ?thesis
  proof (cases "en_send env (map snd ?b)")
    case (Inr resp)
    have "agg_current (ag_agg (a\<lparr>ag_failures := 0, ag_retryAt := 0\<rparr>)) = None" using assms(2) by simp
    note ap = applyConfig_idle [OF this]
    show ?thesis unfolding u using Inr d [of ?w] sw(3) by (simp add: ap)
  next
    case (Inl e)
    have "batches (w_log (snd (handleFailure env e ?b (a, ?w)))) = batches (w_log w) @ [map snd ?b]
        \<and> disk_queue (w_disk (snd (handleFailure env e ?b (a, ?w))))
          = (if error_kind e = Rejected then drop (nat (maxBatch a)) (disk_queue (w_disk w)) else disk_queue (w_disk w))"
      using d [of "log_event (WindowsRejected (int (length ?b))) ?w"] sw(2,3)
      by (cases "error_kind e") (simp_all add: handleFailure_def Let_def)
    then show ?thesis unfolding u using Inl by simp
  qed
qed

section \<open>Windows come in order\<close>

lemma sorted_hd_concat:
  "\<forall>g\<in>set gs. g \<noteq> [] \<Longrightarrow> sorted (map f (concat gs)) \<Longrightarrow> sorted (map (\<lambda>g. f (hd g)) gs)"
proof (induction gs)
  case (Cons g gs)
  have "f (hd g) \<le> f (hd g')" if "g' \<in> set gs" for g'
  proof -
    have "hd g \<in> set g" "hd g' \<in> set (concat gs)" using that Cons.prems(1) by (auto intro!: bexI [of _ g'])
    then show ?thesis using Cons.prems(2) by (auto simp: sorted_append)
  qed
  moreover have "sorted (map (\<lambda>g. f (hd g)) gs)" using Cons by (simp add: sorted_append)
  ultimately show ?case by simp
qed simp

lemma sorted_intervals:
  "sorted (map At ss) \<Longrightarrow> sorted (map (\<lambda>x. At (snd x)) (map the (filter (\<lambda>x. x \<noteq> None) (intervals p ss))))"
proof (induction ss arbitrary: p)
  case (Cons s ss)
  have "At s \<le> At (snd x)" if "x \<in> set (map the (filter (\<lambda>x. x \<noteq> None) (intervals s ss)))" for x
    using intervals_derived [OF derived_intervals [OF that]] Cons.prems by auto
  with Cons.IH [of s] Cons.prems show ?case by (cases "Derive p s") auto
qed simp

lemma windows_of_samples:
  assumes "int (length ss) < 9223372036854775808" and "w' = agg_window (new_aggregator w)" and "sorted (map At ss)"
  shows "sorted (map b_Start (agg_output (new_aggregator w) (s # ss)))"
    and "b \<in> set (agg_output (new_aggregator w) (s # ss)) \<Longrightarrow> \<exists>x\<in>set ss. b_Start b = Truncate (At x) w'"
proof -
  let ?gs = "group w' [] (intervals s ss)"
  have out: "agg_output (new_aggregator w) (s # ss) = map (bucket_of w') ?gs"
    using agg_output_groups [OF assms(1)] assms(2) by simp
  have pos: "0 < w'" by (simp add: assms(2) agg_window_def DefaultWindow_def second_def)
  have ne: "\<forall>g\<in>set ?gs. g \<noteq> []" using group_windows [OF _ one_window_Nil] by blast
  have c: "concat ?gs = map the (filter (\<lambda>x. x \<noteq> None) (intervals s ss))" by (simp add: concat_group)
  have "sorted (map (\<lambda>g. At (snd (hd g))) ?gs)"
    using sorted_hd_concat [OF ne, of "\<lambda>x. At (snd x)"] sorted_intervals [OF assms(3)] unfolding c by simp
  then have "sorted (map (\<lambda>t. Truncate t w') (map (\<lambda>g. At (snd (hd g))) ?gs))"
    by (rule sorted_map_mono) (rule mono_onI, rule Truncate_mono [OF pos])
  then show "sorted (map b_Start (agg_output (new_aggregator w) (s # ss)))"
    by (simp add: out comp_def bucket_of_Start window_of_def)
  assume "b \<in> set (agg_output (new_aggregator w) (s # ss))"
  then obtain g where g: "g \<in> set ?gs" "b = bucket_of w' g" by (auto simp: out)
  then have "hd g \<in> set (concat ?gs)" using ne by (auto intro!: bexI [of _ g])
  then have "snd (hd g) \<in> set ss" unfolding c using intervals_derived [OF derived_intervals] by blast
  then show "\<exists>x\<in>set ss. b_Start b = Truncate (At x) w'" using g(2) by (auto simp: bucket_of_Start window_of_def)
qed

section \<open>The spool after a series of windows\<close>

definition window_bytes :: "Bucket \<Rightarrow> int" where
  "window_bytes b = int (length (the (marshal_bucket b)))"

text \<open>
  Every name in the directory was there before, or was given by this spool to one of these windows.
  What was there before are windows that started earlier.
\<close>

definition named :: "string set \<Rightarrow> Bucket list \<Rightarrow> Spool \<Rightarrow> directory \<Rightarrow> bool" where
  "named old ws sp d \<longleftrightarrow> dir_ok d \<and> uint (sp_seq sp) = int (length ws)
     \<and> (\<forall>n x. map_of d n = Some x \<longrightarrow> n \<in> old \<or> (\<exists>k b. b \<in> set ws \<and> k \<le> sp_seq sp \<and> n = entry_name k b))"

definition before :: "string set \<Rightarrow> Bucket \<Rightarrow> bool" where
  "before old b \<longleftrightarrow> (\<forall>n\<in>old. \<exists>k c. n = entry_name k c \<and> uint k < 1000000 \<and> 0 \<le> UnixNano (b_Start c)
     \<and> UnixNano (b_Start c) < UnixNano (b_Start b))"

text \<open>Windows that can be stored one after the other: writable, of the years of \<open>UnixNano\<close>, in order.\<close>

definition in_order :: "Bucket list \<Rightarrow> bool" where
  "in_order ws \<longleftrightarrow> (\<forall>b\<in>set ws. bucket_ok b \<and> 0 \<le> UnixNano (b_Start b))
     \<and> sorted (map (\<lambda>b. UnixNano (b_Start b)) ws) \<and> length ws < 1000000"

lemma UnixNano_in_range: "unix_epoch \<le> t \<Longrightarrow> t < unix_epoch + 9223372036854775808 \<Longrightarrow> UnixNano t = t - unix_epoch"
  unfolding UnixNano_def by (rule i64_id) simp_all

lemma empty_dir: "dir_ok []" "names_of [] = []" "queue_of [] = []" "view [] = []"
  by (simp_all add: dir_ok_def names_of_def view_def queue_of_def)

text \<open>The windows of ordered samples can be stored one after the other.\<close>

lemma windows_in_order:
  assumes out: "ws = agg_output (new_aggregator w) (s # ss)"
    and w': "w' = agg_window (new_aggregator w)" and len: "int (length ss) < 9223372036854775807"
    and short: "length (group w' [] (intervals s ss)) < 1000000" and sorted: "sorted (map At ss)"
    and ok: "\<forall>x\<in>set ss. sample_ok w' x \<and> unix_epoch \<le> Truncate (At x) w'
       \<and> Truncate (At x) w' < unix_epoch + 9223372036854775808"
  shows "in_order ws"
proof -
  have len': "int (length ss) < 9223372036854775808" using len by simp
  note wn = windows_of_samples [OF len' w' sorted, where s = s, folded out]
  have un: "UnixNano (b_Start b) = b_Start b - unix_epoch \<and> 0 \<le> UnixNano (b_Start b)" if b: "b \<in> set ws" for b
  proof -
    obtain x where "x \<in> set ss" "b_Start b = Truncate (At x) w'" using wn(2) [OF b] by blast
    with ok have "unix_epoch \<le> b_Start b" "b_Start b < unix_epoch + 9223372036854775808" by auto
    then show ?thesis using UnixNano_in_range by simp
  qed
  have lw: "length ws < 1000000"
    using short agg_output_groups [OF len'] w' by (simp add: out)
  have eq: "map (\<lambda>b. UnixNano (b_Start b)) ws = map (\<lambda>t. t - unix_epoch) (map b_Start ws)"
    using un by simp
  have st: "sorted (map (\<lambda>b. UnixNano (b_Start b)) ws)"
    unfolding eq by (rule sorted_map_mono [OF wn(1)]) (simp add: mono_on_def)
  have "\<forall>x\<in>set ss. sample_ok w' x" using ok by blast
  then have "\<forall>b\<in>set ws. bucket_ok b \<and> 0 \<le> UnixNano (b_Start b)"
    using un agg_output_ok [OF len w', where s = s, folded out] by blast
  with st lw show ?thesis unfolding in_order_def by (intro conjI)
qed

lemma named_names:
  assumes "named old ws sp d" and "m \<in> set (names_of d)"
  shows "m \<in> old \<or> (\<exists>k b. b \<in> set ws \<and> k \<le> sp_seq sp \<and> m = entry_name k b)"
proof -
  have "is_entry d m" using assms set_names_of [of d] by (auto simp: named_def)
  then show ?thesis using assms(1) by (auto simp: named_def is_entry_def)
qed

lemma named_del_all: "named old ws sp d \<Longrightarrow> named old ws sp (del_all S d)"
  by (simp add: named_def map_of_del_all)

lemma next_name_last:
  assumes "named old ws sp d" and "in_order (ws @ [b])" and "before old b"
  shows "map_of d (entry_name (sp_seq sp + 1) b) = None" and "\<forall>m\<in>set (names_of d). m < entry_name (sp_seq sp + 1) b"
proof -
  let ?k = "sp_seq sp + 1"
  have l: "uint (sp_seq sp) + 1 < 1000000" using assms(1,2) by (simp add: named_def in_order_def)
  then have u: "uint ?k = uint (sp_seq sp) + 1" by (simp add: uint_word_ariths)
  have less: "entry_name j c < entry_name ?k b" if "c \<in> set ws" "j \<le> sp_seq sp" for j c
  proof -
    have s: "UnixNano (b_Start c) \<le> UnixNano (b_Start b)" "0 \<le> UnixNano (b_Start c)" "0 \<le> UnixNano (b_Start b)"
      using assms(2) that(1) by (auto simp: in_order_def sorted_append)
    have "uint j \<le> uint (sp_seq sp)" using that(2) by (simp add: word_le_def)
    then have "uint j < 1000000" "uint ?k < 1000000" "j < ?k" using l u by (simp_all add: word_less_def)
    then show ?thesis using entry_order [OF s(2,3), of j ?k] s(1) by (auto simp: le_less)
  qed
  have old: "m < entry_name ?k b" if "m \<in> old" for m
  proof -
    obtain j c where c: "m = entry_name j c" "uint j < 1000000" "0 \<le> UnixNano (b_Start c)"
      "UnixNano (b_Start c) < UnixNano (b_Start b)" using assms(3) \<open>m \<in> old\<close> unfolding before_def by blast
    have "0 \<le> UnixNano (b_Start b)" "uint ?k < 1000000" using c(3,4) l u by simp_all
    with entry_order [OF c(3), of b j ?k] c show ?thesis by simp
  qed
  show "\<forall>m\<in>set (names_of d). m < entry_name ?k b"
    using named_names [OF assms(1)] less old by blast
  show "map_of d (entry_name ?k b) = None"
  proof (rule ccontr)
    assume "map_of d (entry_name ?k b) \<noteq> None"
    then have "entry_name ?k b \<in> old \<or> (\<exists>j c. c \<in> set ws \<and> j \<le> sp_seq sp \<and> entry_name ?k b = entry_name j c)"
      using assms(1) unfolding named_def by blast
    then have "entry_name ?k b < entry_name ?k b"
    proof (elim disjE exE conjE)
      fix j c assume c: "c \<in> set ws" "j \<le> sp_seq sp" "entry_name ?k b = entry_name j c"
      from less [OF c(1,2)] show ?thesis by (simp only: c(3))
    qed (rule old)
    then show False by simp
  qed
qed

text \<open>Storing the next window: it goes behind the others, and then the cap may drop the first \<open>k\<close> names.\<close>

lemma named_Add:
  assumes "named old ws sp d" and "in_order (ws @ [b])" and "before old b" and "quiet f"
  shows "\<exists>d1 k. Add f b sp (Some d) = (sp\<lparr>sp_seq := sp_seq sp + 1\<rparr>,
        Some (del_all (set (take k (names_of d1))) d1), None, if 0 < k \<and> sp_OnDrop sp then [k] else [])
     \<and> named old (ws @ [b]) (sp\<lparr>sp_seq := sp_seq sp + 1\<rparr>) d1
     \<and> map snd (queue_of d1) = map snd (queue_of d) @ [stored b]
     \<and> bytes_in d1 (names_of d1) = bytes_in d (names_of d) + window_bytes b \<and> within_cap (maxBytes sp) d1 k"
proof -
  let ?n = "entry_name (sp_seq sp + 1) b" and ?tmp = "''tmp-'' @ ft_suffix f"
  have d: "dir_ok d" using assms(1) by (simp add: named_def)
  have "bucket_ok b" using assms(2) by (simp add: in_order_def)
  from marshal_stored [OF this] obtain p where p: "marshal_bucket b = Some p" "unmarshal_bucket p = Some (stored b)" by blast
  have h: "filepath_Ext ?tmp \<noteq> ext" using quiet_simps(13) [OF assms(4)] by (rule tmp_hidden)
  have "map_of d ?tmp = None"
  proof (rule ccontr)
    assume "map_of d ?tmp \<noteq> None"
    then obtain k c where "?tmp = entry_name k c" using assms(1,3) unfolding named_def before_def by blast
    with h show False by simp
  qed
  note fresh = next_name_last [OF assms(1-3)]
  obtain d1 k where A: "Add f b sp (Some d) = (sp\<lparr>sp_seq := sp_seq sp + 1\<rparr>,
      Some (del_all (set (take k (names_of d1))) d1), None, if 0 < k \<and> sp_OnDrop sp then [k] else [])"
    "dir_ok d1" "view d1 = view (put ?n (File p) d)" "within_cap (maxBytes sp) d1 k"
    "map_of d1 = (map_of d)(?n \<mapsto> File p)"
    using Add_quiet [OF d assms(4) \<open>map_of d ?tmp = None\<close> p(1), of sp] fresh(1) by auto
  have v: "view d1 = view d @ [(?n, p)]"
    using view_put_last [OF d filepath_Ext_entry fresh] by (simp add: A(3))
  have "uint (sp_seq sp) + 1 < 1000000" using assms(1,2) by (simp add: named_def in_order_def)
  then have u: "uint (sp_seq sp + 1) = uint (sp_seq sp) + 1" by (simp add: uint_word_ariths)
  then have le: "sp_seq sp \<le> sp_seq sp + 1" by (simp add: word_le_def)
  have "m \<in> old \<or> (\<exists>k c. c \<in> set (ws @ [b]) \<and> k \<le> sp_seq sp + 1 \<and> m = entry_name k c)" if "map_of d1 m = Some x" for m x
  proof (cases "m = ?n")
    case True
    then show ?thesis by (intro disjI2 exI [of _ "sp_seq sp + 1"] exI [of _ b]) simp
  next
    case False
    then have "map_of d m = Some x" using that A(5) by simp
    then have "m \<in> old \<or> (\<exists>k c. c \<in> set ws \<and> k \<le> sp_seq sp \<and> m = entry_name k c)"
      using assms(1) unfolding named_def by blast
    then show ?thesis
    proof (elim disjE exE conjE)
      fix k c assume "c \<in> set ws" "k \<le> sp_seq sp" "m = entry_name k c"
      then show ?thesis using le by (intro disjI2 exI [of _ k] exI [of _ c]) auto
    qed simp
  qed
  then have "named old (ws @ [b]) (sp\<lparr>sp_seq := sp_seq sp + 1\<rparr>) d1"
    using A(2) u assms(1) by (simp add: named_def)
  moreover have "map snd (queue_of d1) = map snd (queue_of d) @ [stored b]"
    using p(2) by (simp add: queue_decoded v)
  moreover have "bytes_in d1 (names_of d1) = bytes_in d (names_of d) + window_bytes b"
    using p(1) by (simp add: bytes_in_view v window_bytes_def)
  ultimately show ?thesis using A(1,4) by (intro exI [of _ d1] exI [of _ k] conjI)
qed

lemma in_order_append: "in_order (us @ vs) \<Longrightarrow> in_order us"
  by (simp add: in_order_def sorted_append)

end
