(* ===== verification/Interleaving.thy ===== *)
theory Interleaving
  imports Delivery
begin

text \<open>
  What a machine whose disk works delivers while it runs, whatever the order in which samples are taken
  and uploads are tried and however the platform answers.  The specification is a queue: the windows
  of the samples go in at one end, behind those that earlier processes left, and answered batches leave at
  the other.  \<open>answered\<close> reads the windows that were answered for good off the log, \<open>fifo\<close> is the relation
  between the state and the windows so far, and every action of a run keeps it.  \<open>run_flows\<close> starts it:
  a fresh process whose windows, in the order they are stored, get names in order.
\<close>

section \<open>What the log says was answered\<close>

text \<open>
  The windows answered for good, and those sent and waiting for the answer.  A failure takes these back.
\<close>

definition settle :: "event \<Rightarrow> Bucket list \<times> Bucket list \<Rightarrow> Bucket list \<times> Bucket list" where
  "settle e = (\<lambda>(ans, pending). case e of Sent bs \<Rightarrow> (ans, pending @ bs)
     | Uploaded _ _ \<Rightarrow> (ans @ pending, []) | WindowsRejected _ \<Rightarrow> (ans @ pending, [])
     | UploadUnauthorized _ \<Rightarrow> (ans, []) | UploadFailed _ _ \<Rightarrow> (ans, []) | _ \<Rightarrow> (ans, pending))"

definition traffic :: "event list \<Rightarrow> Bucket list \<times> Bucket list" where
  "traffic l = fold settle l ([], [])"

definition answered :: "event list \<Rightarrow> Bucket list" where
  "answered l = fst (traffic l)"

text \<open>Events that are no part of an upload; the two ways an upload can end.\<close>

definition neutral :: "event \<Rightarrow> bool" where
  "neutral e \<longleftrightarrow> (case e of Sent _ \<Rightarrow> False | Uploaded _ _ \<Rightarrow> False | WindowsRejected _ \<Rightarrow> False
     | UploadUnauthorized _ \<Rightarrow> False | UploadFailed _ _ \<Rightarrow> False | _ \<Rightarrow> True)"

definition is_answer :: "event \<Rightarrow> bool" where
  "is_answer e \<longleftrightarrow> (case e of Uploaded _ _ \<Rightarrow> True | WindowsRejected _ \<Rightarrow> True | _ \<Rightarrow> False)"

definition is_failure :: "event \<Rightarrow> bool" where
  "is_failure e \<longleftrightarrow> (case e of UploadUnauthorized _ \<Rightarrow> True | UploadFailed _ _ \<Rightarrow> True | _ \<Rightarrow> False)"

lemma traffic_Nil [simp]: "traffic [] = ([], [])"
  by (simp add: traffic_def)

lemma settle_neutral: "neutral e \<Longrightarrow> settle e p = p"
  by (cases e) (auto simp: settle_def neutral_def split: prod.splits)

lemma traffic_same: "\<forall>e\<in>set l'. neutral e \<Longrightarrow> traffic (l @ l') = traffic l"
proof (induction l' rule: rev_induct)
  case (snoc e l')
  then show ?case by (simp add: traffic_def settle_neutral)
qed simp

lemma traffic_upload:
  "snd (traffic l) = [] \<Longrightarrow> is_answer e \<Longrightarrow> traffic (l @ [Sent bs, e]) = (answered l @ bs, [])"
  "snd (traffic l) = [] \<Longrightarrow> is_failure e \<Longrightarrow> traffic (l @ [Sent bs, e]) = (answered l, [])"
  by (cases e; auto simp: traffic_def answered_def settle_def is_answer_def is_failure_def split: prod.splits)+

section \<open>What an upload leaves of the directory\<close>

lemma Peek_sub: "dir_ok d \<Longrightarrow> \<exists>S. fst (Peek f n (Some d)) = Some (del_all S d)"
proof (cases "ft_readdir f \<or> n < 0")
  case True
  then show ?thesis by (intro exI [of _ "{}"]) (auto simp: Peek_def files_def)
next
  case False
  assume "dir_ok d"
  obtain S where "fst (peek_loop f n (names_of d) [] d) = del_all S d"
    using peek_loop_removes [OF names_of_distinct [OF \<open>dir_ok d\<close>], of d f n "[]"] by blast
  with False show ?thesis by (intro exI [of _ S]) (simp add: Peek_def files_names)
qed

lemma discard_batch_sub: "w_disk w = Some d \<Longrightarrow> \<exists>S. w_disk (discard_batch f es w) = Some (del_all S d)"
proof -
  assume "w_disk w = Some d"
  moreover obtain k where "fst (discard_loop f es d) = del_all (fst ` set (take k es)) d"
    using discard_loop_removes by blast
  ultimately show ?thesis
    by (cases "discard_loop f es d") (auto simp: discard_batch_def Discard_def Let_def split: option.splits)
qed

lemma del_all_twice: "del_all S (del_all T d) = del_all (S \<union> T) d"
  unfolding del_all_def filter_filter by (rule filter_cong) auto

text \<open>A reply that does not change the window width leaves the spool and the aggregator alone.\<close>

lemma applyConfig_same_window:
  assumes "Window (fst (Apply c (ag_Settings a))) = Window (ag_Settings a)"
  shows "\<exists>st l ch. applyConfig env c (a, w) = ((a\<lparr>ag_Settings := st\<rparr>, w\<lparr>w_log := w_log w @ l\<rparr>), ch)
     \<and> (\<forall>e\<in>set l. neutral e) \<and> Window st = Window (ag_Settings a)"
proof (cases "Apply c (ag_Settings a)")
  case (Pair n err)
  have id: "a = a\<lparr>ag_Settings := ag_Settings a\<rparr>" "w = w\<lparr>w_log := w_log w @ []\<rparr>" by simp_all
  show ?thesis
  proof (cases err)
    case (Some e)
    with Pair show ?thesis
      by (intro exI [of _ "ag_Settings a"] exI [of _ "[ConfigIgnored e]"] exI [of _ False])
        (simp add: applyConfig_def log_event_def neutral_def)
  next
    case None
    with Pair assms have "Window n = Window (ag_Settings a)" by simp
    show ?thesis
    proof (cases "n = ag_Settings a")
      case True
      with Pair None show ?thesis
        by (intro exI [of _ "ag_Settings a"] exI [of _ "[]"] exI [of _ False]) (simp add: applyConfig_def)
    next
      case False
      with Pair None \<open>Window n = _\<close> show ?thesis
        by (intro exI [of _ n] exI [of _ "[ConfigUpdated n]"] exI [of _ True])
          (simp add: applyConfig_def log_event_def neutral_def)
    qed
  qed
qed

section \<open>The queue of a run\<close>

text \<open>
  The names and the windows that were there at the start: \<open>ini\<close>.  These windows and those stored since, in
  order: the first ones are answered for good, the others are queued.  Or the cap dropped windows, and the
  log says so.
\<close>

definition fifo :: "string set \<times> Bucket list \<Rightarrow> Bucket list \<Rightarrow> state \<Rightarrow> bool" where
  "fifo ini ws = (\<lambda>(a, w). \<exists>d. w_disk w = Some d \<and> named (fst ini) ws (ag_Spool a) d
     \<and> snd (traffic (w_log w)) = [] \<and> snd ini @ map stored ws = answered (w_log w) @ map snd (queue_of d))"

definition dropped :: "state \<Rightarrow> bool" where
  "dropped s \<longleftrightarrow> (\<exists>k. DroppedOldest k \<in> set (w_log (snd s)))"

lemma dropped_grows: "dropped s \<Longrightarrow> log_grows s s' \<Longrightarrow> dropped s'"
  by (auto simp: dropped_def log_grows_def)

lemma fifo_log:
  assumes "fifo ini ws (a, w)" and "\<forall>e\<in>set l. neutral e" and "ag_Spool a' = ag_Spool a"
  shows "fifo ini ws (a', w\<lparr>w_log := w_log w @ l\<rparr>)"
  using assms by (simp add: fifo_def answered_def traffic_same)

text \<open>Windows that can be stored one after the other behind what was there.\<close>

definition ready :: "string set \<times> Bucket list \<Rightarrow> Bucket list \<Rightarrow> bool" where
  "ready ini ws \<longleftrightarrow> in_order ws \<and> (\<forall>b\<in>set ws. before (fst ini) b)"

lemma ready_append: "ready ini (us @ vs) \<Longrightarrow> ready ini us"
  using in_order_append [of us vs] by (simp add: ready_def)

abbreviation window_list :: "Bucket option \<Rightarrow> Bucket list" where
  "window_list out \<equiv> (case out of None \<Rightarrow> [] | Some b \<Rightarrow> [b])"

lemma fifo_persist:
  assumes "fifo ini ws (a, w)" and "ready ini (ws @ window_list out)" and "quiet f" and "sp_OnDrop (ag_Spool a)"
  shows "\<exists>sp w'. persist_opt f out (a, w) = (a\<lparr>ag_Spool := sp\<rparr>, w') \<and> sp_OnDrop sp
     \<and> length (queue_at (a, w')) \<le> length (queue_at (a, w)) + 1
     \<and> (fifo ini (ws @ window_list out) (a\<lparr>ag_Spool := sp\<rparr>, w') \<or> dropped (a\<lparr>ag_Spool := sp\<rparr>, w'))"
proof (cases out)
  case None
  with assms show ?thesis by (intro exI [of _ "ag_Spool a"] exI [of _ w]) (simp add: persist_opt_def)
next
  case (Some b)
  let ?sp = "(ag_Spool a)\<lparr>sp_seq := sp_seq (ag_Spool a) + 1\<rparr>"
  obtain d where d: "w_disk w = Some d" "named (fst ini) ws (ag_Spool a) d"
    "snd (traffic (w_log w)) = []" "snd ini @ map stored ws = answered (w_log w) @ map snd (queue_of d)"
    using assms(1) by (auto simp: fifo_def)
  obtain d1 k where A: "Add f b (ag_Spool a) (Some d) = (?sp, Some (del_all (set (take k (names_of d1))) d1), None,
      if 0 < k \<and> sp_OnDrop (ag_Spool a) then [k] else [])"
    "named (fst ini) (ws @ [b]) ?sp d1" "map snd (queue_of d1) = map snd (queue_of d) @ [stored b]"
    using named_Add [OF d(2) _ _ assms(3), of b] assms(2) Some by (auto simp: ready_def)
  have l1: "length (queue_of d1) = length (queue_of d) + 1" using arg_cong [OF A(3), of length] by simp
  show ?thesis
  proof (cases k)
    case 0
    then have "persist f b (a, w) = (a\<lparr>ag_Spool := ?sp\<rparr>, w\<lparr>w_disk := Some d1\<rparr>)"
      using A(1) d(1) by (simp add: persist_def)
    moreover have "fifo ini (ws @ [b]) (a\<lparr>ag_Spool := ?sp\<rparr>, w\<lparr>w_disk := Some d1\<rparr>)"
      using A(2,3) d(3,4) by (simp add: fifo_def)
    ultimately show ?thesis using Some assms(4) l1 d(1)
      by (intro exI [of _ ?sp] exI [of _ "w\<lparr>w_disk := Some d1\<rparr>"]) (simp add: persist_opt_def)
  next
    case (Suc j)
    let ?w = "log_event (DroppedOldest k) (w\<lparr>w_disk := Some (del_all (set (take k (names_of d1))) d1)\<rparr>)"
    have "persist f b (a, w) = (a\<lparr>ag_Spool := ?sp\<rparr>, ?w)"
      using A(1) d(1) assms(4) Suc by (simp add: persist_def)
    moreover have "dropped (a\<lparr>ag_Spool := ?sp\<rparr>, ?w)" by (auto simp: dropped_def)
    moreover have "length (queue_of (del_all (set (take k (names_of d1))) d1)) \<le> length (queue_of d) + 1"
    proof -
      have "dir_ok d1" using A(2) by (simp add: named_def)
      then have "length (queue_of (del_all (set (take k (names_of d1))) d1)) \<le> length (queue_of d1)"
        by (simp add: queue_of_del_all)
      with l1 show ?thesis by simp
    qed
    ultimately show ?thesis using Some assms(4) d(1) by (intro exI [of _ ?sp] exI [of _ ?w]) (simp add: persist_opt_def)
  qed
qed

text \<open>An upload moves windows from the queue to the answered ones, or does neither.\<close>

definition steady :: "duration \<Rightarrow> env \<Rightarrow> bool" where
  "steady wd env \<longleftrightarrow> (\<forall>nm. \<not> ft_remove (en_discard env) nm)
     \<and> (\<forall>bs resp s. en_send env bs = Inr resp \<and> Window s = wd \<longrightarrow> Window (fst (Apply (Config resp) s)) = wd)"

lemma upload_sub:
  assumes "w_disk w = Some d" and "dir_ok d" and "steady (Window (ag_Settings a)) env"
  shows "\<exists>S. w_disk (snd (fst (upload env (a, w)))) = Some (del_all S d)"
proof (cases "en_now env < ag_retryAt a")
  case True
  then show ?thesis using assms(1) by (intro exI [of _ "{}"]) (simp add: upload_def)
next
  case go: False
  obtain S r where p: "Peek (en_peek env) (maxBatch a) (w_disk w) = (Some (del_all S d), r)"
    using Peek_sub [OF assms(2), of "en_peek env" "maxBatch a"] assms(1)
    by (cases "Peek (en_peek env) (maxBatch a) (w_disk w)") auto
  have keep: "\<exists>S. w_disk (discard_batch f es v) = Some (del_all S d)" if v: "w_disk v = Some (del_all S d)" for f es v
    using discard_batch_sub [OF v, of f es] by (auto simp: del_all_twice)
  show ?thesis
  proof (cases r)
    case (Inl e)
    with go p show ?thesis by (intro exI [of _ S]) (simp add: upload_def)
  next
    case (Inr es)
    let ?w = "log_event (Sent (map snd es)) (w\<lparr>w_disk := Some (del_all S d)\<rparr>)"
    show ?thesis
    proof (cases "es = []")
      case True
      with Inr go p show ?thesis by (intro exI [of _ S]) (simp add: upload_def)
    next
      case False
      show ?thesis
      proof (cases "en_send env (map snd es)")
        case (Inl e)
        with False Inr go p have "upload env (a, w) = (handleFailure env e es (a, ?w), False)" by (simp add: upload_def)
        moreover have "\<exists>S. w_disk (snd (handleFailure env e es (a, ?w))) = Some (del_all S d)"
          using keep [of "log_event (WindowsRejected (int (length es))) ?w" "en_discard env" es]
          by (cases "error_kind e") (auto simp: handleFailure_def Let_def)
        ultimately show ?thesis by simp
      next
        case (Inr resp)
        let ?w1 = "log_event (Uploaded (int (length es)) (Accepted resp)) (discard_batch (en_discard env) es ?w)"
        have "upload env (a, w) = applyConfig env (Config resp) (a\<lparr>ag_failures := 0, ag_retryAt := 0\<rparr>, ?w1)"
          using False \<open>r = _\<close> Inr go p by (simp add: upload_def)
        moreover have "Window (fst (Apply (Config resp) (ag_Settings a))) = Window (ag_Settings a)"
          using assms(3) Inr by (simp add: steady_def)
        ultimately show ?thesis
          using applyConfig_same_window [of "Config resp" "a\<lparr>ag_failures := 0, ag_retryAt := 0\<rparr>" env ?w1]
            keep [of ?w "en_discard env" es] by auto
      qed
    qed
  qed
qed

lemma upload_answers:
  assumes "disk_ok (w_disk w)" and "steady (Window (ag_Settings a)) env" and "snd (traffic (w_log w)) = []"
  shows "\<exists>st n t w'. fst (upload env (a, w)) = (a\<lparr>ag_Settings := st, ag_failures := n, ag_retryAt := t\<rparr>, w')
     \<and> Window st = Window (ag_Settings a) \<and> snd (traffic (w_log w')) = []
     \<and> answered (w_log w') @ map snd (disk_queue (w_disk w')) = answered (w_log w) @ map snd (disk_queue (w_disk w))"
proof -
  let ?b = "batch_of (a, w)" and ?w = "sent_world env (a, w)"
  note sw = sent_world_simps [OF assms(1), of env a]
  have rm: "\<forall>nm. \<not> ft_remove (en_discard env) nm" using assms(2) by (simp add: steady_def)
  have b: "?b @ drop (length ?b) (disk_queue (w_disk w)) = disk_queue (w_disk w)"
    by (simp add: batch_of_def min_def)
  have dq: "disk_queue (w_disk (discard_batch (en_discard env) ?b v)) = drop (length ?b) (disk_queue (w_disk w))
      \<and> w_log (discard_batch (en_discard env) ?b v) = w_log v" if "w_disk v = w_disk ?w" for v
    using discard_batch_quiet [OF _ _ rm, of v ?b "nat (maxBatch a)"] sw(1,2) batch_sent_world [OF assms(1), of a env] that
    by simp
  have ans: "answered (w_log w @ [Sent (map snd ?b), e] @ l) @ map snd (drop (length ?b) (disk_queue (w_disk w)))
      = answered (w_log w) @ map snd (disk_queue (w_disk w)) \<and> snd (traffic (w_log w @ [Sent (map snd ?b), e] @ l)) = []"
    if "is_answer e" "\<forall>e\<in>set l. neutral e" for e l
    using traffic_same [OF that(2), of "w_log w @ [Sent (map snd ?b), e]"] arg_cong [OF b, of "map snd"]
      traffic_upload(1) [OF assms(3) that(1), of "map snd ?b"]
    by (simp add: answered_def)
  from upload_shape [OF assms(1), of env a] show ?thesis
  proof (rule disjE, goal_cases)
    case 1
    then obtain disk l where u: "upload env (a, w) = ((a, w\<lparr>w_disk := disk, w_log := w_log w @ l\<rparr>), False)"
      "disk_queue disk = disk_queue (w_disk w)" "l = [] \<or> (\<exists>e. l = [SpoolReadFailed e])" by (elim exE conjE)
    from u(3) have "\<forall>e\<in>set l. neutral e" by (auto simp: neutral_def)
    with u assms(3) show ?case
      by (intro exI [of _ "ag_Settings a"] exI [of _ "ag_failures a"] exI [of _ "ag_retryAt a"]
          exI [of _ "w\<lparr>w_disk := disk, w_log := w_log w @ l\<rparr>"]) (simp add: answered_def traffic_same)
  next
    case 2
    show ?case
    proof (cases "en_send env (map snd ?b)")
      case (Inr resp)
      let ?a = "a\<lparr>ag_failures := 0, ag_retryAt := 0\<rparr>"
      let ?w1 = "log_event (Uploaded (int (length ?b)) (Accepted resp)) (discard_batch (en_discard env) ?b ?w)"
      have "Window (fst (Apply (Config resp) (ag_Settings ?a))) = Window (ag_Settings ?a)"
        using assms(2) Inr by (simp add: steady_def)
      from applyConfig_same_window [OF this, of env ?w1] obtain st l ch where
        c: "applyConfig env (Config resp) (?a, ?w1) = ((?a\<lparr>ag_Settings := st\<rparr>, ?w1\<lparr>w_log := w_log ?w1 @ l\<rparr>), ch)"
        and l: "\<forall>e\<in>set l. neutral e" "Window st = Window (ag_Settings ?a)" by blast
      have "w_log ?w1 @ l = w_log w @ [Sent (map snd ?b), Uploaded (int (length ?b)) (Accepted resp)] @ l"
        using dq [of ?w] sw(3) by simp
      then show ?thesis
        using 2 Inr c dq [of ?w] l(2) ans [OF _ l(1), of "Uploaded (int (length ?b)) (Accepted resp)"]
        by (intro exI [of _ st] exI [of _ 0] exI [of _ 0] exI [of _ "?w1\<lparr>w_log := w_log ?w1 @ l\<rparr>"])
          (simp add: is_answer_def)
    next
      case (Inl e)
      with 2 have u: "upload env (a, w) = (handleFailure env e ?b (a, ?w), False)" by simp
      let ?n = "i64 (ag_failures a + 1)"
      let ?wr = "log_event (WindowsRejected (int (length ?b))) ?w"
      note keep = traffic_upload(2) [OF assms(3), of _ "map snd ?b"]
      show ?thesis unfolding u
        using dq [of ?wr] sw ans [of "WindowsRejected (int (length ?b))" "[]"] keep
        by (intro exI [of _ "ag_Settings a"] exI [of _ ?n]
            exI [of _ "en_fail_now env + Delay (en_rand env) (ag_Backoff a) ?n"]
            exI [of _ "snd (handleFailure env e ?b (a, ?w))"])
          (cases "error_kind e"; simp add: handleFailure_def Let_def is_answer_def is_failure_def answered_def)
    qed
  qed
qed

lemma fifo_upload:
  assumes "fifo ini ws (a, w)" and "steady (Window (ag_Settings a)) env"
  shows "\<exists>st n t w'. fst (upload env (a, w)) = (a\<lparr>ag_Settings := st, ag_failures := n, ag_retryAt := t\<rparr>, w')
     \<and> Window st = Window (ag_Settings a) \<and> fifo ini ws (a\<lparr>ag_Settings := st, ag_failures := n, ag_retryAt := t\<rparr>, w')"
proof -
  obtain d where d: "w_disk w = Some d" "named (fst ini) ws (ag_Spool a) d"
    "snd (traffic (w_log w)) = []" "snd ini @ map stored ws = answered (w_log w) @ map snd (queue_of d)"
    using assms(1) by (auto simp: fifo_def)
  then have ok: "disk_ok (w_disk w)" "dir_ok d" by (simp_all add: named_def)
  obtain S where S: "w_disk (snd (fst (upload env (a, w)))) = Some (del_all S d)"
    using upload_sub [OF d(1) ok(2) assms(2)] by blast
  obtain st n t w' where u: "fst (upload env (a, w)) = (a\<lparr>ag_Settings := st, ag_failures := n, ag_retryAt := t\<rparr>, w')"
    "Window st = Window (ag_Settings a)" "snd (traffic (w_log w')) = []"
    "answered (w_log w') @ map snd (disk_queue (w_disk w')) = answered (w_log w) @ map snd (disk_queue (w_disk w))"
    using upload_answers [OF ok(1) assms(2) d(3)] by blast
  then show ?thesis using S d named_del_all [OF d(2), of S]
    by (intro exI [of _ st] exI [of _ n] exI [of _ t] exI [of _ w']) (simp add: fifo_def)
qed

section \<open>Samples, uploads and shutdown\<close>

lemma sample_step:
  "sample env (a, w) = (case Collect (en_os env) (ag_Collector a) of
       Inl e \<Rightarrow> (a, log_event (SampleFailed e) w)
     | Inr s \<Rightarrow> persist_opt (en_add env) (snd (agg_Add s (ag_agg a))) (a\<lparr>ag_agg := fst (agg_Add s (ag_agg a))\<rparr>, w))"
  by (cases "Collect (en_os env) (ag_Collector a)") (simp_all add: sample_def case_prod_beta)

text \<open>The windows that the actions give to the spool.\<close>

definition agg_act :: "Collector \<Rightarrow> action \<Rightarrow> Aggregator \<Rightarrow> Aggregator \<times> Bucket list" where
  "agg_act c act g = (case act of
     SampleTick env \<Rightarrow> (case Collect (en_os env) c of Inl e \<Rightarrow> (g, [])
       | Inr s \<Rightarrow> apsnd window_list (agg_Add s g))
   | Stop env \<Rightarrow> apsnd window_list (agg_Flush g)
   | _ \<Rightarrow> (g, []))"

fun spooled :: "Collector \<Rightarrow> Aggregator \<Rightarrow> action list \<Rightarrow> Bucket list" where
  "spooled c g [] = []"
| "spooled c g (act # acts) = snd (agg_act c act g) @ spooled c (fst (agg_act c act g)) acts"

text \<open>The aggregator after the actions.\<close>

fun agg_after :: "Collector \<Rightarrow> Aggregator \<Rightarrow> action list \<Rightarrow> Aggregator" where
  "agg_after c g [] = g"
| "agg_after c g (act # acts) = agg_after c (fst (agg_act c act g)) acts"

lemma spooled_append: "spooled c g (us @ vs) = spooled c g us @ spooled c (agg_after c g us) vs"
  by (induction us arbitrary: g) simp_all

text \<open>What keeps the disk of an action working and the window width as it is.\<close>

definition works :: "duration \<Rightarrow> action \<Rightarrow> bool" where
  "works wd act \<longleftrightarrow> (case act of SampleTick env \<Rightarrow> quiet (en_add env) | UploadTick env \<Rightarrow> steady wd env
     | Stop env \<Rightarrow> quiet (en_add env) \<and> steady wd env | _ \<Rightarrow> True)"

lemma persist_opt_grows: "log_grows (a, w) (persist_opt f out (a', w))"
  using persist_opt_log [of f out a' w] by (auto simp: log_grows_def)

lemma sample_grows: "log_grows s (sample env s)"
  using sample_log [of env s] by (auto simp: log_grows_def)

lemma shutdown_grows:
  assumes "disk_ok (w_disk (snd s))"
  shows "log_grows s (shutdown env s)"
proof (cases s)
  case (Pair a w)
  obtain g out where f: "agg_Flush (ag_agg a) = (g, out)" by (cases "agg_Flush (ag_agg a)")
  obtain a1 w1 where p: "persist_opt (en_add env) out (a\<lparr>ag_agg := g\<rparr>, w) = (a1, w1)"
    by (cases "persist_opt (en_add env) out (a\<lparr>ag_agg := g\<rparr>, w)")
  have g1: "log_grows (a, w) (a1, w1)" using persist_opt_grows [of a w "en_add env" out "a\<lparr>ag_agg := g\<rparr>"] p by simp
  have ok: "disk_ok (w_disk w1)"
    using p persist_disk_ok [of w "en_add env" _ "a\<lparr>ag_agg := g\<rparr>"] assms Pair
    by (cases out) (auto simp: persist_opt_def dest: arg_cong [where f = "\<lambda>s. disk_ok (w_disk (snd s))"])
  obtain a2 w2 ch where u: "upload env (a1\<lparr>ag_retryAt := 0\<rparr>, w1) = ((a2, w2), ch)" by (metis surj_pair)
  have "log_grows (a1\<lparr>ag_retryAt := 0\<rparr>, w1) (a2, w2)" using upload_log [OF _ u] ok by simp
  then have "log_grows (a1, w1) (shutdown env (a, w))" by (auto simp: shutdown_def f p u log_grows_def)
  from log_grows_trans [OF g1 this] Pair show ?thesis by simp
qed

text \<open>The state of a run whose windows so far are \<open>ws\<close> and whose aggregator is \<open>g\<close>.\<close>

definition flow :: "duration \<Rightarrow> string set \<times> Bucket list \<Rightarrow> Collector \<Rightarrow> Aggregator \<Rightarrow> Bucket list \<Rightarrow> state \<Rightarrow> bool" where
  "flow wd ini c g ws s \<longleftrightarrow> fifo ini ws s \<and> Window (ag_Settings (fst s)) = wd \<and> sp_OnDrop (ag_Spool (fst s)) \<and> ag_Collector (fst s) = c \<and> ag_agg (fst s) = g"

lemma flow_persist:
  assumes "flow wd ini c g0 ws (a, w)" and "ready ini (ws @ window_list out)" and "quiet f"
  shows "flow wd ini c g (ws @ window_list out) (persist_opt f out (a\<lparr>ag_agg := g\<rparr>, w))
     \<or> dropped (persist_opt f out (a\<lparr>ag_agg := g\<rparr>, w))"
proof -
  have "fifo ini ws (a\<lparr>ag_agg := g\<rparr>, w)" "sp_OnDrop (ag_Spool (a\<lparr>ag_agg := g\<rparr>))" "ag_Collector a = c"
    "Window (ag_Settings a) = wd"
    using assms(1) by (simp_all add: flow_def fifo_def)
  with fifo_persist [OF this(1) assms(2,3) this(2)] show ?thesis by (auto simp: flow_def)
qed

lemma flow_sample:
  assumes "flow wd ini c g ws s" and "ready ini (ws @ snd (agg_act c (SampleTick env) g))" and "quiet (en_add env)"
  shows "flow wd ini c (fst (agg_act c (SampleTick env) g)) (ws @ snd (agg_act c (SampleTick env) g)) (sample env s)
     \<or> dropped (sample env s)"
proof (cases s)
  case (Pair a w)
  then have a: "ag_Collector a = c" "ag_agg a = g" using assms(1) by (simp_all add: flow_def)
  show ?thesis
  proof (cases "Collect (en_os env) c")
    case (Inl e)
    then have "sample env s = (a, w\<lparr>w_log := w_log w @ [SampleFailed e]\<rparr>)"
      using a by (simp add: Pair sample_def log_event_def)
    then show ?thesis
      using Inl assms(1) Pair fifo_log [of ini ws a w "[SampleFailed e]" a]
      by (simp add: flow_def agg_act_def neutral_def)
  next
    case (Inr x)
    then show ?thesis
      using a assms flow_persist [of wd ini c g ws a w "snd (agg_Add x g)" "en_add env" "fst (agg_Add x g)"]
      by (simp add: Pair sample_step agg_act_def)
  qed
qed

lemma flow_upload:
  assumes "flow wd ini c g ws s" and "steady wd env"
  shows "flow wd ini c g ws (fst (upload env s))"
proof (cases s)
  case (Pair a w)
  then have "fifo ini ws (a, w)" "steady (Window (ag_Settings a)) env" using assms by (simp_all add: flow_def)
  from fifo_upload [OF this] show ?thesis using assms(1) Pair by (auto simp: flow_def)
qed

lemma flow_shutdown:
  assumes "flow wd ini c g ws s" and "ready ini (ws @ snd (agg_act c (Stop env) g))" and "quiet (en_add env)" and "steady wd env"
    and "disk_ok (w_disk (snd s))"
  shows "flow wd ini c (fst (agg_act c (Stop env) g)) (ws @ snd (agg_act c (Stop env) g)) (shutdown env s)
     \<or> dropped (shutdown env s)"
proof (cases s)
  case (Pair a w)
  let ?g = "fst (agg_Flush g)" and ?out = "snd (agg_Flush g)"
  have a: "ag_agg a = g" using assms(1) Pair by (simp add: flow_def)
  obtain a1 w1 where p: "persist_opt (en_add env) ?out (a\<lparr>ag_agg := ?g\<rparr>, w) = (a1, w1)"
    by (cases "persist_opt (en_add env) ?out (a\<lparr>ag_agg := ?g\<rparr>, w)")
  obtain a2 w2 ch where u: "upload env (a1\<lparr>ag_retryAt := 0\<rparr>, w1) = ((a2, w2), ch)" by (metis surj_pair)
  have sh: "shutdown env s = (a2, w2\<lparr>w_log := w_log w2 @ [stop_event (en_stats env) (w_disk w2)]\<rparr>)"
    by (simp add: Pair shutdown_def case_prod_beta a p u log_event_def)
  have ok: "disk_ok (w_disk w1)"
    using p persist_disk_ok [of w "en_add env" _ "a\<lparr>ag_agg := ?g\<rparr>"] assms(5) Pair
    by (cases ?out) (auto simp: persist_opt_def dest: arg_cong [where f = "\<lambda>s. disk_ok (w_disk (snd s))"])
  have st: "neutral (stop_event f d)" for f d
    by (simp add: stop_event_def neutral_def split: sum.split)
  have "flow wd ini c ?g (ws @ window_list ?out) (a1, w1) \<or> dropped (a1, w1)"
    using flow_persist [of wd ini c g ws a w ?out "en_add env" ?g] assms(1-3) Pair p by (simp add: agg_act_def)
  then show ?thesis
  proof
    assume "flow wd ini c ?g (ws @ window_list ?out) (a1, w1)"
    then have "flow wd ini c ?g (ws @ window_list ?out) (a1\<lparr>ag_retryAt := 0\<rparr>, w1)" by (simp add: flow_def fifo_def)
    from flow_upload [OF this assms(4)] have "flow wd ini c ?g (ws @ window_list ?out) (a2, w2)" by (simp add: u)
    then show ?thesis using st fifo_log [of ini "ws @ window_list ?out" a2 w2 "[stop_event (en_stats env) (w_disk w2)]" a2]
      by (simp add: sh flow_def agg_act_def)
  next
    assume "dropped (a1, w1)"
    moreover have "log_grows (a1\<lparr>ag_retryAt := 0\<rparr>, w1) (a2, w2)" using upload_log [OF _ u] ok by simp
    then have "log_grows (a1, w1) (shutdown env s)" by (auto simp: sh log_grows_def)
    ultimately show ?thesis using dropped_grows by blast
  qed
qed

text \<open>Stopping with room left in the batch, and with a platform that accepts: nothing is left in the spool.\<close>

lemma shutdown_drains:
  assumes "flow wd ini c g ws s" and "ready ini (ws @ snd (agg_act c (Stop env) g))" and "quiet (en_add env)" and "steady wd env"
    and "quiet (en_peek env)" and "0 \<le> en_now env" and "\<forall>bs. \<exists>resp. en_send env bs = Inr resp"
    and "int (length (queue_at s)) < maxBatch (fst s)"
  shows "queue_at (shutdown env s) = []"
proof (cases s)
  case (Pair a w)
  let ?g = "fst (agg_Flush g)" and ?out = "snd (agg_Flush g)"
  have a: "ag_agg a = g" "fifo ini ws (a\<lparr>ag_agg := ?g\<rparr>, w)" "sp_OnDrop (ag_Spool (a\<lparr>ag_agg := ?g\<rparr>))"
    using assms(1) Pair by (simp_all add: flow_def fifo_def)
  have "ready ini (ws @ window_list ?out)" using assms(2) by (simp add: agg_act_def)
  from fifo_persist [OF a(2) this assms(3) a(3)] obtain sp w1 where
    p: "persist_opt (en_add env) ?out (a\<lparr>ag_agg := ?g\<rparr>, w) = (a\<lparr>ag_agg := ?g, ag_Spool := sp\<rparr>, w1)"
    "length (disk_queue (w_disk w1)) \<le> length (disk_queue (w_disk w)) + 1" by auto
  let ?a = "a\<lparr>ag_agg := ?g, ag_Spool := sp, ag_retryAt := 0\<rparr>"
  have "disk_ok (w_disk w)" using a(2) by (auto simp: fifo_def named_def)
  then have ok: "disk_ok (w_disk w1)"
    using persist_disk_ok [of w "en_add env" _ "a\<lparr>ag_agg := ?g\<rparr>"] p(1)
    by (cases ?out) (auto simp: persist_opt_def dest: arg_cong [where f = "\<lambda>s. disk_ok (w_disk (snd s))"])
  have mb: "maxBatch ?a = maxBatch a" by (simp add: maxBatch_def)
  have idle: "agg_current (ag_agg ?a) = None" by (simp add: agg_Flush_def split: option.split)
  have "queue_at (fst (upload env (?a, w1))) = []"
  proof (cases "disk_queue (w_disk w1) = []")
    case True
    then have "batch_of (?a, w1) = []" by (simp add: batch_of_def)
    with upload_shape [OF ok, of env ?a] True show ?thesis by auto
  next
    case False
    have "can_upload env (?a, w1)"
      using ok False assms(4,6) quiet_simps [OF assms(5)] by (simp add: can_upload_def steady_def)
    moreover have "length (disk_queue (w_disk w1)) \<le> nat (maxBatch a)"
      using p(2) assms(8) Pair by simp
    moreover obtain resp where "en_send env (map snd (batch_of (?a, w1))) = Inr resp" using assms(7) by blast
    ultimately show ?thesis using upload_batch [OF _ idle, of env w1] by (simp add: mb)
  qed
  moreover have "queue_at (shutdown env s) = queue_at (fst (upload env (?a, w1)))"
    using p(1) by (simp add: Pair shutdown_def case_prod_beta a(1))
  ultimately show ?thesis by simp
qed

section \<open>Runs\<close>

lemma run_act_flow:
  assumes "run_act act r = Some r'" and "state_ok (rn_state r)" and "works wd act" and "flow wd ini c g ws (rn_state r)"
    and "ready ini (ws @ snd (agg_act c act g))"
  shows "flow wd ini c (fst (agg_act c act g)) (ws @ snd (agg_act c act g)) (rn_state r') \<or> dropped (rn_state r')"
  using assms(1)
proof (cases rule: run_act_cases)
  case (pass t)
  with assms(4) show ?thesis by (simp add: agg_act_def)
next
  case cancel
  with assms(4) show ?thesis by (simp add: agg_act_def)
next
  case (enter t)
  obtain a w where s: "rn_state r = (a, w)" by (cases "rn_state r")
  then have "rn_state r' = (a, w\<lparr>w_log := w_log w @ [Started (ag_Settings a)]\<rparr>)"
    using enter(3) by (simp add: enter_loop_def log_event_def)
  then show ?thesis
    using assms(4) s enter(4) fifo_log [of ini ws a w "[Started (ag_Settings a)]" a]
    by (simp add: flow_def agg_act_def neutral_def)
next
  case (sample env)
  with assms(3-5) flow_sample [of wd ini c g ws "rn_state r" env] show ?thesis by (simp add: works_def)
next
  case (upload env s)
  with assms(3,4) flow_upload [of wd ini c g ws "rn_state r" env] show ?thesis by (simp add: works_def agg_act_def)
next
  case (reset env s)
  then have "rn_state r' = s" by (simp split: option.splits)
  with reset(3,5) assms(3,4) flow_upload [of wd ini c g ws "rn_state r" env] show ?thesis by (simp add: works_def agg_act_def)
next
  case (stop env)
  with assms(2-5) flow_shutdown [of wd ini c g ws "rn_state r" env] show ?thesis
    by (simp add: works_def state_ok_disk)
qed

lemma run_act_grows:
  assumes "run_act act r = Some r'" and "state_ok (rn_state r)"
  shows "log_grows (rn_state r) (rn_state r')"
  using assms(1)
proof (cases rule: run_act_cases)
  case (enter t)
  then show ?thesis by (auto simp: enter_loop_def log_grows_def case_prod_beta)
next
  case (sample env)
  then show ?thesis by (simp add: sample_grows)
next
  case (upload env s)
  then show ?thesis using upload_log [OF state_ok_disk [OF assms(2)] upload(3)] by simp
next
  case (reset env s)
  then have "rn_state r' = s" by (simp split: option.splits)
  then show ?thesis using upload_log [OF state_ok_disk [OF assms(2)] reset(3)] by simp
next
  case (stop env)
  then show ?thesis by (simp add: shutdown_grows state_ok_disk [OF assms(2)])
qed (simp_all add: log_grows_def)

lemma run_act_active: "run_act act r = Some r' \<Longrightarrow> rn_phase r \<noteq> Returned e"
  by (auto simp: run_act_def)

lemma run_flow:
  assumes "0 < Interval (ag_Settings a)" and "0 < Flush (ag_Settings a)" and "disk_ok (w_disk w)"
    and "run_reach (Run_start env now (a, w)) r" and "run_acts acts r = Some r'" and "\<forall>act\<in>set acts. works wd act"
    and "flow wd ini c g ws (rn_state r) \<and> ready ini (ws @ spooled c g acts) \<or> dropped (rn_state r)"
  shows "flow wd ini c (agg_after c g acts) (ws @ spooled c g acts) (rn_state r') \<or> dropped (rn_state r')"
  using assms(4-7)
proof (induction acts arbitrary: r g ws)
  case Nil
  then show ?case by auto
next
  case (Cons act acts)
  from Cons.prems(2) obtain r1 where r1: "run_act act r = Some r1" "run_acts acts r1 = Some r'"
    by (auto split: option.splits)
  have reach: "run_reach (Run_start env now (a, w)) r1" using Cons.prems(1) r1(1) by (rule run_reach.run_step)
  have ok: "state_ok (rn_state r)"
    using run_state_ok [OF assms(1-3) Cons.prems(1)] run_act_active [OF r1(1)] by blast
  let ?g = "fst (agg_act c act g)" and ?ws = "ws @ snd (agg_act c act g)"
  have "flow wd ini c ?g ?ws (rn_state r1) \<and> ready ini (?ws @ spooled c ?g acts) \<or> dropped (rn_state r1)"
    using Cons.prems(4)
  proof
    assume f: "flow wd ini c g ws (rn_state r) \<and> ready ini (ws @ spooled c g (act # acts))"
    then have i: "ready ini (?ws @ spooled c ?g acts)" by simp
    then have "ready ini ?ws" by (rule ready_append)
    with run_act_flow [OF r1(1) ok _ _ this] f i Cons.prems(3) show ?thesis by auto
  next
    assume "dropped (rn_state r)"
    then show ?thesis using dropped_grows run_act_grows [OF r1(1) ok] by blast
  qed
  from Cons.IH [OF reach r1(2) _ this] Cons.prems(3) show ?case by simp
qed

section \<open>The windows of the samples\<close>

definition taken :: "Collector \<Rightarrow> action list \<Rightarrow> Sample list" where
  "taken c acts = samples_of c (List.map_filter
     (\<lambda>act. case act of SampleTick env \<Rightarrow> Some (en_os env) | _ \<Rightarrow> None) acts)"

lemma taken_simps [simp]:
  "taken c [] = []"
  "taken c (act # acts) = (case act of
     SampleTick env \<Rightarrow> (case Collect (en_os env) c of Inl e \<Rightarrow> taken c acts | Inr s \<Rightarrow> s # taken c acts)
   | _ \<Rightarrow> taken c acts)"
  by (auto simp: taken_def map_filter_simps split: action.split sum.split)

definition is_stop :: "action \<Rightarrow> bool" where
  "is_stop act \<longleftrightarrow> (case act of Stop _ \<Rightarrow> True | _ \<Rightarrow> False)"

text \<open>What was given to the spool are the windows of the samples, all but the one in progress.\<close>

lemma spooled_output:
  "\<forall>act\<in>set (butlast acts). \<not> is_stop act \<Longrightarrow>
     \<exists>rest. agg_output g (taken c acts) = spooled c g acts @ rest \<and> length rest \<le> 1
       \<and> (acts \<noteq> [] \<and> is_stop (last acts) \<longrightarrow> rest = [])"
proof (induction acts arbitrary: g)
  case Nil
  then show ?case by (simp add: agg_output_Nil split: option.split)
next
  case (Cons act acts)
  show ?case
  proof (cases "is_stop act")
    case True
    then have "acts = []" using Cons.prems by (cases acts) auto
    with True show ?thesis by (cases act) (simp_all add: is_stop_def agg_act_def agg_output_Nil)
  next
    case False
    then have l: "act # acts \<noteq> [] \<and> is_stop (last (act # acts)) \<longleftrightarrow> acts \<noteq> [] \<and> is_stop (last acts)" by auto
    have "\<forall>act\<in>set (butlast acts). \<not> is_stop act" using Cons.prems by (cases acts) auto
    from Cons.IH [OF this, of "fst (agg_act c act g)"] obtain rest where
      "agg_output (fst (agg_act c act g)) (taken c acts) = spooled c (fst (agg_act c act g)) acts @ rest"
      "length rest \<le> 1" "acts \<noteq> [] \<and> is_stop (last acts) \<longrightarrow> rest = []" by blast
    moreover have "agg_output g (taken c (act # acts))
        = snd (agg_act c act g) @ agg_output (fst (agg_act c act g)) (taken c acts)"
      using False by (cases act)
        (auto simp: agg_act_def is_stop_def agg_output_Cons case_prod_beta split: sum.split option.split)
    ultimately show ?thesis unfolding l by (intro exI [of _ rest]) simp
  qed
qed

lemma run_act_returns:
  assumes "run_act act r = Some r'"
  shows "is_stop act \<longleftrightarrow> rn_phase r' = Returned None"
  using assms
proof (cases rule: run_act_cases)
  case (enter t)
  then show ?thesis by (simp add: is_stop_def enter_loop_def case_prod_beta)
next
  case (reset env s)
  then show ?thesis by (simp add: is_stop_def split: option.splits)
qed (use run_act_active [OF assms] in \<open>simp_all add: is_stop_def\<close>)

lemma run_acts_stop:
  "run_acts acts r = Some r' \<Longrightarrow> (\<forall>act\<in>set (butlast acts). \<not> is_stop act)
     \<and> (rn_phase r \<noteq> Returned None \<and> rn_phase r' = Returned None \<longrightarrow> acts \<noteq> [] \<and> is_stop (last acts))"
proof (induction acts arbitrary: r)
  case (Cons act acts)
  then obtain r1 where r1: "run_act act r = Some r1" "run_acts acts r1 = Some r'" by (auto split: option.splits)
  show ?case
  proof (cases acts)
    case Nil
    with r1 show ?thesis using run_act_returns [OF r1(1)] by simp
  next
    case (Cons x xs)
    with r1(2) obtain r2 where "run_act x r1 = Some r2" by (auto split: option.splits)
    then have "rn_phase r1 \<noteq> Returned None" by (rule run_act_active)
    with Cons.IH [OF r1(2)] run_act_returns [OF r1(1)] Cons show ?thesis by simp
  qed
qed simp

lemma Run_start_flow:
  assumes "w_disk w = Some d" and "dir_ok d" and "ini = (dom (map_of d), map snd (queue_of d))"
    and "w_log w = []" and "sp_seq (ag_Spool a) = 0" and "sp_OnDrop (ag_Spool a)"
    and "run_act act (Run_start env now (a, w)) = Some r'"
  shows "flow (Window (ag_Settings a)) ini (ag_Collector a) (new_aggregator (Window (ag_Settings a))) [] (rn_state (Run_start env now (a, w)))"
proof -
  let ?a = "a\<lparr>ag_agg := new_aggregator (Window (ag_Settings a))\<rparr>"
  have f: "fifo ini [] (?a, w)" using assms(1-5) by (auto simp: fifo_def named_def answered_def)
  have "rn_phase (Run_start env now (a, w)) \<noteq> Returned e" "rn_phase (Run_start env now (a, w)) \<noteq> Panicked" for e
    using assms(7) by (auto simp: run_act_def)
  then have "rn_state (Run_start env now (a, w)) = (?a, w)
      \<or> rn_state (Run_start env now (a, w)) = (?a, w\<lparr>w_log := w_log w @ [Started (ag_Settings a)]\<rparr>)"
    by (auto simp: Run_start_def enter_loop_def log_event_def Let_def split: sum.splits option.splits if_splits)
  then show ?thesis
    using f fifo_log [OF f, of "[Started (ag_Settings a)]" ?a] assms(6) by (auto simp: flow_def neutral_def)
qed

text \<open>A directory that earlier processes left: nothing but windows that started before \<open>t\<close>.\<close>

definition left_behind :: "time \<Rightarrow> directory \<Rightarrow> bool" where
  "left_behind t d \<longleftrightarrow> dir_ok d \<and> (\<forall>n\<in>dom (map_of d). \<exists>k b. n = entry_name k b \<and> uint k < 1000000
     \<and> unix_epoch \<le> b_Start b \<and> b_Start b < t)"

lemma left_behind_before:
  assumes "left_behind t d" and "t \<le> b_Start b" and "b_Start b < unix_epoch + 9223372036854775808"
  shows "before (dom (map_of d)) b"
  unfolding before_def
proof
  fix n assume "n \<in> dom (map_of d)"
  then obtain k c where c: "n = entry_name k c" "uint k < 1000000" "unix_epoch \<le> b_Start c" "b_Start c < t"
    using assms(1) unfolding left_behind_def by blast
  have "UnixNano (b_Start c) = b_Start c - unix_epoch" "UnixNano (b_Start b) = b_Start b - unix_epoch"
    using c(3,4) assms(2,3) by (simp_all add: UnixNano_in_range)
  with c assms(2) show "\<exists>k c. n = entry_name k c \<and> uint k < 1000000 \<and> 0 \<le> UnixNano (b_Start c)
      \<and> UnixNano (b_Start c) < UnixNano (b_Start b)"
    by (intro exI [of _ k] exI [of _ c]) simp
qed

section \<open>A run from its start\<close>

lemma run_acts_append:
  "run_acts (us @ vs) r = (case run_acts us r of None \<Rightarrow> None | Some r' \<Rightarrow> run_acts vs r')"
  by (induction us arbitrary: r) (auto split: option.split)

text \<open>
  In the middle of a run, after the actions \<open>us\<close>, the windows given to the spool are in the queue of the run,
  and those of the whole run can be stored one after the other.
\<close>

lemma run_flows:
  assumes "run_acts us (Run_start env now (a, w)) = Some r1" and "run_acts vs r1 = Some r"
    and "\<forall>act\<in>set (us @ vs). works (Window (ag_Settings a)) act"
    and "0 < Interval (ag_Settings a)" and "0 < Flush (ag_Settings a)"
    and "w_disk w = Some d" and "left_behind t d" and "unix_epoch \<le> t"
    and "w_log w = []" and "sp_seq (ag_Spool a) = 0" and "sp_OnDrop (ag_Spool a)"
    and "taken (ag_Collector a) (us @ vs) = s # ss" and "sorted (map At ss)"
    and "w' = agg_window (new_aggregator (Window (ag_Settings a)))"
    and "int (length ss) < 9223372036854775807" and "length (group w' [] (intervals s ss)) < 1000000"
    and "\<forall>x\<in>set ss. sample_ok w' x \<and> t \<le> Truncate (At x) w'
       \<and> Truncate (At x) w' < unix_epoch + 9223372036854775808"
    and "c = ag_Collector a" and "g = new_aggregator (Window (ag_Settings a))" and "ini = (dom (map_of d), map snd (queue_of d))"
  shows "flow (Window (ag_Settings a)) ini c (agg_after c g us) (spooled c g us) (rn_state r1) \<or> dropped (rn_state r1)"
    and "ready ini (spooled c g (us @ vs))"
    and "\<exists>rest. map (bucket_of w') (group w' [] (intervals s ss)) = spooled c g (us @ vs) @ rest \<and> length rest \<le> 1
       \<and> (rn_phase r = Returned None \<longrightarrow> rest = [])"
proof -
  let ?r0 = "Run_start env now (a, w)" and ?ws = "agg_output g (s # ss)"
  have all: "run_acts (us @ vs) ?r0 = Some r" using assms(1,2) by (simp add: run_acts_append)
  have d: "dir_ok d" using assms(7) by (simp add: left_behind_def)
  note stops = run_acts_stop [OF all]
  from stops obtain rest where out: "?ws = spooled c g (us @ vs) @ rest" "length rest \<le> 1"
    "us @ vs \<noteq> [] \<and> is_stop (last (us @ vs)) \<longrightarrow> rest = []"
    using spooled_output [of "us @ vs" g c] unfolding assms(18) assms(12) by blast
  have "rn_phase ?r0 \<noteq> Returned None"
    by (auto simp: Run_start_def enter_loop_def Let_def split: sum.splits option.splits if_splits)
  then have fin: "rn_phase r = Returned None \<longrightarrow> rest = []" using out(3) stops by blast
  have len: "int (length ss) < 9223372036854775808" using assms(15) by simp
  show "\<exists>rest. map (bucket_of w') (group w' [] (intervals s ss)) = spooled c g (us @ vs) @ rest \<and> length rest \<le> 1
       \<and> (rn_phase r = Returned None \<longrightarrow> rest = [])"
    using agg_output_groups [OF len, of "Window (ag_Settings a)" s] out(1,2) fin unfolding assms(19) assms(14)
    by (intro exI [of _ rest]) simp
  have "in_order ?ws" unfolding assms(19)
    using assms(8,17) by (intro windows_in_order [OF refl assms(14-16,13)]) fastforce
  moreover have "before (dom (map_of d)) b" if b: "b \<in> set ?ws" for b
    using windows_of_samples(2) [OF len assms(14,13) b [unfolded assms(19)]] assms(17) left_behind_before [OF assms(7), of b] by auto
  ultimately have "ready ini (spooled c g (us @ vs) @ rest)" unfolding out(1) [symmetric] by (simp add: ready_def assms(20))
  then show io: "ready ini (spooled c g (us @ vs))" by (rule ready_append)
  then have io': "ready ini ([] @ spooled c g us)" using ready_append by (simp add: spooled_append)
  obtain act acts' where "us @ vs = act # acts'" using assms(12) by (cases "us @ vs") auto
  then obtain r2 where "run_act act ?r0 = Some r2" using all by (auto split: option.splits)
  from Run_start_flow [OF assms(6) d assms(20) assms(9-11) this] io'
  have f: "flow (Window (ag_Settings a)) ini c g [] (rn_state ?r0) \<and> ready ini ([] @ spooled c g us) \<or> dropped (rn_state ?r0)"
    unfolding assms(18,19) by blast
  have ok: "disk_ok (w_disk w)" using assms(6) d by simp
  have wk: "\<forall>act\<in>set us. works (Window (ag_Settings a)) act" using assms(3) by simp
  from run_flow [OF assms(4,5) ok run_reach.run_refl assms(1) wk f]
  show "flow (Window (ag_Settings a)) ini c (agg_after c g us) (spooled c g us) (rn_state r1) \<or> dropped (rn_state r1)" by simp
qed

end
