(* ===== verification/Totals.thy ===== *)
theory Totals
  imports Collect
begin

text \<open>
  The totals over interfaces and disks (\<open>parseNet\<close> and \<open>parseDiskIO\<close> of \<open>internal/collect/proc.go\<close>).
  The locale \<open>line_totals\<close> says what the loops of both do with the lines of a table; it is interpreted on
  the two models.  The properties: the totals are the sums over the physical interfaces and over the whole
  disks, partitions and virtual devices apart; and a line too long for the scanner silently cuts them short.
\<close>

section \<open>Tables of lines\<close>

text \<open>
  What the two readers of totals have in common: the lines of a table add to the counters, other
  lines add nothing, and a line too long for the scanner ends the reading.
\<close>

lemma scan_lines_long:
  assumes "newline \<notin> set l" and "65536 \<le> int (length l)"
  shows "scan_lines (l @ rest) = []"
proof -
  have "takeWhile (\<lambda>c. c \<noteq> newline) (l @ rest) = l @ takeWhile (\<lambda>c. c \<noteq> newline) rest"
    using assms(1) by (intro takeWhile_append2) auto
  then show ?thesis using assms(2) by (subst scan_lines.simps) (simp add: Let_def)
qed

lemma scan_lines_prefix: "\<forall>l\<in>set ls. line_ok l \<Longrightarrow> scan_lines (text_of ls @ rest) = ls @ scan_lines rest"
proof (induction ls)
  case (Cons l ls)
  then show ?case using scan_lines_line [of l "text_of ls @ rest"] by (simp add: text_of_def)
qed (simp add: text_of_def)

locale line_totals =
  fixes lines :: "string list \<Rightarrow> 'c \<Rightarrow> collect_error + 'c" and line :: "'r \<Rightarrow> string"
    and row :: "'r \<Rightarrow> bool" and add :: "'r \<Rightarrow> 'c \<Rightarrow> 'c" and skipped :: "string \<Rightarrow> bool"
  assumes lines_Nil: "lines [] c = Inr c"
    and lines_row: "row r \<Longrightarrow> lines (line r # ls) c = lines ls (add r c)"
    and lines_skipped: "skipped l \<Longrightarrow> lines (l # ls) c = lines ls c"
    and row_fits: "row r \<Longrightarrow> line_ok (line r)"
    and skipped_fits: "skipped l \<Longrightarrow> line_ok l"
begin

lemma lines_table:
  "\<forall>h\<in>set hs. skipped h \<Longrightarrow> \<forall>r\<in>set rows. row r \<Longrightarrow> lines (hs @ map line rows) c = Inr (fold add rows c)"
proof (induction hs)
  case Nil
  then show ?case by (induction rows arbitrary: c) (simp_all add: lines_Nil lines_row)
next
  case (Cons h hs)
  then show ?case by (simp add: lines_skipped)
qed

lemma table_fits: "\<forall>h\<in>set hs. skipped h \<Longrightarrow> \<forall>r\<in>set rows. row r \<Longrightarrow> \<forall>l\<in>set (hs @ map line rows). line_ok l"
  using row_fits skipped_fits by auto

lemma scan_table:
  assumes "\<forall>h\<in>set hs. skipped h" and "\<forall>r\<in>set rows. row r"
  shows "lines (scan_lines (text_of (hs @ map line rows))) c = Inr (fold add rows c)"
  using scan_lines_text [OF table_fits [OF assms]] lines_table [OF assms] by simp

lemma scan_table_long:
  assumes "\<forall>h\<in>set hs. skipped h" and "\<forall>r\<in>set rows. row r"
    and "newline \<notin> set l" and "65536 \<le> int (length l)"
  shows "lines (scan_lines (text_of (hs @ map line rows) @ l @ rest)) c = Inr (fold add rows c)"
  using scan_lines_prefix [OF table_fits [OF assms(1,2)], of "l @ rest"] scan_lines_long [OF assms(3,4)]
    lines_table [OF assms(1,2)] by simp

end

section \<open>Partitions\<close>

text \<open>The kernel's name of the k-th partition of a disk.\<close>

definition partition_name :: "string \<Rightarrow> int \<Rightarrow> string" where
  "partition_name d k = (if d \<noteq> [] \<and> is_digit (last d) then d @ ''p'' @ dec k else d @ dec k)"

lemma lower_not_digit: "is_lower c \<Longrightarrow> \<not> is_digit c"
  by (auto simp: is_lower_def is_digit_def)

lemma dec_last_digit: "0 \<le> k \<Longrightarrow> is_digit (last (dec k))"
  using dec_digits [of k] by (simp add: list_all_iff)

lemma Cut_append: "Cut x s = Some (a, b) \<Longrightarrow> Cut x (s @ t) = Some (a, b @ t)"
  by (induction s arbitrary: a) (auto split: if_splits)

lemma Cut_last: "Cut x s = Some (a, b) \<Longrightarrow> b \<noteq> [] \<Longrightarrow> s \<noteq> [] \<and> last s = last b"
  by (induction s arbitrary: a) (auto split: if_splits)

lemma HasPrefix_hd: "HasPrefix s (c # p) \<Longrightarrow> s \<noteq> [] \<and> hd s = c"
  by (cases s) (auto simp: HasPrefix_def)

lemma letters_last: "s \<noteq> [] \<Longrightarrow> is_digit (last s) \<Longrightarrow> \<not> letters (drop n s)"
  by (metis last_drop last_in_set letters_def list_all_iff lower_not_digit drop_eq_Nil not_le)

lemma letters_last_lower: "letters (drop n s) \<Longrightarrow> \<not> is_digit (last s)"
  by (metis drop_Nil letters_def letters_last)

lemma digits_append: "digits (a @ b) \<Longrightarrow> list_all is_digit b"
  by (auto simp: digits_def)

lemma not_digit_p: "\<not> is_digit (CHR ''p'')"
  by (simp add: is_digit_def)

lemma wholeDisk_digit_end:
  assumes "s \<noteq> []" and "is_digit (last s)"
  shows "wholeDisk s \<longleftrightarrow>
     HasPrefix s ''nvme'' \<and>
       (case Cut (CHR ''n'') (drop 4 s) of None \<Rightarrow> False | Some (a, b) \<Rightarrow> digits a \<and> digits b)
   \<or> HasPrefix s ''mmcblk'' \<and> digits (drop 6 s)"
  using letters_last [OF assms] by (simp add: wholeDisk_def)

lemma HasPrefix_length: "HasPrefix s p \<Longrightarrow> length p \<le> length s"
  by (metis HasPrefix_def length_take min.cobounded1)

lemma HasPrefix_append: "HasPrefix s p \<Longrightarrow> HasPrefix (s @ t) p"
  using HasPrefix_length [of s p] by (simp add: HasPrefix_def)

lemma partition_of_letters:
  assumes "HasPrefix d (c # p)" and "c \<noteq> CHR ''n''" and "c \<noteq> CHR ''m''" and "0 \<le> k"
  shows "\<not> wholeDisk (d @ dec k)"
proof -
  have h: "d \<noteq> []" "hd (d @ dec k) = c" using HasPrefix_hd [OF assms(1)] by auto
  have "\<not> HasPrefix (d @ dec k) ''nvme''" "\<not> HasPrefix (d @ dec k) ''mmcblk''"
    using h(2) assms(2,3) HasPrefix_hd [of "d @ dec k"] by fastforce+
  then show ?thesis using dec_last_digit [OF assms(4)] h(1) by (simp add: wholeDisk_digit_end)
qed

text \<open>
  No partition of a whole disk is itself counted as a whole disk, for every family of disks
  the regular expression names and every partition number, so no I/O is counted twice.
\<close>

lemma partition_not_whole:
  assumes "wholeDisk d" and "0 \<le> k"
  shows "\<not> wholeDisk (partition_name d k)"
proof -
  have last: "is_digit (last (d @ ''p'' @ dec k))" using dec_last_digit [OF assms(2)] by simp
  from assms(1) consider
      (letters) c p n where "HasPrefix d (c # p)" "c \<noteq> CHR ''n''" "c \<noteq> CHR ''m''" "letters (drop n d)"
    | (nvme) a b where "HasPrefix d ''nvme''" "Cut (CHR ''n'') (drop 4 d) = Some (a, b)" "digits b"
    | (mmc) "HasPrefix d ''mmcblk''" "digits (drop 6 d)"
    unfolding wholeDisk_def by (force split: option.splits)
  then show ?thesis
  proof cases
    case letters
    from letters(4) have "\<not> is_digit (last d)" by (rule letters_last_lower)
    then show ?thesis
      using partition_of_letters [OF letters(1-3) assms(2)] by (simp add: partition_name_def)
  next
    case nvme
    have len: "4 \<le> length d" using HasPrefix_length [OF nvme(1)] by simp
    have "drop 4 d \<noteq> []" "last (drop 4 d) = last b"
      using nvme(2,3) by (auto simp: Cut_last digits_def)
    then have "is_digit (last d)" using nvme(3) by (simp add: digits_def list_all_iff last_drop)
    moreover have "Cut (CHR ''n'') (drop 4 (d @ ''p'' @ dec k)) = Some (a, b @ ''p'' @ dec k)"
      using Cut_append [OF nvme(2)] len by simp
    moreover have "\<not> HasPrefix (d @ ''p'' @ dec k) ''mmcblk''"
      using HasPrefix_hd [OF nvme(1)] HasPrefix_hd [of "d @ ''p'' @ dec k" "CHR ''m''"] by auto
    ultimately show ?thesis
      using last not_digit_p HasPrefix_hd [OF nvme(1)]
      by (auto simp: partition_name_def wholeDisk_digit_end dest: digits_append)
  next
    case mmc
    have len: "6 \<le> length d" using HasPrefix_length [OF mmc(1)] by simp
    have "is_digit (last d)"
      using mmc(2) by (metis digits_def last_drop last_in_set length_greater_0_conv list_all_iff drop_eq_Nil not_le)
    moreover have "\<not> HasPrefix (d @ ''p'' @ dec k) ''nvme''"
      using HasPrefix_hd [OF mmc(1)] HasPrefix_hd [of "d @ ''p'' @ dec k" "CHR ''n''"] by auto
    ultimately show ?thesis
      using last not_digit_p len HasPrefix_hd [OF mmc(1)]
      by (auto simp: partition_name_def wholeDisk_digit_end dest: digits_append)
  qed
qed

section \<open>Network totals\<close>

text \<open>
  A line of \<open>/proc/net/dev\<close>: the name, indented, a colon, and the columns, each after some blanks.  The
  kernel aligns the names and the columns to the right, with a blank between two columns however wide
  they are; how many blanks there are otherwise depends on its version and on the values.
\<close>

record net_row =
  nr_indent :: nat
  nr_name :: string
  nr_cols :: "(nat \<times> u64) list"

definition columns_text :: "(nat \<times> u64) list \<Rightarrow> string" where
  "columns_text cols = concat (map (\<lambda>(k, w). replicate k (CHR '' '') @ dec (uint w)) cols)"

definition iface_line :: "net_row \<Rightarrow> string" where
  "iface_line r = replicate (nr_indent r) (CHR '' '') @ nr_name r @ '':'' @ columns_text (nr_cols r)"

definition row_ok :: "net_row \<Rightarrow> bool" where
  "row_ok r \<longleftrightarrow> word_ok (nr_name r) \<and> CHR '':'' \<notin> set (nr_name r) \<and> length (nr_cols r) = 16
     \<and> (\<forall>c\<in>set (tl (nr_cols r)). 0 < fst c) \<and> line_ok (iface_line r)"

definition nr_val :: "net_row \<Rightarrow> nat \<Rightarrow> u64" where
  "nr_val r i = snd (nr_cols r ! i)"

definition net_sum :: "net_row list \<Rightarrow> nat \<Rightarrow> u64" where
  "net_sum rows i = sum_list (map (\<lambda>r. nr_val r i) (filter (\<lambda>r. \<not> virtualIface (nr_name r)) rows))"

lemma Fields_blanks: "Fields (replicate k (CHR '' '') @ s) = Fields s"
  by (induction k) (simp_all add: Fields_space)

lemma columns_text_simps [simp]:
  "columns_text [] = []" "columns_text ((k, w) # cols) = replicate k (CHR '' '') @ dec (uint w) @ columns_text cols"
  by (simp_all add: columns_text_def)

lemma Fields_columns:
  "\<forall>c\<in>set (tl cols). 0 < fst c \<Longrightarrow> Fields (columns_text cols) = map (\<lambda>c. dec (uint (snd c))) cols"
proof (induction cols)
  case Nil
  then show ?case using Fields_join [of "[]"] by (simp add: join_words_def)
next
  case (Cons c cols)
  obtain k w where c: "c = (k, w)" by (cases c)
  have ok: "word_ok (dec (uint w))" by (simp add: word_ok_dec)
  show ?case
  proof (cases cols)
    case Nil
    then show ?thesis using c Fields_word_end [OF ok] by (simp add: Fields_blanks)
  next
    case (Cons b bs)
    obtain l v where b: "b = (l, v)" by (cases b)
    with Cons Cons.prems obtain l' where "l = Suc l'" by (auto simp: gr0_conv_Suc)
    then have t: "columns_text cols = CHR '' '' # replicate l' (CHR '' '') @ dec (uint v) @ columns_text bs"
      using b Cons by simp
    have "\<forall>c\<in>set (tl cols). 0 < fst c" using Cons.prems Cons by simp
    from Cons.IH [OF this] Fields_word [OF ok space_is_space] show ?thesis
      by (simp add: c Fields_blanks t)
  qed
qed

lemma TrimSpace_blanks: "word_ok w \<Longrightarrow> TrimSpace (replicate k (CHR '' '') @ w) = w"
proof -
  assume w: "word_ok w"
  then have "dropWhile is_space w = w" "dropWhile is_space (rev w) = rev w"
    by (cases w, auto simp: word_ok_def) (cases w rule: rev_cases, auto)
  moreover have "dropWhile is_space (replicate k (CHR '' '') @ w) = dropWhile is_space w"
    by (induction k) simp_all
  ultimately show ?thesis by (simp add: TrimSpace_def)
qed

definition add_net :: "NetCounters \<Rightarrow> (nat \<Rightarrow> u64) \<Rightarrow> NetCounters" where
  "add_net n f = \<lparr>net_RxBytes = net_RxBytes n + f 0, net_TxBytes = net_TxBytes n + f 8,
     net_RxPackets = net_RxPackets n + f 1, net_TxPackets = net_TxPackets n + f 9,
     net_RxErrors = net_RxErrors n + f 2, net_TxErrors = net_TxErrors n + f 10\<rparr>"

lemma net_columns_row:
  assumes "length (nr_cols r) = 16"
  shows "net_columns (map (\<lambda>c. dec (uint (snd c))) (nr_cols r)) net_table n = Inr (add_net n (nr_val r))"
  using assms by (cases n) (simp add: net_table_def ParseUint_dec add_net_def nr_val_def)

lemma net_lines_row:
  assumes "row_ok r"
  shows "net_lines (iface_line r # ls) n = net_lines ls (if virtualIface (nr_name r) then n else add_net n (nr_val r))"
proof -
  have "Cut (CHR '':'') (iface_line r) = Some (replicate (nr_indent r) (CHR '' '') @ nr_name r, columns_text (nr_cols r))"
    unfolding iface_line_def
    using assms Cut_word [of "CHR '':''" "replicate (nr_indent r) (CHR '' '') @ nr_name r"] by (simp add: row_ok_def)
  moreover have "Fields (columns_text (nr_cols r)) = map (\<lambda>c. dec (uint (snd c))) (nr_cols r)"
    using assms by (intro Fields_columns) (simp add: row_ok_def)
  moreover have "TrimSpace (replicate (nr_indent r) (CHR '' '') @ nr_name r) = nr_name r"
    using assms by (intro TrimSpace_blanks) (simp add: row_ok_def)
  ultimately show ?thesis
    using assms net_columns_row [of r n] by (simp add: Let_def row_ok_def)
qed

lemma add_net_add: "add_net (add_net n f) g = add_net n (\<lambda>i. f i + g i)"
  by (simp add: add_net_def add.assoc)

lemma net_sum_Cons: "net_sum (r # rows) =
    (if virtualIface (nr_name r) then net_sum rows else (\<lambda>i. nr_val r i + net_sum rows i))"
  by (simp add: net_sum_def fun_eq_iff)

lemma fold_add_net: "fold (\<lambda>r n. if virtualIface (nr_name r) then n else add_net n (nr_val r)) rows n = add_net n (net_sum rows)"
proof (induction rows arbitrary: n)
  case Nil
  then show ?case by (cases n) (simp add: add_net_def net_sum_def)
next
  case (Cons r rows)
  then show ?case by (simp add: net_sum_Cons add_net_add)
qed

interpretation net_t: line_totals net_lines iface_line row_ok
    "\<lambda>r n. if virtualIface (nr_name r) then n else add_net n (nr_val r)" "\<lambda>h. line_ok h \<and> CHR '':'' \<notin> set h"
  by unfold_locales (simp, rule net_lines_row, assumption, simp add: Cut_None, simp add: row_ok_def, simp)

lemma parseNet_table:
  assumes "\<forall>h\<in>set hs. line_ok h \<and> CHR '':'' \<notin> set h" and "\<forall>r\<in>set rows. row_ok r"
    and "os_ReadFile env (col_root c) ''net/dev'' =
      Some (text_of (hs @ map iface_line rows))"
  shows "parseNet env c = Inr \<lparr>net_RxBytes = net_sum rows 0, net_TxBytes = net_sum rows 8,
     net_RxPackets = net_sum rows 1, net_TxPackets = net_sum rows 9,
     net_RxErrors = net_sum rows 2, net_TxErrors = net_sum rows 10\<rparr>"
  using net_t.scan_table [OF assms(1,2), of zero_net] assms(3)
  by (simp add: parseNet_def readFile_def fold_add_net) (simp add: add_net_def zero_net_def)

text \<open>
  From the kernel's table of interfaces, under any header lines, \<open>parseNet\<close> computes the sums
  of the byte, packet and error columns over the physical interfaces only: virtual ones add
  nothing, and every physical one is counted once.
\<close>

theorem parseNet_sums:
  assumes "\<forall>h\<in>set hs. line_ok h \<and> CHR '':'' \<notin> set h" and "\<forall>r\<in>set rows. row_ok r"
    and "os_ReadFile env (col_root c) ''net/dev'' =
      Some (text_of (hs @ map iface_line rows))"
  shows "parseNet env c = Inr \<lparr>net_RxBytes = net_sum rows 0, net_TxBytes = net_sum rows 8,
     net_RxPackets = net_sum rows 1, net_TxPackets = net_sum rows 9,
     net_RxErrors = net_sum rows 2, net_TxErrors = net_sum rows 10\<rparr>"
  using assms by (rule parseNet_table)

definition example_nets :: "net_row list" where
  "example_nets =
     [\<lparr>nr_indent = 4, nr_name = ''lo'', nr_cols = replicate 16 (4, 9)\<rparr>,
      \<lparr>nr_indent = 2, nr_name = ''eth0'', nr_cols = (0, 3) # replicate 15 (7, 3)\<rparr>]"

lemma example_nets_ok: "\<forall>r\<in>set example_nets. row_ok r"
  by code_simp

theorem parseNet_sums_witness:
  "parseNet (one_file ''net/dev'' (text_of (map iface_line example_nets))) plain_collector
   = Inr \<lparr>net_RxBytes = 3, net_TxBytes = 3, net_RxPackets = 3, net_TxPackets = 3,
       net_RxErrors = 3, net_TxErrors = 3\<rparr>"
proof -
  have v: "virtualIface ''lo''" "\<not> virtualIface ''eth0''" by code_simp+
  show ?thesis
    using parseNet_sums [of "[]" example_nets "one_file ''net/dev'' (text_of (map iface_line example_nets))" plain_collector]
      example_nets_ok v
    by (simp add: one_file_def plain_collector_def net_sum_def nr_val_def example_nets_def)
qed

section \<open>Disk totals\<close>

text \<open>
  A line of \<open>/proc/diskstats\<close> as the kernel prints it: the numbers of the device right-aligned, its
  name, and its counters.
\<close>

record disk_row =
  dk_major :: int
  dk_minor :: int
  dk_name :: string
  dk_vals :: "u64 list"

definition pad_left :: "nat \<Rightarrow> string \<Rightarrow> string" where
  "pad_left n w = replicate (n - length w) (CHR '' '') @ w"

definition disk_line :: "disk_row \<Rightarrow> string" where
  "disk_line r = pad_left 4 (dec (dk_major r)) @ '' '' @ pad_left 7 (dec (dk_minor r))
     @ join_words (dk_name r # map (\<lambda>w. dec (uint w)) (dk_vals r))"

definition disk_row_ok :: "disk_row \<Rightarrow> bool" where
  "disk_row_ok r \<longleftrightarrow> 0 \<le> dk_major r \<and> 0 \<le> dk_minor r \<and> word_ok (dk_name r) \<and> 7 \<le> length (dk_vals r)
     \<and> line_ok (disk_line r)"

lemma Fields_disk_line:
  assumes "disk_row_ok r"
  shows "Fields (disk_line r) = dec (dk_major r) # dec (dk_minor r) # dk_name r # map (\<lambda>w. dec (uint w)) (dk_vals r)"
proof -
  have w: "word_ok (dec (dk_major r))" "word_ok (dec (dk_minor r))"
    "\<forall>v\<in>set (dk_name r # map (\<lambda>w. dec (uint w)) (dk_vals r)). word_ok v"
    using assms by (auto simp: disk_row_ok_def word_ok_dec)
  have "Fields (disk_line r) = dec (dk_major r)
      # Fields (pad_left 7 (dec (dk_minor r)) @ join_words (dk_name r # map (\<lambda>w. dec (uint w)) (dk_vals r)))"
    using Fields_word [OF w(1) space_is_space] by (simp add: disk_line_def pad_left_def Fields_blanks Fields_space)
  also have "Fields (pad_left 7 (dec (dk_minor r)) @ join_words (dk_name r # map (\<lambda>w. dec (uint w)) (dk_vals r)))
      = dec (dk_minor r) # dk_name r # map (\<lambda>w. dec (uint w)) (dk_vals r)"
    using Fields_head [OF w(2,3)] by (simp add: pad_left_def Fields_blanks)
  finally show ?thesis .
qed

definition add_disk :: "DiskCounters \<Rightarrow> (nat \<Rightarrow> u64) \<Rightarrow> DiskCounters" where
  "add_disk d f = \<lparr>disk_ReadBytes = disk_ReadBytes d + f 2 * 512, disk_WriteBytes = disk_WriteBytes d + f 6 * 512,
     disk_ReadOps = disk_ReadOps d + f 0, disk_WriteOps = disk_WriteOps d + f 4\<rparr>"

lemma add_disk_add: "add_disk (add_disk d f) g = add_disk d (\<lambda>i. f i + g i)"
  by (simp add: add_disk_def algebra_simps)

lemma disk_columns_row:
  assumes "7 \<le> length vals"
  shows "disk_columns (a # b # n # map (\<lambda>w. dec (uint w)) vals) disk_table d = Inr (add_disk d (\<lambda>i. vals ! i))"
proof -
  obtain v0 v1 v2 v3 v4 v5 v6 vs where "vals = v0 # v1 # v2 # v3 # v4 # v5 # v6 # vs"
    using assms by (auto simp: numeral_eq_Suc Suc_le_length_iff)
  then show ?thesis
    by (cases d) (simp add: disk_table_def ParseUint_dec add_disk_def sectorSize_def)
qed

lemma disk_lines_row:
  assumes "disk_row_ok r"
  shows "disk_lines (disk_line r # ls) d =
    disk_lines ls (if wholeDisk (dk_name r) then add_disk d (\<lambda>i. dk_vals r ! i) else d)"
  using assms disk_columns_row [of "dk_vals r"]
  by (simp add: Fields_disk_line Let_def disk_row_ok_def numeral_2_eq_2)

lemma disk_lines_short: "length (Fields l) < 10 \<Longrightarrow> disk_lines (l # ls) d = disk_lines ls d"
  by (simp add: Let_def)

interpretation disk_t: line_totals disk_lines disk_line disk_row_ok
    "\<lambda>r d. if wholeDisk (dk_name r) then add_disk d (\<lambda>i. dk_vals r ! i) else d"
    "\<lambda>l. line_ok l \<and> length (Fields l) < 10"
  by unfold_locales (simp, rule disk_lines_row, assumption, simp add: disk_lines_short, simp add: disk_row_ok_def, simp)

text \<open>The sum of a column over the rows of some devices.\<close>

definition disk_sum :: "(string \<Rightarrow> bool) \<Rightarrow> disk_row list \<Rightarrow> nat \<Rightarrow> u64" where
  "disk_sum counts rows i = sum_list (map (\<lambda>r. dk_vals r ! i) (filter (\<lambda>r. counts (dk_name r)) rows))"

lemma fold_add_disk:
  "fold (\<lambda>r d. if wholeDisk (dk_name r) then add_disk d (\<lambda>i. dk_vals r ! i) else d) rows d = add_disk d (disk_sum wholeDisk rows)"
proof (induction rows arbitrary: d)
  case Nil
  then show ?case by (cases d) (simp add: add_disk_def disk_sum_def)
next
  case (Cons r rows)
  have "disk_sum wholeDisk (r # rows)
      = (if wholeDisk (dk_name r) then \<lambda>i. dk_vals r ! i + disk_sum wholeDisk rows i else disk_sum wholeDisk rows)"
    by (simp add: disk_sum_def fun_eq_iff)
  with Cons show ?case by (simp add: add_disk_add)
qed

text \<open>
  The devices of a machine: its disks, what is part of a disk, and devices of other kinds.  A part is
  a partition or, on a disk whose name ends with a digit, any device named after the disk with a letter
  behind, such as the boot areas of a memory card.
\<close>

definition part_of :: "string \<Rightarrow> string \<Rightarrow> bool" where
  "part_of d n \<longleftrightarrow> (\<exists>k\<ge>0. n = partition_name d k)
     \<or> HasPrefix n d \<and> is_digit (last d) \<and> length d < length n \<and> \<not> is_digit (n ! length d)"

definition other_device :: "string \<Rightarrow> bool" where
  "other_device n \<longleftrightarrow> \<not> list_ex (HasPrefix n) [''sd'', ''vd'', ''xvd'', ''hd'', ''nvme'', ''mmcblk'']"

lemma other_device_not_whole: "other_device n \<Longrightarrow> \<not> wholeDisk n"
  by (auto simp: other_device_def wholeDisk_def)

lemma part_not_whole:
  assumes "wholeDisk d" and "part_of d n"
  shows "\<not> wholeDisk n"
proof (cases "\<exists>k\<ge>0. n = partition_name d k")
  case True
  then show ?thesis using partition_not_whole [OF assms(1)] by blast
next
  case False
  with assms(2) have n: "HasPrefix n d" "is_digit (last d)" "length d < length n" "\<not> is_digit (n ! length d)"
    by (simp_all add: part_of_def)
  obtain x t where nx: "n = d @ x # t" "\<not> is_digit x"
    using n(1,3,4) by (metis HasPrefix_def append_take_drop_id Cons_nth_drop_Suc)
  have dne: "d \<noteq> []" using assms(1) by (auto simp: wholeDisk_def HasPrefix_def letters_def digits_def)
  have tail: "\<not> digits (a @ x # t)" for a using nx(2) by (simp add: digits_def)
  from assms(1) n(2) dne consider
      (nvme) a b where "HasPrefix d ''nvme''" "Cut (CHR ''n'') (drop 4 d) = Some (a, b)"
    | (mmc) "HasPrefix d ''mmcblk''"
    by (force simp: wholeDisk_digit_end split: option.splits)
  then show ?thesis
  proof cases
    case nvme
    have len: "4 \<le> length d" using HasPrefix_length [OF nvme(1)] by simp
    have c: "Cut (CHR ''n'') (drop 4 n) = Some (a, b @ x # t)"
      using Cut_append [OF nvme(2), of "x # t"] len nx(1) by simp
    have "n \<noteq> [] \<and> hd n = CHR ''n''" using HasPrefix_hd [OF nvme(1)] nx(1) by auto
    then have "\<not> HasPrefix n ''sd''" "\<not> HasPrefix n ''vd''" "\<not> HasPrefix n ''xvd''" "\<not> HasPrefix n ''hd''"
      "\<not> HasPrefix n ''mmcblk''" by (auto dest!: HasPrefix_hd)
    with c tail [of b] show ?thesis by (simp add: wholeDisk_def)
  next
    case mmc
    have len: "6 \<le> length d" using HasPrefix_length [OF mmc] by simp
    have "n \<noteq> [] \<and> hd n = CHR ''m''" using HasPrefix_hd [OF mmc] nx(1) by auto
    then have "\<not> HasPrefix n ''sd''" "\<not> HasPrefix n ''vd''" "\<not> HasPrefix n ''xvd''" "\<not> HasPrefix n ''hd''"
      "\<not> HasPrefix n ''nvme''" by (auto dest!: HasPrefix_hd)
    moreover have "drop 6 n = drop 6 d @ x # t" using len nx(1) by simp
    ultimately show ?thesis using tail [of "drop 6 d"] by (simp add: wholeDisk_def)
  qed
qed

definition device_of :: "string list \<Rightarrow> string \<Rightarrow> bool" where
  "device_of disks n \<longleftrightarrow> n \<in> set disks \<or> (\<exists>d\<in>set disks. part_of d n) \<or> other_device n"

lemma parseDiskIO_table:
  assumes "\<forall>d\<in>set disks. wholeDisk d" and "\<forall>r\<in>set rows. disk_row_ok r \<and> device_of disks (dk_name r)"
    and "os_ReadFile env (col_root c) ''diskstats'' = Some (text_of (map disk_line rows))"
  shows "parseDiskIO env c = Inr \<lparr>disk_ReadBytes = 512 * disk_sum (\<lambda>n. n \<in> set disks) rows 2,
     disk_WriteBytes = 512 * disk_sum (\<lambda>n. n \<in> set disks) rows 6,
     disk_ReadOps = disk_sum (\<lambda>n. n \<in> set disks) rows 0, disk_WriteOps = disk_sum (\<lambda>n. n \<in> set disks) rows 4\<rparr>"
proof -
  have "wholeDisk n \<longleftrightarrow> n \<in> set disks" if "device_of disks n" for n
    using that assms(1) part_not_whole other_device_not_whole by (auto simp: device_of_def)
  then have "filter (\<lambda>r. wholeDisk (dk_name r)) rows = filter (\<lambda>r. dk_name r \<in> set disks) rows"
    using assms(2) by (intro filter_cong) auto
  then have s: "disk_sum wholeDisk rows = disk_sum (\<lambda>n. n \<in> set disks) rows" by (simp add: disk_sum_def fun_eq_iff)
  have "\<forall>r\<in>set rows. disk_row_ok r" using assms(2) by blast
  from disk_t.scan_table [of "[]", OF _ this, of zero_disk] show ?thesis
    using assms(3) by (simp add: parseDiskIO_def readFile_def fold_add_disk s) (simp add: add_disk_def zero_disk_def mult.commute)
qed

text \<open>
  From the kernel's table of block devices \<open>parseDiskIO\<close> computes what the whole disks did, each
  once: operations as they are, sectors as 512 bytes.  Neither the lines of their partitions nor those of
  devices of any other kind add anything, although their traffic is in the table as well.
\<close>

theorem parseDiskIO_sums:
  assumes "\<forall>d\<in>set disks. wholeDisk d" and "\<forall>r\<in>set rows. disk_row_ok r \<and> device_of disks (dk_name r)"
    and "os_ReadFile env (col_root c) ''diskstats'' = Some (text_of (map disk_line rows))"
  shows "parseDiskIO env c = Inr \<lparr>disk_ReadBytes = 512 * disk_sum (\<lambda>n. n \<in> set disks) rows 2,
     disk_WriteBytes = 512 * disk_sum (\<lambda>n. n \<in> set disks) rows 6,
     disk_ReadOps = disk_sum (\<lambda>n. n \<in> set disks) rows 0, disk_WriteOps = disk_sum (\<lambda>n. n \<in> set disks) rows 4\<rparr>"
  using assms by (rule parseDiskIO_table)

definition example_disks :: "disk_row list" where
  "example_disks = [\<lparr>dk_major = 259, dk_minor = 0, dk_name = ''nvme0n1'', dk_vals = replicate 17 3\<rparr>,
     \<lparr>dk_major = 259, dk_minor = 1, dk_name = ''nvme0n1p1'', dk_vals = replicate 17 2\<rparr>,
     \<lparr>dk_major = 7, dk_minor = 0, dk_name = ''loop0'', dk_vals = replicate 17 9\<rparr>]"

lemma example_devices: "\<forall>r\<in>set example_disks. disk_row_ok r \<and> device_of [''nvme0n1''] (dk_name r)"
proof -
  have rows: "\<forall>r\<in>set example_disks. disk_row_ok r" by code_simp
  have "partition_name ''nvme0n1'' 1 = ''nvme0n1p1''" by code_simp
  then have "\<exists>k\<ge>0. ''nvme0n1p1'' = partition_name ''nvme0n1'' k" by (intro exI [of _ 1]) simp
  then have "part_of ''nvme0n1'' ''nvme0n1p1''" by (simp add: part_of_def)
  moreover have "other_device ''loop0''" by code_simp
  ultimately show ?thesis using rows by (simp add: example_disks_def device_of_def)
qed

theorem parseDiskIO_sums_witness:
  "parseDiskIO (one_file ''diskstats'' (text_of (map disk_line example_disks))) plain_collector
     = Inr \<lparr>disk_ReadBytes = 1536, disk_WriteBytes = 1536, disk_ReadOps = 3, disk_WriteOps = 3\<rparr>"
proof -
  have "\<forall>d\<in>set [''nvme0n1'']. wholeDisk d" by code_simp
  from parseDiskIO_sums [OF this example_devices, of "one_file ''diskstats'' (text_of (map disk_line example_disks))" plain_collector]
  show ?thesis by (simp add: one_file_def disk_sum_def example_disks_def)
qed

section \<open>Lines that are too long\<close>

text \<open>
  C34.  A line of 65536 bytes or more, which the scanner refuses, ends the totals without an error: neither
  reader asks the scanner why it stopped, so both return what they had summed up, whatever follows in the
  file.  When it is the first line, the machine looks idle.  This holds under any header lines and after
  any rows, however they are padded.
\<close>

theorem long_line_cuts_totals:
  assumes "newline \<notin> set l" and "65536 \<le> int (length l)"
    and "\<forall>h\<in>set hs. line_ok h \<and> CHR '':'' \<notin> set h"
    and "\<forall>r\<in>set nets. row_ok r" and "\<forall>r\<in>set disks. disk_row_ok r"
    and "os_ReadFile env (col_root c) ''net/dev'' = Some (text_of (hs @ map iface_line nets) @ l @ net_rest)"
    and "os_ReadFile env (col_root c) ''diskstats'' = Some (text_of (map disk_line disks) @ l @ disk_rest)"
  shows "parseNet env c = Inr (add_net zero_net (net_sum nets))
     \<and> parseDiskIO env c = Inr (add_disk zero_disk (disk_sum wholeDisk disks))"
  using net_t.scan_table_long [OF assms(3,4,1,2), of net_rest zero_net]
    disk_t.scan_table_long [of "[]", OF _ assms(5,1,2), of disk_rest zero_disk] assms(6,7)
  by (simp add: parseNet_def parseDiskIO_def readFile_def fold_add_net fold_add_disk)

definition long_line_os :: osenv where
  "long_line_os = \<lparr>os_ReadFile = (\<lambda>root rel. Some (replicate 65536 (CHR ''x'') @ [newline] @
     (if rel = ''net/dev'' then iface_line (example_nets ! 1) else disk_line (hd example_disks)))),
     os_Statfs = (\<lambda>_. Inl 1), os_Now = 0\<rparr>"

theorem long_line_cuts_totals_witness:
  "parseNet long_line_os plain_collector = Inr zero_net \<and> parseDiskIO long_line_os plain_collector = Inr zero_disk"
  using long_line_cuts_totals [of "replicate 65536 (CHR ''x'')" "[]" "[]" "[]" long_line_os plain_collector
      "newline # iface_line (example_nets ! 1)" "newline # disk_line (hd example_disks)"]
  by (simp add: long_line_os_def text_of_def add_net_def add_disk_def zero_net_def zero_disk_def net_sum_def disk_sum_def)

end
