(* ===== verification/Procfs.thy ===== *)
theory Procfs
  imports Totals FloatText
begin

text \<open>
  A whole machine read through its \<open>/proc\<close>: the text of every file as the kernel prints it, from the
  state of the machine, and what \<open>Collect\<close> (\<open>internal/collect/collect.go\<close>) makes of it.  The lemmas are the
  round trips of the single files; the property puts them together.
\<close>

section \<open>Fields of a line\<close>

lemma Fields_cases:
  "dropWhile is_space s = [] \<Longrightarrow> Fields s = []"
  "dropWhile is_space s = t \<Longrightarrow> t \<noteq> [] \<Longrightarrow>
     Fields s = takeWhile (\<lambda>c. \<not> is_space c) t # Fields (dropWhile (\<lambda>c. \<not> is_space c) t)"
  by (subst Fields.simps, simp add: Let_def)+

lemma while_snoc:
  assumes "\<not> P c"
  shows "takeWhile P (t @ [c]) = takeWhile P t" and "dropWhile P (t @ [c]) = dropWhile P t @ [c]"
  using assms by (induction t) auto

lemma Fields_snoc: "is_space c \<Longrightarrow> Fields (s @ [c]) = Fields s"
proof (induction s rule: Fields.induct)
  case (1 s)
  let ?t = "dropWhile is_space s"
  show ?case
  proof (cases "?t = []")
    case True
    then have "dropWhile is_space (s @ [c]) = []" using "1.prems" by (auto simp: dropWhile_eq_Nil_conv)
    with True show ?thesis by (simp add: Fields_cases(1))
  next
    case False
    then obtain x where "x \<in> set s" "\<not> is_space x" by (auto simp: dropWhile_eq_Nil_conv)
    then have d: "dropWhile is_space (s @ [c]) = ?t @ [c]" by (rule dropWhile_append1)
    note n = while_snoc [where P = "\<lambda>c. \<not> is_space c" and c = c]
    have "Fields (s @ [c]) = takeWhile (\<lambda>c. \<not> is_space c) ?t # Fields (dropWhile (\<lambda>c. \<not> is_space c) ?t @ [c])"
      using Fields_cases(2) [OF d] n "1.prems" by simp
    also have "Fields (dropWhile (\<lambda>c. \<not> is_space c) ?t @ [c]) = Fields (dropWhile (\<lambda>c. \<not> is_space c) ?t)"
      by (rule "1.IH" [OF refl False "1.prems"])
    finally show ?thesis using Fields_cases(2) [OF refl False] by simp
  qed
qed

lemma Fields_line:
  assumes "word_ok w" and "\<forall>v\<in>set vs. word_ok v"
  shows "Fields (w @ join_words vs @ [newline]) = w # vs"
  using Fields_snoc [of newline "w @ join_words vs"] Fields_head [OF assms] by (simp add: is_space_def)

section \<open>Decimals\<close>

text \<open>Hundredths with two decimals, as in \<open>/proc/uptime\<close> and \<open>/proc/loadavg\<close>.\<close>

definition hundredths :: "int \<Rightarrow> string" where
  "hundredths n = number_text False (n div 100) (digs 2 n) None"

lemma digits_word: "list_all is_digit s \<Longrightarrow> c \<in> set s \<Longrightarrow> \<not> is_space c"
  by (simp add: list_all_iff digit_not_space)

lemma word_ok_hundredths:
  assumes "0 \<le> n"
  shows "word_ok (hundredths n)"
proof -
  have d: "\<forall>c\<in>set (dec (n div 100)) \<union> set (digs 2 n). \<not> is_space c"
    using digits_word [OF dec_digits [of "n div 100"]] digits_word [OF digs_digits [OF assms, of 2]] assms by auto
  have "\<not> is_space (CHR ''.'')" by (simp add: is_space_def)
  with d show ?thesis by (auto simp: word_ok_def hundredths_def number_text_def frac_text_def exp_text_def)
qed

lemma ParseFloat_hundredths:
  assumes "0 \<le> n" and "n \<le> 1000000000000000"
  shows "ParseFloat (hundredths n) = Inr (Fin (rnd (of_int n / 100)))"
proof -
  have "num_from (n div 100) (digs 2 n) = Some n"
    using num_from_digs [OF assms(1), of "n div 100" 2] by simp
  moreover have "(of_int n :: rat) \<le> 1000000000000000" using assms(2) by (intro of_int_le_numeral) simp
  then have "fl (of_int n * 10 powi (- 2)) = Fin (rnd (of_int n / 100))"
    using assms(1) fl_128 [of "of_int n / 100"] by (simp add: power_int_minus field_simps)
  ultimately show ?thesis
    using ParseFloat_text [of "n div 100" "digs 2 n" n None False] digs_digits [OF assms(1), of 2] assms(1)
    by (simp add: hundredths_def exp_val_def)
qed

section \<open>Uptime, load and boot id\<close>

text \<open>Up to 3 * 10^9 seconds, 95 years, the uptime is right to less than a microsecond.\<close>

lemma uptime_of_hundredths:
  assumes "0 \<le> n" and "n \<le> 300000000000"
  shows "\<bar>to_i64 (Fin (rnd (of_int n / 100)) * of_i64 second) - n * 10000000\<bar> \<le> 668"
proof -
  let ?x = "of_int n / 100 :: rat"
  let ?y = "rnd ?x" and ?u = "9007199254740992 :: rat"
  have x: "0 \<le> ?x" "?x \<le> 3000000000"
    using assms(1) of_int_le_numeral [OF assms(2)] by (simp_all add: field_simps)
  have rep: "representable 3000000000" using representable_of_int [of 3000000000] by simp
  have y: "0 \<le> ?y" "?y \<le> 3000000000" using b64.rd_nonneg [OF x(1)] b64.rd_le [OF rep x(2)] by simp_all
  have "\<bar>?y - ?x\<bar> \<le> (3000000000 + 1) / ?u" using x by (intro b64.error_upto) simp
  also have "\<dots> \<le> 334 / 1000000000" by simp
  finally have ey: "?y - ?x \<le> 334 / 1000000000" "?x - ?y \<le> 334 / 1000000000" by (simp_all only: abs_le_iff) simp
  have sec: "of_i64 second = Fin 1000000000"
    using of_i64_Fin [of second] b64.rd_of_int [of second] by (simp add: second_def)
  let ?p = "?y * 1000000000"
  have p: "0 \<le> ?p" "?p \<le> 3000000000000000000" using y by simp_all
  have m: "Fin ?y * of_i64 second = Fin (rnd ?p)"
    using fl_128 [of ?p] p by (simp add: sec go_simps)
  have "\<bar>rnd ?p - ?p\<bar> \<le> (3000000000000000000 + 1) / ?u" using p by (intro b64.error_upto) simp
  also have "\<dots> \<le> 334" by simp
  finally have ep: "rnd ?p - ?p \<le> 334" "?p - rnd ?p \<le> 334" by (simp_all only: abs_le_iff) simp
  have z: "0 \<le> rnd ?p" "rnd ?p \<le> 4611686018427387904"
    using b64.rd_nonneg [OF p(1)] ep(1) p(2) by linarith+
  let ?k = "\<lfloor>rnd ?p\<rfloor>"
  have k: "0 \<le> ?k" "?k < 9223372036854775808" using z by (simp_all add: floor_less_iff)
  have u: "to_i64 (Fin ?y * of_i64 second) = ?k" using m z(1) k by (simp add: trunc_rat_def Let_def)
  have fk: "of_int ?k \<le> rnd ?p" "rnd ?p < of_int ?k + 1" using floor_correct [of "rnd ?p"] by simp_all
  have nx: "of_int (n * 10000000) = ?x * 1000000000" by simp
  have py: "?p - ?x * 1000000000 \<le> 334" "?x * 1000000000 - ?p \<le> 334" using ey by linarith+
  have "(of_int ?k :: rat) < of_int (n * 10000000) + 669" "of_int (n * 10000000) < (of_int ?k :: rat) + 669"
    unfolding nx using py ep fk by linarith+
  then have "(of_int ?k :: rat) < of_int (n * 10000000 + 669)" "(of_int (n * 10000000) :: rat) < of_int (?k + 669)"
    by simp_all
  then have "?k < n * 10000000 + 669" "n * 10000000 < ?k + 669" unfolding of_int_less_iff .
  then show ?thesis unfolding u by linarith
qed

lemma parseUptime_text:
  assumes "0 \<le> n" and "n \<le> 300000000000" and "word_ok idle"
    and "os_ReadFile env (col_root c) ''uptime'' = Some (hundredths n @ join_words [idle] @ [newline])"
  shows "\<exists>u. parseUptime env c = Inr u \<and> \<bar>u - n * 10000000\<bar> \<le> 668"
proof -
  have "Fields (hundredths n @ join_words [idle] @ [newline]) = [hundredths n, idle]"
    using assms(3) word_ok_hundredths [OF assms(1)] by (intro Fields_line) simp_all
  then show ?thesis
    using assms(2,4) ParseFloat_hundredths [OF assms(1)] uptime_of_hundredths [OF assms(1,2)]
    by (simp add: parseUptime_def readFile_def)
qed

definition load_text :: "int \<Rightarrow> int \<Rightarrow> int \<Rightarrow> string list \<Rightarrow> string" where
  "load_text a b c rest = hundredths a @ join_words (hundredths b # hundredths c # rest) @ [newline]"

lemma parseLoad_text:
  assumes "\<forall>n\<in>{x, y, z}. 0 \<le> n \<and> n \<le> 1000000000000000" and "\<forall>w\<in>set rest. word_ok w"
    and "os_ReadFile env (col_root c) ''loadavg'' = Some (load_text x y z rest)"
  shows "parseLoad env c = Inr \<lparr>load_One = Fin (rnd (of_int x / 100)), load_Five = Fin (rnd (of_int y / 100)),
     load_Fifteen = Fin (rnd (of_int z / 100))\<rparr>"
proof -
  have "Fields (load_text x y z rest) = hundredths x # hundredths y # hundredths z # rest"
    unfolding load_text_def using assms(1,2) word_ok_hundredths by (intro Fields_line) auto
  then show ?thesis
    using assms(1,3) ParseFloat_hundredths by (simp add: parseLoad_def readFile_def Let_def numeral_3_eq_3)
qed

lemma TrimSpace_line: "word_ok w \<Longrightarrow> TrimSpace (w @ [newline]) = w"
proof -
  assume "word_ok w"
  then have "dropWhile is_space w = w" "dropWhile is_space (rev w) = rev w" "w \<noteq> []"
    by (cases w, auto simp: word_ok_def) (cases w rule: rev_cases, auto)
  moreover have "dropWhile is_space (w @ [newline]) = dropWhile is_space w @ [newline]" if "w \<noteq> []"
    using \<open>word_ok w\<close> that by (cases w) (auto simp: word_ok_def)
  moreover have "is_space newline" by (simp add: is_space_def)
  ultimately show ?thesis by (simp add: TrimSpace_def)
qed

lemma parseBootID_text:
  assumes "word_ok boot" and "os_ReadFile env (col_root c) ''sys/kernel/random/boot_id'' = Some (boot @ [newline])"
  shows "parseBootID env c = Inr boot"
  using assms TrimSpace_line [OF assms(1)] by (simp add: parseBootID_def readFile_def word_ok_def)

section \<open>Memory figures\<close>

text \<open>A line of \<open>/proc/meminfo\<close>: the key, blanks, the number and in most lines the unit.\<close>

record mem_row =
  mr_key :: string
  mr_blanks :: nat
  mr_val :: u64
  mr_unit :: "string list"

definition mem_line :: "mem_row \<Rightarrow> string" where
  "mem_line r = mr_key r @ '':'' @ replicate (mr_blanks r) (CHR '' '') @ dec (uint (mr_val r)) @ join_words (mr_unit r)"

definition mem_row_ok :: "mem_row \<Rightarrow> bool" where
  "mem_row_ok r \<longleftrightarrow> CHR '':'' \<notin> set (mr_key r) \<and> (\<forall>w\<in>set (mr_unit r). word_ok w) \<and> line_ok (mem_line r)"

lemma mem_lines_row:
  assumes "mem_row_ok r"
  shows "mem_lines (mem_line r # ls) (m, seen) = (case mem_target (mr_key r) of None \<Rightarrow> mem_lines ls (m, seen)
     | Some target \<Rightarrow> mem_lines ls (target (mr_val r * 1024) m, mr_key r # seen))"
proof -
  have "Cut (CHR '':'') (mem_line r) = Some (mr_key r, replicate (mr_blanks r) (CHR '' '') @ dec (uint (mr_val r)) @ join_words (mr_unit r))"
    using assms Cut_word [of "CHR '':''" "mr_key r"] by (simp add: mem_line_def mem_row_ok_def)
  moreover have "Fields (dec (uint (mr_val r)) @ join_words (mr_unit r)) = dec (uint (mr_val r)) # mr_unit r"
    using assms by (intro Fields_head) (simp_all add: mem_row_ok_def word_ok_dec)
  ultimately show ?thesis by (simp add: Fields_blanks ParseUint_dec split: option.split)
qed

text \<open>What the rows say of a key, in bytes; a key that is missing counts as zero.\<close>

definition kib :: "mem_row list \<Rightarrow> string \<Rightarrow> u64" where
  "kib rows key = (case map_of (map (\<lambda>r. (mr_key r, mr_val r)) rows) key of None \<Rightarrow> 0 | Some n \<Rightarrow> n * 1024)"

lemma mem_lines_rows:
  assumes "\<forall>r\<in>set rows. mem_row_ok r" and "distinct (map mr_key rows)"
  shows "\<exists>m' seen'. mem_lines (map mem_line rows) (m, seen) = Inr (m', seen')
     \<and> set seen' = set seen \<union> {k \<in> mr_key ` set rows. mem_target k \<noteq> None}
     \<and> (\<forall>k. mem_target k \<noteq> None \<longrightarrow> mem_value k m' = (if k \<in> mr_key ` set rows then kib rows k else mem_value k m))"
  using assms
proof (induction rows arbitrary: m seen)
  case Nil
  then show ?case by simp
next
  case (Cons r rows)
  have ok: "mem_row_ok r" "\<forall>r\<in>set rows. mem_row_ok r" "distinct (map mr_key rows)" "mr_key r \<notin> mr_key ` set rows"
    using Cons.prems by simp_all
  have other: "kib (r # rows) k = kib rows k" if "k \<noteq> mr_key r" for k using that by (simp add: kib_def)
  show ?case
  proof (cases "mem_target (mr_key r)")
    case None
    from Cons.IH [OF ok(2,3), of m seen] obtain m' seen' where i:
      "mem_lines (map mem_line rows) (m, seen) = Inr (m', seen')"
      "set seen' = set seen \<union> {k \<in> mr_key ` set rows. mem_target k \<noteq> None}"
      "\<forall>k. mem_target k \<noteq> None \<longrightarrow> mem_value k m' = (if k \<in> mr_key ` set rows then kib rows k else mem_value k m)"
      by blast
    have ne: "k \<noteq> mr_key r" if "mem_target k \<noteq> None" for k using None that by auto
    then have "mem_value k m' = (if k \<in> mr_key ` set (r # rows) then kib (r # rows) k else mem_value k m)"
      if "mem_target k \<noteq> None" for k
      using that i(3) other [of k] by simp
    moreover have "set seen' = set seen \<union> {k \<in> mr_key ` set (r # rows). mem_target k \<noteq> None}"
      using i(2) None by auto
    moreover have "mem_lines (map mem_line (r # rows)) (m, seen) = Inr (m', seen')"
      using i(1) None mem_lines_row [OF ok(1)] by (simp del: mem_lines.simps)
    ultimately show ?thesis by (intro exI [of _ m'] exI [of _ seen'] conjI allI impI)
  next
    case (Some target)
    let ?m = "target (mr_val r * 1024) m"
    from Cons.IH [OF ok(2,3), of ?m "mr_key r # seen"] obtain m' seen' where
      i: "mem_lines (map mem_line rows) (?m, mr_key r # seen) = Inr (m', seen')"
      "set seen' = set (mr_key r # seen) \<union> {k \<in> mr_key ` set rows. mem_target k \<noteq> None}"
      "\<forall>k. mem_target k \<noteq> None \<longrightarrow> mem_value k m' = (if k \<in> mr_key ` set rows then kib rows k else mem_value k ?m)"
      by blast
    have "kib (r # rows) (mr_key r) = mr_val r * 1024" by (simp add: kib_def)
    then have "mem_value k m' = (if k \<in> mr_key ` set (r # rows) then kib (r # rows) k else mem_value k m)"
      if "mem_target k \<noteq> None" for k
      using that i(3) ok(4) other [of k] mem_target_value [OF Some] by (cases "k = mr_key r") auto
    moreover have "set seen' = set seen \<union> {k \<in> mr_key ` set (r # rows). mem_target k \<noteq> None}"
      using i(2) Some by auto
    moreover have "mem_lines (map mem_line (r # rows)) (m, seen) = Inr (m', seen')"
      using i(1) Some mem_lines_row [OF ok(1)] by (simp del: mem_lines.simps)
    ultimately show ?thesis by (intro exI [of _ m'] exI [of _ seen'] conjI allI impI)
  qed
qed

definition memory_of :: "mem_row list \<Rightarrow> Memory" where
  "memory_of rows = \<lparr>mem_Total = kib rows ''MemTotal'', mem_Available = kib rows ''MemAvailable'',
     mem_Free = kib rows ''MemFree'', mem_Buffers = kib rows ''Buffers'', mem_Cached = kib rows ''Cached'',
     mem_SwapTotal = kib rows ''SwapTotal'', mem_SwapFree = kib rows ''SwapFree''\<rparr>"

lemma mem_value_zero: "mem_value k zero_memory = 0"
  by (simp add: mem_value_def zero_memory_def)

lemma parseMemory_text:
  assumes "\<forall>r\<in>set rows. mem_row_ok r" and "distinct (map mr_key rows)"
    and "''MemTotal'' \<in> mr_key ` set rows" and "''MemAvailable'' \<in> mr_key ` set rows"
    and "os_ReadFile env (col_root c) ''meminfo'' = Some (text_of (map mem_line rows))"
  shows "parseMemory env c = Inr (memory_of rows)"
proof -
  have sl: "scan_lines (text_of (map mem_line rows)) = map mem_line rows"
    using assms(1) by (intro scan_lines_text) (auto simp: mem_row_ok_def)
  obtain m seen where m: "mem_lines (map mem_line rows) (zero_memory, []) = Inr (m, seen)"
    "set seen = set [] \<union> {k \<in> mr_key ` set rows. mem_target k \<noteq> None}"
    "\<forall>k. mem_target k \<noteq> None \<longrightarrow> mem_value k m = (if k \<in> mr_key ` set rows then kib rows k else mem_value k zero_memory)"
    using mem_lines_rows [OF assms(1,2)] by blast
  have v: "mem_value k m = kib rows k" if "mem_target k \<noteq> None" for k
  proof (cases "k \<in> mr_key ` set rows")
    case False
    then have "map_of (map (\<lambda>r. (mr_key r, mr_val r)) rows) k = None" by (auto simp: map_of_eq_None_iff)
    with False m(3) that show ?thesis by (simp add: mem_value_zero kib_def)
  qed (use m(3) that in simp)
  have t: "mem_target k \<noteq> None" if "k \<in> {''MemTotal'', ''MemAvailable'', ''MemFree'', ''Buffers'', ''Cached'', ''SwapTotal'', ''SwapFree''}" for k
    using that by (auto simp: mem_target_def)
  have "m = memory_of rows"
    using v [OF t, of "''MemTotal''"] v [OF t, of "''MemAvailable''"] v [OF t, of "''MemFree''"] v [OF t, of "''Buffers''"]
      v [OF t, of "''Cached''"] v [OF t, of "''SwapTotal''"] v [OF t, of "''SwapFree''"]
    by (cases m) (simp add: mem_value_def memory_of_def)
  moreover have "''MemTotal'' \<in> set seen" "''MemAvailable'' \<in> set seen" using m(2) assms(3,4) t by auto
  ultimately show ?thesis
    using assms(5) m(1) by (simp add: parseMemory_def readFile_def sl)
qed

section \<open>The whole machine\<close>

record machine =
  mc_cpu :: CPUTimes
  mc_cpu_more :: "string list"
  mc_stat :: string
  mc_mem :: "mem_row list"
  mc_load :: "int \<times> int \<times> int"
  mc_load_more :: "string list"
  mc_uptime :: int
  mc_idle :: string
  mc_net_header :: "string list"
  mc_nets :: "net_row list"
  mc_disk_names :: "string list"
  mc_disks :: "disk_row list"
  mc_boot :: string
  mc_fs :: "string \<Rightarrow> Statfs"

definition proc_file :: "machine \<Rightarrow> string \<Rightarrow> string option" where
  "proc_file m rel = map_of
     [(''stat'', cpu_line (mc_cpu m) (mc_cpu_more m) @ newline # mc_stat m),
      (''meminfo'', text_of (map mem_line (mc_mem m))),
      (''loadavg'', (case mc_load m of (x, y, z) \<Rightarrow> load_text x y z (mc_load_more m))),
      (''uptime'', hundredths (mc_uptime m) @ join_words [mc_idle m] @ [newline]),
      (''net/dev'', text_of (mc_net_header m @ map iface_line (mc_nets m))),
      (''diskstats'', text_of (map disk_line (mc_disks m))),
      (''sys/kernel/random/boot_id'', mc_boot m @ [newline])] rel"

text \<open>Figures that a kernel prints, of a machine up for less than 95 years.\<close>

definition machine_ok :: "machine \<Rightarrow> bool" where
  "machine_ok m \<longleftrightarrow>
     (\<forall>w\<in>set (mc_cpu_more m). word_ok w) \<and> int (length (cpu_line (mc_cpu m) (mc_cpu_more m))) < 65536
   \<and> (\<forall>r\<in>set (mc_mem m). mem_row_ok r) \<and> distinct (map mr_key (mc_mem m))
   \<and> ''MemTotal'' \<in> mr_key ` set (mc_mem m) \<and> ''MemAvailable'' \<in> mr_key ` set (mc_mem m)
   \<and> (case mc_load m of (x, y, z) \<Rightarrow> \<forall>n\<in>{x, y, z}. 0 \<le> n \<and> n \<le> 1000000000000000)
   \<and> (\<forall>w\<in>set (mc_load_more m). word_ok w)
   \<and> 0 \<le> mc_uptime m \<and> mc_uptime m \<le> 300000000000 \<and> word_ok (mc_idle m)
   \<and> (\<forall>h\<in>set (mc_net_header m). line_ok h \<and> CHR '':'' \<notin> set h) \<and> (\<forall>r\<in>set (mc_nets m). row_ok r)
   \<and> (\<forall>d\<in>set (mc_disk_names m). wholeDisk d)
   \<and> (\<forall>r\<in>set (mc_disks m). disk_row_ok r \<and> device_of (mc_disk_names m) (dk_name r))
   \<and> word_ok (mc_boot m)"

text \<open>What a sample should say of the machine.\<close>

definition nearest :: "int \<Rightarrow> f64" where
  "nearest n = Fin (rnd (of_int n / 100))"

definition sample_of :: "machine \<Rightarrow> time \<Rightarrow> string list \<Rightarrow> duration \<Rightarrow> Sample" where
  "sample_of m now mounts up = \<lparr>At = now, BootID = mc_boot m, Uptime = up, CPU = mc_cpu m, Mem = memory_of (mc_mem m),
     LoadAvg = (case mc_load m of (x, y, z) \<Rightarrow>
       \<lparr>load_One = nearest x, load_Five = nearest y, load_Fifteen = nearest z\<rparr>),
     Net = \<lparr>net_RxBytes = net_sum (mc_nets m) 0, net_TxBytes = net_sum (mc_nets m) 8,
       net_RxPackets = net_sum (mc_nets m) 1, net_TxPackets = net_sum (mc_nets m) 9,
       net_RxErrors = net_sum (mc_nets m) 2, net_TxErrors = net_sum (mc_nets m) 10\<rparr>,
     Disk = (let tot = disk_sum (\<lambda>n. n \<in> set (mc_disk_names m)) (mc_disks m) in
       \<lparr>disk_ReadBytes = 512 * tot 2, disk_WriteBytes = 512 * tot 6, disk_ReadOps = tot 0, disk_WriteOps = tot 4\<rparr>),
     FS = map (\<lambda>p. let st = mc_fs m p in \<lparr>fs_Mount = p, fs_Total = word_of_int (uint (st_Blocks st) * st_Bsize st),
       fs_Used = word_of_int ((uint (st_Blocks st) - uint (st_Bfree st)) * st_Bsize st)\<rparr>) mounts\<rparr>"

lemma usage_loop_stats:
  "col_Usage c = None \<Longrightarrow> \<forall>p\<in>set ps. os_Statfs env p = Inr (st p) \<Longrightarrow>
     usage_loop env c ps = Inr (map (\<lambda>p. \<lparr>fs_Mount = p, fs_Total = word_of_int (uint (st_Blocks (st p)) * st_Bsize (st p)),
       fs_Used = word_of_int ((uint (st_Blocks (st p)) - uint (st_Bfree (st p))) * st_Bsize (st p))\<rparr>) ps)"
  by (induction ps) (simp_all add: col_usage_def diskUsage_def Let_def)

lemma Collect_Inr:
  assumes "parseCPU env c = Inr cpu" "parseMemory env c = Inr mem" "parseLoad env c = Inr load" "parseUptime env c = Inr up"
    and "parseNet env c = Inr net" "parseDiskIO env c = Inr disk" "parseBootID env c = Inr boot" "collectFilesystems env c = Inr fs"
  shows "Collect env c = Inr \<lparr>At = col_now env c, BootID = boot, Uptime = up, CPU = cpu, Mem = mem, LoadAvg = load,
    Net = net, Disk = disk, FS = fs\<rparr>"
  using assms by (simp add: Collect_def Let_def)

text \<open>
  C11.  \<open>Collect\<close> reads what the kernel says.  On a machine whose files under \<open>/proc\<close> have the kernel's
  format, however its columns are padded and whatever else they hold, the sample has exactly the counters of the processor, the memory
  figures in bytes, the sums over the physical interfaces and the whole disks, the boot id and the sizes
  of the file systems; the load averages are the nearest floats; and the uptime, computed in
  floating point, is right to less than a microsecond.
\<close>

theorem Collect_reads_machine:
  assumes "machine_ok m" and "\<forall>rel. os_ReadFile env (col_root c) rel = proc_file m rel"
    and "col_Usage c = None" and "\<forall>p\<in>set (col_mounts c). os_Statfs env p = Inr (mc_fs m p)"
  shows "\<exists>up. Collect env c = Inr (sample_of m (col_now env c) (col_mounts c) up)
     \<and> \<bar>up - mc_uptime m * 10000000\<bar> \<le> 668"
proof -
  obtain x y z where l: "mc_load m = (x, y, z)" by (cases "mc_load m")
  have ok: "\<forall>w\<in>set (mc_cpu_more m). word_ok w" "int (length (cpu_line (mc_cpu m) (mc_cpu_more m))) < 65536"
    "\<forall>r\<in>set (mc_mem m). mem_row_ok r" "distinct (map mr_key (mc_mem m))"
    "''MemTotal'' \<in> mr_key ` set (mc_mem m)" "''MemAvailable'' \<in> mr_key ` set (mc_mem m)"
    "\<forall>n\<in>{x, y, z}. 0 \<le> n \<and> n \<le> 1000000000000000" "\<forall>w\<in>set (mc_load_more m). word_ok w"
    "0 \<le> mc_uptime m" "mc_uptime m \<le> 300000000000" "word_ok (mc_idle m)"
    "\<forall>h\<in>set (mc_net_header m). line_ok h \<and> CHR '':'' \<notin> set h" "\<forall>r\<in>set (mc_nets m). row_ok r"
    "\<forall>d\<in>set (mc_disk_names m). wholeDisk d"
    "\<forall>r\<in>set (mc_disks m). disk_row_ok r \<and> device_of (mc_disk_names m) (dk_name r)" "word_ok (mc_boot m)"
    using assms(1) unfolding machine_ok_def l prod.case by blast+
  note f = assms(2) [rule_format, unfolded proc_file_def]
  have "parseCPU env c = Inr (mc_cpu m)"
    by (rule parseCPU_roundtrip [OF ok(1,2)]) (simp add: f)
  moreover have "parseMemory env c = Inr (memory_of (mc_mem m))"
    by (rule parseMemory_text [OF ok(3-6)]) (simp add: f)
  moreover have "parseLoad env c = Inr \<lparr>load_One = nearest x, load_Five = nearest y, load_Fifteen = nearest z\<rparr>"
    unfolding nearest_def by (rule parseLoad_text [OF ok(7,8)]) (simp add: f l)
  moreover obtain up where "parseUptime env c = Inr up" and up: "\<bar>up - mc_uptime m * 10000000\<bar> \<le> 668"
    using parseUptime_text [OF ok(9-11), of env c] by (auto simp: f)
  moreover have "os_ReadFile env (col_root c) ''net/dev'' =
      Some (text_of (mc_net_header m @ map iface_line (mc_nets m)))" by (simp add: f)
  note parseNet_table [OF ok(12,13) this]
  moreover have "os_ReadFile env (col_root c) ''diskstats'' = Some (text_of (map disk_line (mc_disks m)))" by (simp add: f)
  note parseDiskIO_table [OF ok(14,15) this]
  moreover have "parseBootID env c = Inr (mc_boot m)"
    by (rule parseBootID_text [OF ok(16)]) (simp add: f)
  moreover have "collectFilesystems env c = Inr (FS (sample_of m (col_now env c) (col_mounts c) up))"
    using usage_loop_stats [OF assms(3,4)] by (simp add: collectFilesystems_def sample_of_def Let_def)
  ultimately have "Collect env c = Inr (sample_of m (col_now env c) (col_mounts c) up)"
    by (subst Collect_Inr) (simp_all add: sample_of_def l Let_def)
  with up show ?thesis by blast
qed

text \<open>
  The example is the machine of the collector's own tests, \<open>src/internal/collect/testdata/proc\<close>: its files are
  reproduced to the byte.
\<close>

definition example_machine :: machine where
  "example_machine = \<lparr>
     mc_cpu = \<lparr>cpu_User = 259871, cpu_Nice = 1204, cpu_System = 89234, cpu_Idle = 8912340, cpu_IOWait = 12045,
       cpu_IRQ = 0, cpu_SoftIRQ = 4521, cpu_Steal = 3102\<rparr>,
     mc_cpu_more = [''0'', ''0''],
     mc_stat = text_of [''cpu0 130102 601 44810 4456891 6001 0 2260 1551 0 0'',
       ''cpu1 129769 603 44424 4455449 6044 0 2261 1551 0 0'',
       ''intr 45678901 12 0 0 0 0 0 0 0 1 0'',
       ''ctxt 987654321'',
       ''btime 1756400000'',
       ''processes 234567'',
       ''procs_running 2'',
       ''procs_blocked 0''],
     mc_mem = [\<lparr>mr_key = ''MemTotal'', mr_blanks = 8, mr_val = 4025376, mr_unit = [''kB'']\<rparr>,
       \<lparr>mr_key = ''MemFree'', mr_blanks = 10, mr_val = 198432, mr_unit = [''kB'']\<rparr>,
       \<lparr>mr_key = ''MemAvailable'', mr_blanks = 4, mr_val = 2841920, mr_unit = [''kB'']\<rparr>,
       \<lparr>mr_key = ''Buffers'', mr_blanks = 10, mr_val = 142208, mr_unit = [''kB'']\<rparr>,
       \<lparr>mr_key = ''Cached'', mr_blanks = 10, mr_val = 2314560, mr_unit = [''kB'']\<rparr>,
       \<lparr>mr_key = ''SwapCached'', mr_blanks = 9, mr_val = 1024, mr_unit = [''kB'']\<rparr>,
       \<lparr>mr_key = ''Active'', mr_blanks = 10, mr_val = 1892340, mr_unit = [''kB'']\<rparr>,
       \<lparr>mr_key = ''Inactive'', mr_blanks = 9, mr_val = 923456, mr_unit = [''kB'']\<rparr>,
       \<lparr>mr_key = ''SwapTotal'', mr_blanks = 7, mr_val = 2097148, mr_unit = [''kB'']\<rparr>,
       \<lparr>mr_key = ''SwapFree'', mr_blanks = 8, mr_val = 2091004, mr_unit = [''kB'']\<rparr>,
       \<lparr>mr_key = ''Dirty'', mr_blanks = 15, mr_val = 312, mr_unit = [''kB'']\<rparr>],
     mc_load = (52, 58, 59), mc_load_more = [''2/1234'', ''56789''], mc_uptime = 8912345, mc_idle = ''167234.89'',
     mc_net_header = [''Inter-|   Receive                                                |  Transmit'',
       '' face |bytes    packets errs drop fifo frame compressed multicast|bytes    packets errs drop fifo colls carrier compressed''],
     mc_nets = [\<lparr>nr_indent = 4, nr_name = ''lo'', nr_cols =
         [(1, 5432100), (4, 54321), (4, 0), (4, 0), (4, 0), (5, 0), (10, 0), (9, 0), (2, 5432100), (4, 54321), (4, 0), (4, 0), (4, 0), (5, 0), (7, 0), (10, 0)]\<rparr>,
       \<lparr>nr_indent = 2, nr_name = ''eth0'', nr_cols =
         [(1, 987654321), (2, 1234567), (4, 0), (4, 0), (4, 0), (5, 0), (10, 0), (9, 0), (2, 87654321), (3, 987654), (4, 0), (4, 0), (4, 0), (5, 0), (7, 0), (10, 0)]\<rparr>,
       \<lparr>nr_indent = 2, nr_name = ''eth1'', nr_cols =
         [(6, 1000), (7, 10), (4, 1), (4, 0), (4, 0), (5, 0), (10, 0), (9, 0), (6, 2000), (7, 20), (4, 2), (4, 0), (4, 0), (5, 0), (7, 0), (10, 0)]\<rparr>,
       \<lparr>nr_indent = 0, nr_name = ''docker0'', nr_cols =
         [(1, 777777777), (3, 777777), (4, 0), (4, 0), (4, 0), (5, 0), (10, 0), (9, 0), (1, 777777777), (3, 777777), (4, 0), (4, 0), (4, 0), (5, 0), (7, 0), (10, 0)]\<rparr>,
       \<lparr>nr_indent = 0, nr_name = ''veth9a1b'', nr_cols =
         [(1, 666666666), (3, 666666), (4, 0), (4, 0), (4, 0), (5, 0), (10, 0), (9, 0), (1, 666666666), (3, 666666), (4, 0), (4, 0), (4, 0), (5, 0), (7, 0), (10, 0)]\<rparr>],
     mc_disk_names = [''vda''],
     mc_disks = [\<lparr>dk_major = 254, dk_minor = 0, dk_name = ''vda'', dk_vals = [45678, 1234, 3456789, 12345, 98765, 5432, 8901234, 45678, 0, 23456, 58023]\<rparr>,
       \<lparr>dk_major = 254, dk_minor = 1, dk_name = ''vda1'', dk_vals = [45000, 1200, 3400000, 12000, 98000, 5400, 8900000, 45000, 0, 23000, 57000]\<rparr>,
       \<lparr>dk_major = 254, dk_minor = 2, dk_name = ''vda2'', dk_vals = [678, 34, 56789, 345, 765, 32, 1234, 678, 0, 456, 1023]\<rparr>,
       \<lparr>dk_major = 7, dk_minor = 0, dk_name = ''loop0'', dk_vals = [999999, 0, 9999999, 9999, 0, 0, 0, 0, 0, 9999, 9999]\<rparr>,
       \<lparr>dk_major = 253, dk_minor = 0, dk_name = ''dm-0'', dk_vals = [888888, 0, 8888888, 8888, 888888, 0, 8888888, 8888, 0, 8888, 8888]\<rparr>],
     mc_boot = ''3f2b1a9c-7d4e-4f81-9a2b-5c6d7e8f9a01'',
     mc_fs = (\<lambda>_. \<lparr>st_Bsize = 4096, st_Blocks = 100, st_Bfree = 40\<rparr>)\<rparr>"

lemma example_machine_files:
  "proc_file example_machine ''stat'' = Some (text_of [''cpu  259871 1204 89234 8912340 12045 0 4521 3102 0 0'',
   ''cpu0 130102 601 44810 4456891 6001 0 2260 1551 0 0'',
   ''cpu1 129769 603 44424 4455449 6044 0 2261 1551 0 0'',
   ''intr 45678901 12 0 0 0 0 0 0 0 1 0'',
   ''ctxt 987654321'',
   ''btime 1756400000'',
   ''processes 234567'',
   ''procs_running 2'',
   ''procs_blocked 0''])"
  "proc_file example_machine ''meminfo'' = Some (text_of [''MemTotal:        4025376 kB'',
   ''MemFree:          198432 kB'',
   ''MemAvailable:    2841920 kB'',
   ''Buffers:          142208 kB'',
   ''Cached:          2314560 kB'',
   ''SwapCached:         1024 kB'',
   ''Active:          1892340 kB'',
   ''Inactive:         923456 kB'',
   ''SwapTotal:       2097148 kB'',
   ''SwapFree:        2091004 kB'',
   ''Dirty:               312 kB''])"
  "proc_file example_machine ''loadavg'' = Some (text_of [''0.52 0.58 0.59 2/1234 56789''])"
  "proc_file example_machine ''uptime'' = Some (text_of [''89123.45 167234.89''])"
  "proc_file example_machine ''net/dev'' = Some (text_of [''Inter-|   Receive                                                |  Transmit'',
   '' face |bytes    packets errs drop fifo frame compressed multicast|bytes    packets errs drop fifo colls carrier compressed'',
   ''    lo: 5432100    54321    0    0    0     0          0         0  5432100    54321    0    0    0     0       0          0'',
   ''  eth0: 987654321  1234567    0    0    0     0          0         0  87654321   987654    0    0    0     0       0          0'',
   ''  eth1:      1000       10    1    0    0     0          0         0      2000       20    2    0    0     0       0          0'',
   ''docker0: 777777777   777777    0    0    0     0          0         0 777777777   777777    0    0    0     0       0          0'',
   ''veth9a1b: 666666666   666666    0    0    0     0          0         0 666666666   666666    0    0    0     0       0          0''])"
  "proc_file example_machine ''diskstats'' = Some (text_of ['' 254       0 vda 45678 1234 3456789 12345 98765 5432 8901234 45678 0 23456 58023'',
   '' 254       1 vda1 45000 1200 3400000 12000 98000 5400 8900000 45000 0 23000 57000'',
   '' 254       2 vda2 678 34 56789 345 765 32 1234 678 0 456 1023'',
   ''   7       0 loop0 999999 0 9999999 9999 0 0 0 0 0 9999 9999'',
   '' 253       0 dm-0 888888 0 8888888 8888 888888 0 8888888 8888 0 8888 8888''])"
  "proc_file example_machine ''sys/kernel/random/boot_id'' = Some (text_of [''3f2b1a9c-7d4e-4f81-9a2b-5c6d7e8f9a01''])"
  by code_simp+

definition machine_os :: "machine \<Rightarrow> osenv" where
  "machine_os m = \<lparr>os_ReadFile = (\<lambda>root. proc_file m), os_Statfs = (\<lambda>p. Inr (mc_fs m p)), os_Now = unix_epoch\<rparr>"

lemma example_machine_ok: "machine_ok example_machine"
proof -
  have "\<forall>w\<in>set (mc_cpu_more example_machine). word_ok w"
    "int (length (cpu_line (mc_cpu example_machine) (mc_cpu_more example_machine))) < 65536"
    "\<forall>r\<in>set (mc_mem example_machine). mem_row_ok r" "distinct (map mr_key (mc_mem example_machine))"
    "''MemTotal'' \<in> mr_key ` set (mc_mem example_machine)" "''MemAvailable'' \<in> mr_key ` set (mc_mem example_machine)"
    "\<forall>w\<in>set (mc_load_more example_machine). word_ok w"
    "word_ok (mc_idle example_machine)" "word_ok (mc_boot example_machine)" "\<forall>d\<in>set (mc_disk_names example_machine). wholeDisk d"
    "\<forall>h\<in>set (mc_net_header example_machine). line_ok h \<and> CHR '':'' \<notin> set h"
    "\<forall>r\<in>set (mc_nets example_machine). row_ok r" "\<forall>r\<in>set (mc_disks example_machine). disk_row_ok r"
    "partition_name ''vda'' 1 = ''vda1''" "partition_name ''vda'' 2 = ''vda2''"
    "other_device ''loop0''" "other_device ''dm-0''" by code_simp+
  note f = this
  have "\<exists>k\<ge>0. ''vda1'' = partition_name ''vda'' k" by (intro exI [of _ 1]) (simp add: f(14))
  moreover have "\<exists>k\<ge>0. ''vda2'' = partition_name ''vda'' k" by (intro exI [of _ 2]) (simp add: f(15))
  ultimately have "\<forall>r\<in>set (mc_disks example_machine). device_of (mc_disk_names example_machine) (dk_name r)"
    using f(16,17) by (simp add: example_machine_def device_of_def part_of_def)
  then have "\<forall>r\<in>set (mc_disks example_machine). disk_row_ok r \<and> device_of (mc_disk_names example_machine) (dk_name r)"
    using f(13) by blast
  moreover have "mc_load example_machine = (52, 58, 59)" "mc_uptime example_machine = 8912345"
    by (simp_all add: example_machine_def)
  ultimately show ?thesis using f(1-12) by (simp add: machine_ok_def)
qed

theorem Collect_reads_machine_witness:
  "\<exists>s. Collect (machine_os example_machine) plain_collector = Inr s
     \<and> CPU s = \<lparr>cpu_User = 259871, cpu_Nice = 1204, cpu_System = 89234, cpu_Idle = 8912340, cpu_IOWait = 12045,
          cpu_IRQ = 0, cpu_SoftIRQ = 4521, cpu_Steal = 3102\<rparr>
     \<and> mem_Total (Mem s) = 4025376 * 1024 \<and> mem_SwapFree (Mem s) = 2091004 * 1024
     \<and> load_One (LoadAvg s) = fl (52 / 100)
     \<and> Net s = \<lparr>net_RxBytes = 987654321 + 1000, net_TxBytes = 87654321 + 2000, net_RxPackets = 1234567 + 10,
          net_TxPackets = 987654 + 20, net_RxErrors = 1, net_TxErrors = 2\<rparr>
     \<and> Disk s = \<lparr>disk_ReadBytes = 3456789 * 512, disk_WriteBytes = 8901234 * 512, disk_ReadOps = 45678, disk_WriteOps = 98765\<rparr>
     \<and> BootID s = ''3f2b1a9c-7d4e-4f81-9a2b-5c6d7e8f9a01''
     \<and> FS s = [\<lparr>fs_Mount = ''/'', fs_Total = 409600, fs_Used = 245760\<rparr>] \<and> \<bar>Uptime s - 89123450000000\<bar> \<le> 668"
proof -
  have "\<forall>rel. os_ReadFile (machine_os example_machine) (col_root plain_collector) rel = proc_file example_machine rel"
    "\<forall>p\<in>set (col_mounts plain_collector). os_Statfs (machine_os example_machine) p = Inr (mc_fs example_machine p)"
    "col_Usage plain_collector = None"
    by (simp_all add: machine_os_def plain_collector_def)
  from Collect_reads_machine [OF example_machine_ok this(1,3,2)] obtain up where
    c: "Collect (machine_os example_machine) plain_collector
      = Inr (sample_of example_machine (col_now (machine_os example_machine) plain_collector) (col_mounts plain_collector) up)"
    and up: "\<bar>up - mc_uptime example_machine * 10000000\<bar> \<le> 668" by blast
  have l: "nearest 52 = fl (52 / 100)" by (simp add: nearest_def fl_128)
  have v: "virtualIface ''lo''" "virtualIface ''docker0''" "virtualIface ''veth9a1b''"
    "\<not> virtualIface ''eth0''" "\<not> virtualIface ''eth1''" by code_simp+
  show ?thesis
    using c up l v by (simp add: sample_of_def example_machine_def memory_of_def kib_def net_sum_def nr_val_def disk_sum_def
        col_mounts_def plain_collector_def)
qed

end
