(* ===== verification/Cli.thy ===== *)
theory Cli
  imports Agent Storable "HOL-Library.Sublist"
begin

text \<open>
  The command (\<open>cmd/kloudy-agent/main.go\<close>): the flags and their defaults from the environment, the
  choice of what to do, the single sample, the loop that prints windows, and the exit code.  The
  library's part that decides it is here too: \<open>flag.Parse\<close>, \<open>ParseBool\<close>, \<open>ParseDuration\<close> and the
  indentation of \<open>json.Encoder\<close>.

  The arguments, the environment and, for each tick, the operating system and the outcome of the write
  to standard output are parameters.  Usage texts and log lines are not modelled, except that a failed
  sample of the printing loop is an event of its output.
\<close>

section \<open>Durations\<close>

fun leadingInt :: "int \<Rightarrow> string \<Rightarrow> (int \<times> string) option" where
  "leadingInt x [] = Some (x, [])"
| "leadingInt x (c # cs) =
     (if \<not> is_digit c then Some (x, c # cs)
      else if 922337203685477580 < x then None
      else let x' = x * 10 + digit_val c in
        if 9223372036854775808 < x' then None else leadingInt x' cs)"

text \<open>Digits of the fraction after an overflow are read and ignored.\<close>

fun leadingFraction :: "int \<Rightarrow> f64 \<Rightarrow> bool \<Rightarrow> string \<Rightarrow> int \<times> f64 \<times> string" where
  "leadingFraction x scale overflow [] = (x, scale, [])"
| "leadingFraction x scale overflow (c # cs) =
     (if \<not> is_digit c then (x, scale, c # cs)
      else if overflow \<or> 922337203685477580 < x then leadingFraction x scale True cs
      else let y = x * 10 + digit_val c in
        if 9223372036854775808 < y then leadingFraction x scale True cs
        else leadingFraction y (scale * Fin 10) False cs)"

definition unitMap :: "(string \<times> int) list" where
  "unitMap = [(''ns'', 1), (''us'', 1000), ([CHR 0xC2, CHR 0xB5, CHR ''s''], 1000),
     ([CHR 0xCE, CHR 0xBC, CHR ''s''], 1000), (''ms'', 1000000), (''s'', second), (''m'', minute), (''h'', hour)]"

definition unit_char :: "char \<Rightarrow> bool" where
  "unit_char c \<longleftrightarrow> c \<noteq> CHR ''.'' \<and> \<not> is_digit c"

lemma leadingInt_shorter: "leadingInt x s = Some (v, r) \<Longrightarrow> length r \<le> length s"
  by (induction s arbitrary: x) (auto simp: Let_def le_SucI split: if_splits)

lemma leadingFraction_shorter: "leadingFraction x sc ov s = (f, scale, r) \<Longrightarrow> length r \<le> length s"
  by (induction s arbitrary: x sc ov) (auto simp: Let_def le_SucI split: if_splits)

text \<open>The digits after the point, when there is one: their value, its scale, the rest, and whether there were any.\<close>

definition fraction :: "string \<Rightarrow> int \<times> f64 \<times> string \<times> bool" where
  "fraction s = (case s of [] \<Rightarrow> (0, Fin 1, [], False)
     | c # r \<Rightarrow> if c = CHR ''.''
         then (let (f, scale, s') = leadingFraction 0 (Fin 1) False r in (f, scale, s', length s' \<noteq> length r))
         else (0, Fin 1, s, False))"

lemma fraction_shorter: "fraction s = (f, scale, r, post) \<Longrightarrow> length r \<le> length s"
  by (auto simp: fraction_def dest!: leadingFraction_shorter split: list.splits if_splits prod.splits)

text \<open>One number with its unit, and the rest.\<close>

definition duration_part :: "string \<Rightarrow> (int \<times> string) option" where
  "duration_part s =
     (if s = [] \<or> unit_char (hd s) then None
      else case leadingInt 0 s of None \<Rightarrow> None
      | Some (v, s1) \<Rightarrow>
        (let (f, scale, s2, post) = fraction s1; u = takeWhile unit_char s2 in
         if length s1 = length s \<and> \<not> post then None
         else if u = [] then None
         else case map_of unitMap u of None \<Rightarrow> None
         | Some unit \<Rightarrow>
             if 9223372036854775808 div unit < v then None
             else let v = v * unit + (if 0 < f
                 then uint (to_u64 (of_i64 f * (of_i64 unit / scale))) else 0) in
               if 9223372036854775808 < v then None else Some (v, dropWhile unit_char s2)))"

lemma duration_part_shorter: "duration_part s = Some (v, r) \<Longrightarrow> length r < length s"
proof -
  assume p: "duration_part s = Some (v, r)"
  then obtain x s1 f scale s2 post where s: "leadingInt 0 s = Some (x, s1)" "fraction s1 = (f, scale, s2, post)"
    "takeWhile unit_char s2 \<noteq> []" "r = dropWhile unit_char s2"
    by (auto simp: duration_part_def Let_def split: if_splits option.splits prod.splits)
  then have "length r < length s2" by (simp add: length_dropWhile_less)
  with leadingInt_shorter [OF s(1)] fraction_shorter [OF s(2)] show ?thesis by simp
qed

text \<open>The sum is kept in 64 bits, as the library keeps it.\<close>

function duration_sum :: "int \<Rightarrow> string \<Rightarrow> int option" where
  "duration_sum d s = (if s = [] then Some d
     else case duration_part s of None \<Rightarrow> None
     | Some (v, r) \<Rightarrow> (let d = (d + v) mod 18446744073709551616 in
         if 9223372036854775808 < d then None else duration_sum d r))"
  by pat_completeness auto
termination
  by (relation "measure (\<lambda>(d, s). length s)") (auto dest: duration_part_shorter)

declare duration_sum.simps [simp del]

definition ParseDuration :: "string \<Rightarrow> duration option" where
  "ParseDuration s = (let (neg, t) = opt_sign s in
     if t = ''0'' then Some 0
     else if t = [] then None
     else case duration_sum 0 t of None \<Rightarrow> None
     | Some d \<Rightarrow> if neg then Some (- d) else if 9223372036854775807 < d then None else Some d)"

section \<open>Flags\<close>

definition DefaultSpoolDir :: string where "DefaultSpoolDir = ''/var/lib/kloudy-agent/spool''"

definition mountList_Set :: "string list \<Rightarrow> string \<Rightarrow> string list" where
  "mountList_Set m v = m @ [v]"

fun space_sep :: "string list \<Rightarrow> string" where
  "space_sep [] = []"
| "space_sep [x] = x"
| "space_sep (x # y # xs) = x @ CHR '' '' # space_sep (y # xs)"

definition mountList_String :: "string list \<Rightarrow> string" where
  "mountList_String m = ''['' @ space_sep m @ '']''"

definition envOr :: "(string \<Rightarrow> string) \<Rightarrow> string \<Rightarrow> string \<Rightarrow> string" where
  "envOr getenv key fallback = (if getenv key \<noteq> [] then getenv key else fallback)"

record options =
  op_root :: string
  op_interval :: duration
  op_window :: duration
  op_flush :: duration
  op_endpoint :: string
  op_token :: string
  op_spool :: string
  op_once :: bool
  op_print :: bool
  op_version :: bool
  op_mounts :: "string list"

definition default_options :: "(string \<Rightarrow> string) \<Rightarrow> options" where
  "default_options getenv = \<lparr>op_root = DefaultRoot, op_interval = second, op_window = DefaultWindow,
     op_flush = minute, op_endpoint = getenv ''KLOUDY_ENDPOINT'', op_token = getenv ''KLOUDY_TOKEN'',
     op_spool = envOr getenv ''KLOUDY_SPOOL_DIR'' DefaultSpoolDir, op_once = False, op_print = False,
     op_version = False, op_mounts = []\<rparr>"

definition ParseBool :: "string \<Rightarrow> bool option" where
  "ParseBool s = (if s \<in> {''1'', ''t'', ''T'', ''true'', ''TRUE'', ''True''} then Some True
     else if s \<in> {''0'', ''f'', ''F'', ''false'', ''FALSE'', ''False''} then Some False else None)"

text \<open>The flags that take a value, and those that are switches: how each sets the options.\<close>

definition value_flags :: "(string \<times> (string \<Rightarrow> options \<Rightarrow> options option)) list" where
  "value_flags =
     [(''root'', \<lambda>v p. Some (p\<lparr>op_root := v\<rparr>)),
      (''interval'', \<lambda>v p. map_option (\<lambda>d. p\<lparr>op_interval := d\<rparr>) (ParseDuration v)),
      (''window'', \<lambda>v p. map_option (\<lambda>d. p\<lparr>op_window := d\<rparr>) (ParseDuration v)),
      (''flush'', \<lambda>v p. map_option (\<lambda>d. p\<lparr>op_flush := d\<rparr>) (ParseDuration v)),
      (''endpoint'', \<lambda>v p. Some (p\<lparr>op_endpoint := v\<rparr>)),
      (''token'', \<lambda>v p. Some (p\<lparr>op_token := v\<rparr>)),
      (''spool'', \<lambda>v p. Some (p\<lparr>op_spool := v\<rparr>)),
      (''mount'', \<lambda>v p. Some (p\<lparr>op_mounts := mountList_Set (op_mounts p) v\<rparr>))]"

definition bool_flags :: "(string \<times> (bool \<Rightarrow> options \<Rightarrow> options)) list" where
  "bool_flags = [(''once'', \<lambda>b p. p\<lparr>op_once := b\<rparr>), (''print'', \<lambda>b p. p\<lparr>op_print := b\<rparr>),
     (''version'', \<lambda>b p. p\<lparr>op_version := b\<rparr>)]"

text \<open>The name and the value of an argument; \<open>None\<close> is a syntax error.\<close>

definition flag_name :: "string \<Rightarrow> (string \<times> string option) option" where
  "flag_name s =
     (let n = (if HasPrefix s ''--'' then drop 2 s else drop 1 s) in
      if n = [] \<or> hd n = CHR ''-'' \<or> hd n = CHR ''='' then None
      else Some (case Cut (CHR ''='') n of None \<Rightarrow> (n, None) | Some (k, v) \<Rightarrow> (k, Some v)))"

datatype flag_error = HelpRequested | BadFlag

text \<open>\<open>flag.Parse\<close>: the flags in order up to the first argument that is none; the rest is not looked at.\<close>

fun flag_Parse :: "string list \<Rightarrow> options \<Rightarrow> flag_error + options" where
  "flag_Parse [] p = Inr p"
| "flag_Parse (s # args) p =
     (if length s < 2 \<or> hd s \<noteq> CHR ''-'' \<or> s = ''--'' then Inr p
      else case flag_name s of None \<Rightarrow> Inl BadFlag
      | Some (k, value) \<Rightarrow>
        (case map_of bool_flags k of
           Some assign \<Rightarrow> (case (case value of None \<Rightarrow> Some True | Some v \<Rightarrow> ParseBool v) of
               None \<Rightarrow> Inl BadFlag | Some b \<Rightarrow> flag_Parse args (assign b p))
         | None \<Rightarrow>
           (case map_of value_flags k of
              None \<Rightarrow> Inl (if k = ''help'' \<or> k = ''h'' then HelpRequested else BadFlag)
            | Some assign \<Rightarrow>
                (case value of
                   Some v \<Rightarrow> (case assign v p of None \<Rightarrow> Inl BadFlag | Some q \<Rightarrow> flag_Parse args q)
                 | None \<Rightarrow>
                     (case args of [] \<Rightarrow> Inl BadFlag
                      | v # rest \<Rightarrow> (case assign v p of None \<Rightarrow> Inl BadFlag | Some q \<Rightarrow> flag_Parse rest q))))))"

section \<open>What to do\<close>

datatype command =
    Exit int
  | ShowVersion
  | Once Collector
  | PrintWindows Collector settings
  | NoCredentials
  | BadClient new_error
  | RunAgent string Agent Client

text \<open>The agent \<open>run\<close> builds; its aggregator is made when \<open>Run\<close> starts.\<close>

definition new_agent :: "Collector \<Rightarrow> settings \<Rightarrow> Agent" where
  "new_agent c s = \<lparr>ag_Collector = c, ag_Spool = \<lparr>sp_MaxBytes = 0, sp_OnDrop = True, sp_seq = 0\<rparr>,
     ag_Settings = s, ag_Backoff = \<lparr>Base = 0, Cap = 0, Rand = None\<rparr>, ag_MaxBatch = 0,
     ag_agg = new_aggregator 0, ag_failures = 0, ag_retryAt = 0\<rparr>"

definition run_options :: "string \<Rightarrow> options \<Rightarrow> command" where
  "run_options version p =
     (let collector = \<lparr>col_Root = op_root p, col_Mounts = op_mounts p, col_Now = None, col_Usage = None\<rparr>;
          settings = \<lparr>Interval = op_interval p, Flush = op_flush p, Window = op_window p\<rparr> in
      if op_version p then ShowVersion
      else if op_once p then Once collector
      else if op_print p then PrintWindows collector settings
      else if op_endpoint p = [] \<or> op_token p = [] then NoCredentials
      else case New (op_endpoint p) (op_token p) version of
        Inl e \<Rightarrow> BadClient e
      | Inr client \<Rightarrow> RunAgent (op_spool p) (new_agent collector settings) client)"

text \<open>Errors of the flags leave with 2, a request for help with 0, before anything is run.\<close>

definition run_command :: "string \<Rightarrow> (string \<Rightarrow> string) \<Rightarrow> string list \<Rightarrow> command" where
  "run_command version getenv args = (case flag_Parse args (default_options getenv) of
     Inl HelpRequested \<Rightarrow> Exit 0
   | Inl BadFlag \<Rightarrow> Exit 2
   | Inr p \<Rightarrow> run_options version p)"

section \<open>Standard output\<close>

datatype run_error = SampleError collect_error | FirstSample collect_error | EncodeFailed | WriteFailed

fun indent_lines :: "nat \<Rightarrow> string list \<Rightarrow> string" where
  "indent_lines k [] = []"
| "indent_lines k [x] = newline # replicate (2 * k) (CHR '' '') @ x"
| "indent_lines k (x # y # xs) = newline # replicate (2 * k) (CHR '' '') @ x @ CHR '','' # indent_lines k (y # xs)"

text \<open>The indented form: two spaces for every level, empty arrays and objects on one line.\<close>

fun render_indent :: "nat \<Rightarrow> json \<Rightarrow> string" where
  "render_indent k (JArr xs) = (if xs = [] then ''[]''
     else CHR ''['' # indent_lines (Suc k) (map (render_indent (Suc k)) xs) @ newline # replicate (2 * k) (CHR '' '') @ '']'')"
| "render_indent k (JObj ms) = (if ms = [] then ''{}''
     else CHR ''{'' # indent_lines (Suc k) (map (\<lambda>(n, v). quote n @ '': '' @ render_indent (Suc k) v) ms)
       @ newline # replicate (2 * k) (CHR '' '') @ ''}'')"
| "render_indent k j = render j"

definition writeJSON :: "bool \<Rightarrow> json option \<Rightarrow> run_error + string" where
  "writeJSON fails v = (case v of None \<Rightarrow> Inl EncodeFailed
     | Some j \<Rightarrow> if fails then Inl WriteFailed else Inr (render_indent 0 j @ [newline]))"

text \<open>A single raw sample.\<close>

definition run_once :: "osenv \<Rightarrow> bool \<Rightarrow> Collector \<Rightarrow> run_error + string" where
  "run_once os fails c = (case Collect os c of Inl e \<Rightarrow> Inl (SampleError e)
     | Inr s \<Rightarrow> writeJSON fails (sample_json s))"

section \<open>Printing windows\<close>

text \<open>
  A tick of the ticker or the cancellation, each with whether a write to standard output fails; what
  comes out is the text of a window or the warning that a sample failed.
\<close>

datatype print_event = Tick osenv bool | Done bool

datatype print_out = Printed string | Warned collect_error

datatype print_end = Printing Aggregator | Finished "run_error option" | PrintPanic

fun print_loop :: "Collector \<Rightarrow> print_event list \<Rightarrow> Aggregator \<Rightarrow> print_out list \<times> print_end" where
  "print_loop c [] agg = ([], Printing agg)"
| "print_loop c (Tick os fails # evs) agg =
     (case Collect os c of Inl e \<Rightarrow> apfst ((#) (Warned e)) (print_loop c evs agg)
      | Inr s \<Rightarrow>
        (case agg_Add s agg of
           (agg, None) \<Rightarrow> print_loop c evs agg
         | (agg, Some b) \<Rightarrow>
           (case writeJSON fails (bucket_json b) of
              Inl e \<Rightarrow> ([], Finished (Some e))
            | Inr t \<Rightarrow> apfst ((#) (Printed t)) (print_loop c evs agg))))"
| "print_loop c (Done fails # _) agg =
     (case snd (agg_Flush agg) of None \<Rightarrow> ([], Finished None)
      | Some b \<Rightarrow>
        (case writeJSON fails (bucket_json b) of
           Inl e \<Rightarrow> ([], Finished (Some e))
         | Inr t \<Rightarrow> ([Printed t], Finished None)))"

definition printWindows :: "osenv \<Rightarrow> Collector \<Rightarrow> settings \<Rightarrow> print_event list \<Rightarrow> print_out list \<times> print_end" where
  "printWindows os c s evs =
     (case Collect os c of Inl e \<Rightarrow> ([], Finished (Some (FirstSample e)))
      | Inr _ \<Rightarrow> if Interval s \<le> 0 then ([], PrintPanic)
          else print_loop c evs (new_aggregator (Window s)))"

text \<open>\<open>main\<close>: the text of an error of \<open>run\<close> goes to standard error, and the exit code is 1.\<close>

definition main_result :: "string option \<Rightarrow> string \<times> int" where
  "main_result err = (case err of None \<Rightarrow> ([], 0) | Some text \<Rightarrow> (''kloudy-agent: '' @ text @ [newline], 1))"

text \<open>The texts of the errors of \<open>New\<close>; \<open>detail\<close> is what the URL parser says.\<close>

definition new_error_text :: "string \<Rightarrow> new_error \<Rightarrow> string" where
  "new_error_text detail e = (case e of
     EndpointError \<Rightarrow> ''ship: endpoint: '' @ detail
   | NotHttps scheme \<Rightarrow> ''ship: endpoint must be https, got '' @ [CHR 0x22] @ scheme @ [CHR 0x22]
   | NoHost \<Rightarrow> ''ship: endpoint has no host''
   | NoToken \<Rightarrow> ''ship: token is empty'')"

text \<open>The commands that end at once: standard output, standard error and the exit code.\<close>

definition immediate_result :: "string \<Rightarrow> string \<Rightarrow> command \<Rightarrow> (string \<times> string \<times> int) option" where
  "immediate_result version detail c = (case c of
     ShowVersion \<Rightarrow> Some (version @ [newline], main_result None)
   | NoCredentials \<Rightarrow> Some ([], main_result (Some ''--endpoint and --token are required (or use --print)''))
   | BadClient e \<Rightarrow> Some ([], main_result (Some (new_error_text detail e)))
   | _ \<Rightarrow> None)"

section \<open>Flags set what they name\<close>

lemma Cut_found: "x \<notin> set k \<Longrightarrow> Cut x (k @ x # v) = Some (k, v)"
  by (induction k) auto

lemma Cut_none: "x \<notin> set k \<Longrightarrow> Cut x k = None"
  by (induction k) auto

definition plain_name :: "string \<Rightarrow> bool" where
  "plain_name k \<longleftrightarrow> k \<noteq> [] \<and> hd k \<noteq> CHR ''-'' \<and> CHR ''='' \<notin> set k"

lemma flag_name_forms:
  assumes "plain_name k"
  shows "flag_name (CHR ''-'' # k @ CHR ''='' # v) = Some (k, Some v)"
    and "flag_name (CHR ''-'' # CHR ''-'' # k @ CHR ''='' # v) = Some (k, Some v)"
    and "flag_name (CHR ''-'' # k) = Some (k, None)"
    and "flag_name (CHR ''-'' # CHR ''-'' # k) = Some (k, None)"
proof -
  obtain c cs where k: "k = c # cs" using assms by (cases k) (auto simp: plain_name_def)
  with assms have c: "c \<noteq> CHR ''-''" "c \<noteq> CHR ''=''" "CHR ''='' \<notin> set cs" by (auto simp: plain_name_def)
  have n: "Cut (CHR ''='') (k @ CHR ''='' # v) = Some (k, v)" "Cut (CHR ''='') k = None"
    using assms by (simp_all add: plain_name_def Cut_found Cut_none)
  show "flag_name (CHR ''-'' # k @ CHR ''='' # v) = Some (k, Some v)"
    and "flag_name (CHR ''-'' # CHR ''-'' # k @ CHR ''='' # v) = Some (k, Some v)"
    and "flag_name (CHR ''-'' # k) = Some (k, None)"
    and "flag_name (CHR ''-'' # CHR ''-'' # k) = Some (k, None)"
    using n c by (simp_all add: flag_name_def HasPrefix_def Let_def k)
qed

lemma value_flag_names:
  assumes "map_of value_flags k = Some assign"
  shows "plain_name k" and "map_of bool_flags k = None"
proof -
  have "k \<in> set (map fst value_flags)" using assms by (force dest: map_of_SomeD)
  moreover have "\<forall>k\<in>set (map fst value_flags). plain_name k \<and> map_of bool_flags k = None"
    by (simp add: value_flags_def bool_flags_def plain_name_def)
  ultimately show "plain_name k" "map_of bool_flags k = None" by blast+
qed

text \<open>
  A flag with a value can be written with one dash or two and with its value after an equals
  sign or in the next argument: all four forms set the same option and go on with the rest, and a
  value the flag refuses ends the program.
\<close>

theorem flag_spellings:
  assumes "map_of value_flags k = Some assign"
  shows "map (\<lambda>args. flag_Parse args p) [(''-'' @ k @ ''='' @ v) # args, (''--'' @ k @ ''='' @ v) # args,
       (''-'' @ k) # v # args, (''--'' @ k) # v # args]
     = replicate 4 (case assign v p of None \<Rightarrow> Inl BadFlag | Some q \<Rightarrow> flag_Parse args q)"
proof -
  note n = value_flag_names [OF assms(1)]
  then have "k \<noteq> []" by (simp add: plain_name_def)
  then have l: "0 < length k" by simp
  have "k \<noteq> ''-''" using n(1) by (auto simp: plain_name_def)
  moreover have "k @ CHR ''='' # v \<noteq> ''-''" using l by (cases k) auto
  ultimately show ?thesis
    using n(2) assms(1) l
    by (simp add: flag_name_forms [OF n(1)] numeral_eq_Suc split: option.splits)
qed

theorem flag_spellings_witness:
  "flag_Parse [''--mount'', ''/data'', ''-mount=/home''] (default_options (\<lambda>_. []))
     = Inr ((default_options (\<lambda>_. []))\<lparr>op_mounts := [''/data'', ''/home'']\<rparr>)"
proof -
  have m: "map_of value_flags ''mount'' = Some (\<lambda>v p. Some (p\<lparr>op_mounts := mountList_Set (op_mounts p) v\<rparr>))"
    by (simp add: value_flags_def)
  show ?thesis
    using flag_spellings [OF m, of "default_options (\<lambda>_. [])" "''/data''" "[''-mount=/home'']"]
      flag_spellings [OF m, of "(default_options (\<lambda>_. []))\<lparr>op_mounts := [''/data'']\<rparr>" "''/home''" "[]"]
    by (simp add: mountList_Set_def default_options_def numeral_eq_Suc)
qed

section \<open>Where the credentials come from\<close>

lemma flag_name_suffix: "flag_name s = Some (k, Some v) \<Longrightarrow> suffix v s"
proof -
  assume n: "flag_name s = Some (k, Some v)"
  have cut: "Cut x t = Some (a, b) \<Longrightarrow> t = a @ x # b" for x t a b
    by (induction t arbitrary: a) (auto split: if_splits)
  obtain m where "Cut (CHR ''='') m = Some (k, v)" "suffix m s"
    using n by (auto simp: flag_name_def Let_def suffix_drop split: if_splits option.splits prod.splits)
  then show ?thesis using cut by (metis suffix_appendI suffix_order.trans suffix_ConsI suffix_order.refl)
qed

text \<open>An option that is a string holds what it held or the end of an argument.\<close>

definition from_args :: "string list \<Rightarrow> string \<Rightarrow> string \<Rightarrow> bool" where
  "from_args args old new \<longleftrightarrow> new = old \<or> (\<exists>s\<in>set args. suffix new s)"

lemma value_flag_strings:
  assumes "map_of value_flags k = Some assign" "assign v p = Some q"
  shows "(op_token q = op_token p \<or> op_token q = v) \<and> (op_endpoint q = op_endpoint p \<or> op_endpoint q = v)"
  using assms by (auto simp: value_flags_def split: if_splits)

lemma bool_flag_strings:
  assumes "map_of bool_flags k = Some assign"
  shows "op_token (assign b p) = op_token p \<and> op_endpoint (assign b p) = op_endpoint p"
  using assms by (auto simp: bool_flags_def split: if_splits)

lemma flag_Parse_strings:
  "flag_Parse args p = Inr q \<Longrightarrow> from_args args (op_token p) (op_token q) \<and> from_args args (op_endpoint p) (op_endpoint q)"
proof (induction args p rule: flag_Parse.induct)
  case (1 p)
  then show ?case by (simp add: from_args_def)
next
  case (2 s args p)
  show ?case
  proof (cases "length s < 2 \<or> hd s \<noteq> CHR ''-'' \<or> s = ''--''")
    case True
    with "2.prems" show ?thesis by (auto simp: from_args_def)
  next
    case go: False
    with "2.prems" obtain k val where n: "flag_name s = Some (k, val)" by (auto split: option.splits)
    show ?thesis
    proof (cases "map_of bool_flags k")
      case (Some assign)
      with "2.prems" go n obtain b where b: "(case val of None \<Rightarrow> Some True | Some v \<Rightarrow> ParseBool v) = Some b"
        "flag_Parse args (assign b p) = Inr q" by (auto split: option.splits)
      from "2.IH"(3) [OF go n refl Some b] bool_flag_strings [OF Some] show ?thesis
        by (auto simp: from_args_def)
    next
      case nb: None
      with "2.prems" go n obtain assign where a: "map_of value_flags k = Some assign" by (auto split: option.splits)
      show ?thesis
      proof (cases val)
        case (Some v)
        with "2.prems" go n nb a obtain p' where p': "assign v p = Some p'" "flag_Parse args p' = Inr q"
          by (auto split: option.splits)
        have "suffix v s" using n Some flag_name_suffix by blast
        with "2.IH"(2) [OF go n refl nb a Some p'] value_flag_strings [OF a p'(1)] show ?thesis
          by (auto simp: from_args_def)
      next
        case None
        with "2.prems" go n nb a obtain v rest p1 where r: "args = v # rest" "assign v p = Some p1"
          "flag_Parse rest p1 = Inr q" by (auto split: option.splits list.splits)
        from "2.IH"(1) [OF go n refl nb a None r] value_flag_strings [OF a r(2)] show ?thesis
          by (auto simp: from_args_def r(1))
      qed
    qed
  qed
qed

text \<open>
  C25.  The agent runs only with an https endpoint that has a host and with a token.  Both come from
  the environment unless the command line gives them: a token set in the environment file need not
  appear among the arguments.
\<close>

theorem run_agent_credentials:
  assumes "run_command version getenv args = RunAgent dir a c"
  shows "(\<exists>host. url_Parse (Endpoint c) = Some (''https'', host) \<and> host \<noteq> []) \<and> Token c \<noteq> [] \<and> Version c = version
     \<and> from_args args (getenv ''KLOUDY_TOKEN'') (Token c) \<and> from_args args (getenv ''KLOUDY_ENDPOINT'') (Endpoint c)"
proof -
  obtain p where p: "flag_Parse args (default_options getenv) = Inr p" "run_options version p = RunAgent dir a c"
    using assms by (auto simp: run_command_def split: sum.splits flag_error.splits)
  then have n: "New (op_endpoint p) (op_token p) version = Inr c"
    by (auto simp: run_options_def Let_def split: if_splits sum.splits)
  then have "Endpoint c = op_endpoint p \<and> Token c = op_token p \<and> Version c = version \<and> op_token p \<noteq> []
      \<and> (\<exists>host. url_Parse (op_endpoint p) = Some (''https'', host) \<and> host \<noteq> [])"
    by (auto simp: New_def split: option.splits if_splits)
  with flag_Parse_strings [OF p(1)] show ?thesis by (simp add: default_options_def)
qed

definition example_getenv :: "string \<Rightarrow> string" where
  "example_getenv k = (if k = ''KLOUDY_TOKEN'' then ''s3cret'' else if k = ''KLOUDY_ENDPOINT'' then ''https://k/i'' else [])"

lemma example_New: "New ''https://k/i'' ''s3cret'' ''dev'' = Inr \<lparr>Endpoint = ''https://k/i'', Token = ''s3cret'', Version = ''dev''\<rparr>"
  by code_simp

lemma example_run_command:
  "run_command ''dev'' example_getenv [] = RunAgent DefaultSpoolDir
     (new_agent \<lparr>col_Root = DefaultRoot, col_Mounts = [], col_Now = None, col_Usage = None\<rparr>
       \<lparr>Interval = second, Flush = minute, Window = DefaultWindow\<rparr>)
     \<lparr>Endpoint = ''https://k/i'', Token = ''s3cret'', Version = ''dev''\<rparr>"
  by (simp add: run_command_def run_options_def default_options_def example_getenv_def envOr_def example_New)

theorem run_agent_credentials_witness:
  "from_args [] ''s3cret'' ''s3cret'' \<and> (\<exists>host. url_Parse ''https://k/i'' = Some (''https'', host) \<and> host \<noteq> [])"
  using run_agent_credentials [OF example_run_command] by (simp add: example_getenv_def)

section \<open>Durations are durations\<close>

lemma duration_sum_range:
  "0 \<le> d \<Longrightarrow> d \<le> 9223372036854775808 \<Longrightarrow> duration_sum d s = Some e \<Longrightarrow> 0 \<le> e \<and> e \<le> 9223372036854775808"
proof (induction d s rule: duration_sum.induct)
  case (1 d s)
  show ?case
  proof (cases "s = []")
    case True
    with 1 show ?thesis by (simp add: duration_sum.simps [of d "[]"])
  next
    case False
    with "1.prems"(3) obtain v r where p: "duration_part s = Some (v, r)"
      by (subst (asm) duration_sum.simps) (auto split: option.splits)
    let ?d = "(d + v) mod 18446744073709551616"
    have "\<not> 9223372036854775808 < ?d" "duration_sum ?d r = Some e"
      using "1.prems"(3) False p by (subst (asm) duration_sum.simps, auto simp: Let_def split: if_splits)+
    with "1.IH" [OF False p refl refl] show ?thesis by simp
  qed
qed

text \<open>
  A duration the command line accepts fits a \<open>time.Duration\<close>: what the sums and products of
  \<open>ParseDuration\<close> could push out of 64 bits is refused.
\<close>

theorem ParseDuration_range:
  assumes "ParseDuration s = Some d"
  shows "- 9223372036854775808 \<le> d \<and> d < 9223372036854775808"
proof -
  obtain neg t where t: "opt_sign s = (neg, t)" by (cases "opt_sign s")
  show ?thesis
  proof (cases "t = ''0''")
    case True
    with assms t show ?thesis by (simp add: ParseDuration_def)
  next
    case False
    with assms t obtain e where e: "duration_sum 0 t = Some e" "d = (if neg then - e else e)"
      "\<not> neg \<longrightarrow> \<not> 9223372036854775807 < e"
      by (auto simp: ParseDuration_def split: if_splits option.splits)
    with duration_sum_range [of 0 t e] show ?thesis by auto
  qed
qed

theorem ParseDuration_range_witness:
  "\<exists>d. ParseDuration ''1h30m0.5s'' = Some d \<and> d = 5400500000000 \<and> d < 9223372036854775808"
proof -
  have "ParseDuration ''1h30m0.5s'' = Some 5400500000000" by code_simp
  with ParseDuration_range [OF this] show ?thesis by simp
qed

section \<open>Periods from the command line\<close>

text \<open>
  The periods are not checked: an interval or a flush period of zero or less is accepted, and
  once the first sample can be read the agent panics instead of reporting an error.
\<close>

theorem bad_period_panics:
  assumes "run_command version getenv args = RunAgent dir a c"
    and "flag_Parse args (default_options getenv) = Inr p" and "op_interval p \<le> 0 \<or> op_flush p \<le> 0"
    and "Collect (en_os env) (ag_Collector a) = Inr s"
  shows "rn_phase (Run_start env now (a, w)) = Panicked"
proof -
  have "Interval (ag_Settings a) = op_interval p \<and> Flush (ag_Settings a) = op_flush p"
    using assms(1,2) by (auto simp: run_command_def run_options_def new_agent_def Let_def split: if_splits sum.splits)
  with assms(3) show ?thesis by (intro Run_panics_on_bad_period [OF _ assms(4)]) simp
qed

lemma zero_interval_options:
  "flag_Parse [''--interval=0s''] (default_options example_getenv) = Inr ((default_options example_getenv)\<lparr>op_interval := 0\<rparr>)"
proof -
  have "flag_name ''--interval=0s'' = Some (''interval'', Some ''0s'')" "ParseDuration ''0s'' = Some 0" by code_simp+
  then show ?thesis by (simp add: value_flags_def bool_flags_def)
qed

theorem bad_period_panics_witness:
  "\<exists>a c. run_command ''dev'' example_getenv [''--interval=0s''] = RunAgent DefaultSpoolDir a c
     \<and> rn_phase (Run_start (calm_env accepting) 0 (a, example_world)) = Panicked"
proof -
  let ?col = "\<lparr>col_Root = DefaultRoot, col_Mounts = [], col_Now = None, col_Usage = None\<rparr>"
  have r: "run_command ''dev'' example_getenv [''--interval=0s''] = RunAgent DefaultSpoolDir
      (new_agent ?col \<lparr>Interval = 0, Flush = minute, Window = DefaultWindow\<rparr>)
      \<lparr>Endpoint = ''https://k/i'', Token = ''s3cret'', Version = ''dev''\<rparr>"
    by (simp only: run_command_def zero_interval_options sum.case)
      (simp add: run_options_def default_options_def example_getenv_def envOr_def example_New)
  have "case Collect (en_os (calm_env accepting)) ?col of Inr _ \<Rightarrow> True | Inl _ \<Rightarrow> False" by code_simp
  then obtain s where "Collect (en_os (calm_env accepting)) ?col = Inr s" by (auto split: sum.splits)
  with bad_period_panics [OF r zero_interval_options] r show ?thesis by (simp add: new_agent_def)
qed

section \<open>Printing windows prints the aggregation\<close>

definition window_text :: "Bucket \<Rightarrow> string" where
  "window_text b = render_indent 0 (the (bucket_json b)) @ [newline]"

definition printed :: "print_out list \<Rightarrow> string list" where
  "printed ps = List.map_filter (\<lambda>p. case p of Printed t \<Rightarrow> Some t | Warned e \<Rightarrow> None) ps"

lemma printed_simps [simp]:
  "printed [] = []" "printed (Printed t # ps) = t # printed ps" "printed (Warned e # ps) = printed ps"
  by (simp_all add: printed_def map_filter_def)

lemma writeJSON_bucket: "bucket_json b \<noteq> None \<Longrightarrow> writeJSON False (bucket_json b) = Inr (window_text b)"
  by (auto simp: writeJSON_def window_text_def)

lemma print_loop_output:
  "\<forall>b\<in>set (agg_output agg (samples_of c oss)). bucket_json b \<noteq> None \<Longrightarrow>
     printed (fst (print_loop c (map (\<lambda>os. Tick os False) oss @ [Done False]) agg))
       = map window_text (agg_output agg (samples_of c oss))
     \<and> snd (print_loop c (map (\<lambda>os. Tick os False) oss @ [Done False]) agg) = Finished None"
proof (induction oss arbitrary: agg)
  case Nil
  then show ?case by (cases "snd (agg_Flush agg)") (simp_all add: agg_output_Nil writeJSON_bucket)
next
  case (Cons os oss)
  show ?case
  proof (cases "Collect os c")
    case (Inl e)
    with Cons show ?thesis by simp
  next
    case (Inr s)
    obtain agg' out where a: "agg_Add s agg = (agg', out)" by (cases "agg_Add s agg")
    show ?thesis
    proof (cases out)
      case None
      with Cons Inr a show ?thesis by (simp add: agg_output_Cons)
    next
      case (Some b)
      with Cons.prems Inr a have "bucket_json b \<noteq> None"
        "\<forall>b\<in>set (agg_output agg' (samples_of c oss)). bucket_json b \<noteq> None"
        by (simp_all add: agg_output_Cons)
      with Cons.IH [of agg'] Some Inr a show ?thesis by (simp add: agg_output_Cons writeJSON_bucket)
    qed
  qed
qed

text \<open>
  C24.  The printing mode prints the aggregation and nothing else: stopped after any number of ticks,
  it has printed one indented document per window that the aggregator makes of the samples that could
  be read, in order, the unfinished window last, and it ends without an error.
\<close>

theorem printWindows_output:
  assumes "Collect os c = Inr s" and "0 < Interval cfg"
    and "\<forall>b\<in>set (agg_output (new_aggregator (Window cfg)) (samples_of c oss)). bucket_json b \<noteq> None"
  shows "\<exists>out. printWindows os c cfg (map (\<lambda>os. Tick os False) oss @ [Done False]) = (out, Finished None)
     \<and> printed out = map window_text (agg_output (new_aggregator (Window cfg)) (samples_of c oss))"
  using print_loop_output [OF assms(3)] assms(1,2) by (simp add: printWindows_def prod_eq_iff)

text \<open>The same machine a second later.\<close>

definition later_os :: osenv where
  "later_os = example_os\<lparr>os_ReadFile := (\<lambda>root rel. if rel = ''stat'' then Some ''cpu 2 4 6 8 10 12 14 16''
     else os_ReadFile example_os root rel), os_Now := unix_epoch + second\<rparr>"

lemma example_samples:
  "\<exists>p s. Collect example_os plain_collector = Inr p \<and> Collect later_os plain_collector = Inr s \<and> derivable p s
     \<and> At s = unix_epoch + second \<and> BootID s = ''boot-1'' \<and> map fs_Mount (FS s) = [''/''] \<and> load_One (LoadAvg s) = Fin (1/2)"
proof -
  have "case (Collect example_os plain_collector, Collect later_os plain_collector) of
      (Inr p, Inr s) \<Rightarrow> derivable p s \<and> At s = unix_epoch + second \<and> BootID s = ''boot-1''
        \<and> map fs_Mount (FS s) = [''/''] \<and> load_One (LoadAvg s) = Fin (1/2) | _ \<Rightarrow> False" by code_simp
  then show ?thesis by (auto split: sum.splits)
qed

lemma sample_ok_of:
  assumes "time_ok (Truncate (At s) (10 * second))" "time_ok (Truncate (At s) (10 * second) + 10 * second)"
    and "BootID s = ''boot-1''" "map fs_Mount (FS s) = [''/'']" "load_One (LoadAvg s) = Fin (1/2)"
  shows "sample_ok (10 * second) s"
proof -
  have "(1/2::rat) \<le> 2 powi 1000" using powi_le [of 0 1000] by (simp del: powi_le)
  moreover have "representable (1/2)" using representable_powi [of "- 1"] by (simp add: power_int_minus field_simps)
  moreover have "\<forall>x\<in>set (FS s). fs_Mount x = ''/''" using assms(4) by (cases "FS s") auto
  ultimately show ?thesis using assms by (auto simp: sample_ok_def filesystem_ok_def byte_def)
qed

lemma example_sample_ok:
  assumes "At s = unix_epoch + second" "BootID s = ''boot-1''" "map fs_Mount (FS s) = [''/'']" "load_One (LoadAvg s) = Fin (1/2)"
  shows "sample_ok (10 * second) s"
proof -
  have "time_ok (Truncate (unix_epoch + second) (10 * second))"
    "time_ok (Truncate (unix_epoch + second) (10 * second) + 10 * second)" unfolding time_ok_def by code_simp+
  with assms show ?thesis by (intro sample_ok_of) simp_all
qed

theorem printWindows_output_witness:
  "\<exists>out. printWindows example_os plain_collector \<lparr>Interval = second, Flush = minute, Window = 10 * second\<rparr>
       [Tick example_os False, Tick later_os False, Done False] = (out, Finished None) \<and> length (printed out) = 1"
proof -
  obtain p s where c: "Collect example_os plain_collector = Inr p" "Collect later_os plain_collector = Inr s"
    "derivable p s" and s: "sample_ok (10 * second) s"
    using example_samples example_sample_ok by (elim exE conjE) metis
  obtain r where r: "Derive p s = Some r" using Derive_defined [of p s] c(3) by auto
  let ?cfg = "\<lparr>Interval = second, Flush = minute, Window = 10 * second\<rparr>"
  have w: "agg_window (new_aggregator (10 * second)) = 10 * second"
    by (simp add: agg_window_def new_aggregator_def second_def)
  have "agg_output (new_aggregator (10 * second)) [p, s] = [bucket_of (10 * second) [(r, s)]]"
    using agg_output_groups [of "[s]" "10 * second" p] r unfolding w by simp
  then have e: "agg_output (new_aggregator (Window ?cfg)) (samples_of plain_collector [example_os, later_os])
      = [bucket_of (10 * second) [(r, s)]]" using c by simp
  have "bucket_ok (bucket_of (10 * second) [(r, s)])" using s r by (intro bucket_of_ok) auto
  then have b: "bucket_json (bucket_of (10 * second) [(r, s)]) \<noteq> None" using bucket_codes by (auto simp: codes_def)
  have i: "0 < Interval ?cfg" by (simp add: second_def)
  from printWindows_output [OF c(1) i, of "[example_os, later_os]", unfolded e] b show ?thesis by auto
qed

end
