(* ===== verification/Spec2Isabelle.thy ===== *)
theory Spec2Isabelle
  imports Interleaving Uploading Procfs Cli
begin

text \<open>
  The kloudy agent reads the load of a Linux machine, aggregates it into windows, keeps the windows in
  a queue on disk and uploads them.  This development models all of its Go code under \<open>src/cmd\<close> and
  \<open>src/internal\<close> but the tests, and proves what makes each part correct and what the parts promise
  together.

  How the parts work together.  \<open>main.go\<close> reads the flags and builds the agent.  The loop of
  \<open>agent.go\<close> runs on two tickers.  At a tick of the sampler it has \<open>collect\<close> read \<open>/proc\<close> and gives
  the sample to the aggregator of \<open>metrics\<close>, which derives rates from consecutive samples and returns
  a window when one is complete; that window goes to the \<open>spool\<close>.  At a tick of the uploader it reads
  the oldest windows from the spool, has the client of \<open>ship\<close> post them, discards them when they are
  acknowledged or refused for good, and adopts the schedule in the reply (\<open>wire\<close>).  At the end the
  window in progress is stored and everything is offered once more.

  Theories, from the ground up, with the code each one models:
  \<^item> \<open>Prelude\<close>: machine types and wrap-around; lists.  \<open>Float64\<close>: binary64 with rounding to nearest
    even, and the locale \<open>rounding\<close> with what the metrics need of it.
  \<^item> \<open>GoTime\<close>, \<open>GoText\<close>, \<open>TimeText\<close>, \<open>Json\<close>: the parts of the standard library that the code uses,
    down to the bytes of a document; \<open>JsonText\<close> and \<open>FloatText\<close> show that written text reads back.
  \<^item> \<open>Sample\<close> (\<open>collect/sample.go\<close>) and \<open>Collect\<close> (\<open>collect/proc.go\<close>, \<open>collect.go\<close>, \<open>usage.go\<close>):
    the parsers of \<open>/proc\<close> as functions from text to an error or the counters, and \<open>Collect\<close>.
    \<open>Totals\<close>: the sums over interfaces and disks, with the locale \<open>line_totals\<close> for the loop both share.
    \<open>Procfs\<close>: the files of a whole machine as the kernel prints them, and what \<open>Collect\<close> reads there.
  \<^item> \<open>Derive\<close> (\<open>metrics/derive.go\<close>) and \<open>Bucket\<close> (\<open>metrics/bucket.go\<close>): rates, the running
    statistic, windows and the aggregator, with a specification that groups the derivable intervals.
    \<open>Storable\<close>: every window emitted can be written.
  \<^item> \<open>Wire\<close> (\<open>wire/wire.go\<close>): the configuration, its bounds and \<open>Apply\<close>.
  \<^item> \<open>Codec\<close>: the struct tags of \<open>bucket.go\<close>, \<open>sample.go\<close> and \<open>wire.go\<close>, and \<open>Stat.MarshalJSON\<close>.
    \<open>CodecLaws\<close>: the locale \<open>field_codec\<close>, the law of a codec, interpreted on every codec of a window.
  \<^item> \<open>Spool\<close> (\<open>spool/spool.go\<close>): the queue on disk, with a fault for every system call, and the
    locale \<open>window_queue\<close> with what the loop relies on.
  \<^item> \<open>Backoff\<close> and \<open>Ship\<close> (\<open>ship/backoff.go\<close>, \<open>ship.go\<close>): delays, the client and its failures.
  \<^item> \<open>Agent\<close> (\<open>agent/agent.go\<close>): the handlers by state passing and \<open>Run\<close> as a transition system.
    \<open>Uploading\<close>: the interface \<open>Uploader\<close> as the locale \<open>upload_service\<close>, interpreted on the client.
    \<open>Accounting\<close>: what becomes of a queued window in the course of a run, and which names the run gives.
    \<open>Delivery\<close>: one addition and one upload of a batch on a machine whose disk works.  \<open>Interleaving\<close>: what
    it has delivered at every moment, in any order of samples and uploads.
  \<^item> \<open>Cli\<close> (\<open>cmd/kloudy-agent/main.go\<close>): flags, defaults from the environment, modes, output, exit.
  \<^item> This theory: the properties that cross the parts.

  How state and operations correspond.  A struct is a record with the fields of the code, a pointer
  that may be nil an option, an operation that changes a struct a function that returns it changed, an
  error a constructor of a sum.  A panic is a state of the run: of \<open>NewTicker\<close> and \<open>Reset\<close> for a period
  that is not positive, and of the \<open>make\<close> in \<open>Peek\<close> for a batch size below zero.  Unsigned counters are
  64-bit words, \<open>int\<close> and \<open>time.Duration\<close> are integers with the wrap-around written out, instants are
  nanoseconds since the zero time.  Strings are lists of bytes.  The file system of the spool is an association list; the log of the agent is a
  list of events.

  What comes from outside is a parameter: the contents of \<open>/proc\<close> and the answers of \<open>statfs\<close>, the
  clock, the random source, the environment and the arguments, the failure of every system call of
  the spool and of a write to standard output, and for a request what \<open>http.Client.Do\<close> and reading
  the body give.  Redirects happen within that answer.  The compressor is a parameter that nothing
  looks at.

  What the lemmas show.  Of a part: the exact condition under which it succeeds, what it returns then,
  what it leaves alone otherwise.  Of the collector: it reads what the kernel prints, whole.  Of the
  aggregator: it refines the grouping, conserves samples, and its statistics are exact or bounded under
  every rounding.  Of the codecs: encoding and decoding give the value back, statistics rounded.  Of the
  spool: the order of the queue, atomic publication, losses at the front only.  Of the loop: it never
  panics, no window disappears without a word in the log unless its name is given again, an outage loses
  nothing, a failed batch is sent again, a backlog drains, shutdown sends the queue in one batch, and on a
  machine whose disk works a run is a queue: answered windows, queued windows and the one in progress are at
  every moment the windows left by earlier processes and those of the samples, each once and in order.
  Where the code departs from its own comments there is a theorem that exhibits it: a negative busy share, a wrapped schedule, an
  overwritten window, an unreported drop, a spread that spreads nothing, totals cut short by a long line.

  Fuel and bounds.  Every function here terminates.  The JSON parser runs on fuel of twice the number
  of tokens and one more, which the round trip shows to be enough for every document written; like the
  decoder it refuses nesting beyond 10000.  The search for the fewest decimals of a float runs on at
  most 1384 steps, and ends with a text that reads back for every finite value.  The doubling of the
  backoff and the division of digits are structural or have a measure.

  Not modelled: file modes, the texts of usage, of the log and of most errors, the network and the
  compressor (parameters), and the delivery of signals (an action of the run).  The round trips of
  documents are proved for strings of valid UTF-8; what the codec does with other bytes, the
  replacement character, is in the model.  The order of delivery is proved for a window width that does
  not change: after a change the first window may start before the last one, and its name sorts before.
  It is proved for windows left behind that started before the first new one: a process started again
  within one window may give a name that is taken, which has its own theorem.
  Tests, the unit file and the install script are not part of the program's logic.
\<close>

section \<open>Through the spool and out\<close>

text \<open>
  C4.  A window survives the spool: what \<open>json.Marshal\<close> writes of a bucket, \<open>json.Unmarshal\<close> reads
  back with every field exact, but for the statistics, which come back rounded to two decimals and
  without their counts.
\<close>

theorem window_survives_spool:
  assumes "bucket_ok b"
  shows "\<exists>s. marshal_bucket b = Some s \<and> unmarshal_bucket s = Some (stored b)"
  using assms by (rule marshal_stored)

lemma time_ok_epoch: "time_ok unix_epoch" "time_ok (unix_epoch + 10 * second)" "time_ok 0"
  unfolding time_ok_def by code_simp+

lemma moderate_small: "\<bar>x\<bar> \<le> 1 \<Longrightarrow> moderate (Fin x)"
  using powi_le [of 0 1000] by (simp add: moderate_def del: powi_le)

definition example_window :: Bucket where
  "example_window = example_bucket\<lparr>b_Samples := 2, b_BootID := ''boot-1'',
     b_CPUBusy := \<lparr>s_Min = Fin 0, s_Avg = Fin (1/8), s_Max = Fin (1/4), s_N = 2\<rparr>,
     b_FS := [\<lparr>fs_Mount = ''/'', fs_Total = 100, fs_Used = 40\<rparr>]\<rparr>"

lemma example_window_ok: "bucket_ok example_window"
  using time_ok_epoch moderate_small [of 0] moderate_small [of "1/8"] moderate_small [of "1/4"]
  by (simp add: bucket_ok_def example_window_def example_bucket_def new_bucket_def stat_ok_def zero_stat_def
      filesystem_ok_def int_ok_def byte_def)

lemma round2_eighth: "round2 (Fin (1/8)) = fl (13/100)"
  by code_simp

theorem window_survives_spool_witness:
  "\<exists>s b. marshal_bucket example_window = Some s \<and> unmarshal_bucket s = Some b
     \<and> b_BootID b = ''boot-1'' \<and> s_Avg (b_CPUBusy b) = fl (13/100) \<and> s_N (b_CPUBusy b) = 0"
  using window_survives_spool [OF example_window_ok] round2_eighth
  by (auto simp: stored_def store_bucket_def store_stat_def example_window_def new_bucket_def zero_stat_def)

text \<open>The document of a statistic that was stored.\<close>

definition small_stat :: "Stat \<Rightarrow> bool" where
  "small_stat s \<longleftrightarrow> small (s_Min s) \<and> small (s_Avg s) \<and> small (s_Max s)"

lemma Stat_MarshalJSON_stored: "small_stat s \<Longrightarrow> Stat_MarshalJSON (store_stat s y) = Stat_MarshalJSON s"
  unfolding Stat_MarshalJSON_def
  by (rule enc_struct_cong)
    (auto simp: store_stat_def small_stat_def round2_round2 stat_tags_def f64_field_def)

definition small_stats :: "Bucket \<Rightarrow> bool" where
  "small_stats b \<longleftrightarrow> (\<forall>s\<in>set [b_CPUBusy b, b_CPUIOWait b, b_CPUSteal b, b_CPUUser b, b_CPUSystem b,
     b_MemUsed b, b_SwapUsed b, b_Load1 b, b_NetRx b, b_NetTx b, b_DiskRead b, b_DiskWrite b]. small_stat s)"

text \<open>
  C16.  The platform receives the window as it was first written: the document of the window read back
  from the spool is the document of the original, byte for byte.  Rounding again changes nothing as
  long as the values stay below twenty tera, far above any rate or memory size the agent meets.
\<close>

theorem upload_equals_spooled:
  assumes "bucket_ok b" and "small_stats b"
    and "marshal_bucket b = Some s" and "unmarshal_bucket s = Some b'"
  shows "marshal_bucket b' = Some s"
proof -
  have "b' = stored b" using marshal_stored [OF assms(1)] assms(3,4) by simp
  moreover have "bucket_json (stored b) = bucket_json b"
    using assms(2) unfolding bucket_json_def
    by (intro enc_struct_cong)
      (auto simp: bucket_tags_def stored_def store_bucket_def small_stats_def Stat_MarshalJSON_stored
        time_field_def int_field_def str_field_def stat_field_def u64_field_def slice_field_def struct_field_def)
  ultimately show ?thesis using assms(3) by (simp add: marshal_bucket_def)
qed

theorem upload_equals_spooled_witness:
  "\<exists>s b. marshal_bucket example_window = Some s \<and> unmarshal_bucket s = Some b \<and> b \<noteq> example_window
     \<and> marshal_bucket b = Some s"
proof -
  obtain s where s: "marshal_bucket example_window = Some s" "unmarshal_bucket s = Some (stored example_window)"
    using marshal_stored [OF example_window_ok] by blast
  have "small_stats example_window"
    by (simp add: small_stats_def small_stat_def small_def example_window_def example_bucket_def new_bucket_def zero_stat_def)
  from upload_equals_spooled [OF example_window_ok this s] s
  show ?thesis by (intro exI [of _ s] exI [of _ "stored example_window"])
      (auto simp: stored_def store_bucket_def store_stat_def example_window_def new_bucket_def zero_stat_def
        dest: arg_cong [where f = b_CPUBusy])
qed

section \<open>An added window is read back\<close>


lemma example_window_name: "entry_name 1 example_window = ''00000000000000000000-000001.json''"
  by code_simp


section \<open>Shutdown\<close>

text \<open>
  C6.  Shutting down loses nothing: the window in progress is stored behind the queued ones, under a name
  that is new and sorts last, and even in the middle of a backoff one batch is sent, once: the first
  \<open>maxBatch\<close> windows of the queue, which is all of it unless more are waiting.  Acknowledged or rejected
  for good, these windows leave the queue; refused or unreachable, everything waits for the next start.
  An older window is dropped only when the queue and the new window do not fit under the cap, and then
  that is reported.
\<close>

theorem shutdown_delivers:
  assumes "agg_current (ag_agg a) = Some b" "b_Samples b \<noteq> 0" "bucket_ok b"
    and "w_disk w = Some d" "dir_ok d" "quiet (en_add env)" "map_of d (''tmp-'' @ ft_suffix (en_add env)) = None"
    and "n = entry_name (sp_seq (ag_Spool a) + 1) b" "map_of d n = None" "\<forall>m\<in>set (names_of d). m < n"
    and "quiet (en_peek env)" "quiet (en_discard env)" "0 \<le> en_now env"
  shows "\<exists>k q batch w'. snd (shutdown env (a, w)) = w'
     \<and> q = drop k (queue_of d) @ [(n, stored b)] \<and> batch = map snd (take (nat (maxBatch a)) q)
     \<and> (bytes_in d (names_of d) + window_bytes b \<le> maxBytes (ag_Spool a) \<longrightarrow> k = 0)
     \<and> (0 < k \<and> sp_OnDrop (ag_Spool a) \<longrightarrow> (\<exists>j. DroppedOldest j \<in> set (w_log w')))
     \<and> batches (w_log w') = batches (w_log w) @ [batch]
     \<and> disk_queue (w_disk w') = (if \<exists>e. en_send env batch = Inl e \<and> error_kind e \<noteq> Rejected then q
          else drop (nat (maxBatch a)) q)"
proof -
  obtain p where p: "marshal_bucket b = Some p" using marshal_stored [OF assms(3)] by blast
  obtain d' k j where ad: "Add (en_add env) b (ag_Spool a) (Some d) = ((ag_Spool a)\<lparr>sp_seq := sp_seq (ag_Spool a) + 1\<rparr>,
        Some d', None, if 0 < j \<and> sp_OnDrop (ag_Spool a) then [j] else [])"
    "dir_ok d'" "queue_of d' = drop k (queue_of d) @ [(n, stored b)]"
    "bytes_in d (names_of d) + int (length p) \<le> maxBytes (ag_Spool a) \<longrightarrow> k = 0" "j = 0 \<longrightarrow> k = 0"
    using Add_queue [OF assms(5,6,7,3) p assms(8-10)] by blast
  let ?agg = "(ag_agg a)\<lparr>agg_current := None\<rparr>"
  let ?l = "if 0 < j \<and> sp_OnDrop (ag_Spool a) then [DroppedOldest j] else []"
  have fl: "agg_Flush (ag_agg a) = (?agg, Some b)" using assms(1,2) by (simp add: agg_Flush_def)
  obtain a1 w1 where ps: "persist (en_add env) b (a\<lparr>ag_agg := ?agg\<rparr>, w) = (a1, w1)"
    by (cases "persist (en_add env) b (a\<lparr>ag_agg := ?agg\<rparr>, w)")
  have a1: "agg_current (ag_agg a1) = None" "w_disk w1 = Some d'"
    using persist_frame [OF ps] assms(4) ad by auto
  have l1: "w_log w1 = w_log w @ ?l" using ps assms(4) ad(1) by (auto simp: persist_def split: if_splits)
  let ?a2 = "a1\<lparr>ag_retryAt := 0\<rparr>"
  have mb: "maxBatch ?a2 = maxBatch a" using persist_frame [OF ps] by (auto simp: maxBatch_def)
  note pq = quiet_simps [OF assms(11)] and dq = quiet_simps [OF assms(12)]
  have c: "can_upload env (?a2, w1)" using a1(2) ad(2,3) assms(13) pq dq by (simp add: can_upload_def)
  obtain a3 w3 ch where up: "upload env (?a2, w1) = ((a3, w3), ch)" by (metis surj_pair)
  have ag: "agg_current (ag_agg ?a2) = None" using a1 by simp
  have b: "batch_of (?a2, w1) = take (nat (maxBatch a)) (queue_of d')" unfolding batch_of_def mb prod.case by (simp add: a1(2))
  note ua = upload_batch [OF c ag, unfolded up fst_conv snd_conv b mb]
  have ok: "disk_ok (w_disk (snd (?a2, w1)))" using a1(2) ad(2) by simp
  have lg: "DroppedOldest j \<in> set (w_log w3)" if "0 < k" "sp_OnDrop (ag_Spool a)"
    using conjunct1 [OF upload_log [OF ok up]] that ad(5) l1 by (auto simp: log_grows_def)
  have sh: "snd (shutdown env (a, w)) = w3\<lparr>w_log := w_log w3 @ [stop_event (en_stats env) (w_disk w3)]\<rparr>"
    by (simp add: shutdown_def fl persist_opt_def ps up log_event_def)
  have st: "batches [stop_event (en_stats env) (w_disk w3)] = []" "batches ?l = []"
    by (auto simp: stop_event_def split: sum.split)
  have "window_bytes b = int (length p)" using p by (simp add: window_bytes_def)
  with ua ad(3,4) lg l1 st show ?thesis
    unfolding sh by (intro exI [of _ k] exI [of _ "queue_of d'"] exI conjI) (auto simp: a1(2))
qed

definition stopping_agent :: Agent where
  "stopping_agent = example_agent\<lparr>ag_agg := (new_aggregator (10 * second))\<lparr>agg_current := Some example_window\<rparr>,
     ag_retryAt := unix_epoch + 900 * second\<rparr>"

theorem shutdown_delivers_witness:
  "\<exists>w. w = snd (shutdown (calm_env accepting) (stopping_agent, \<lparr>w_disk = Some [], w_log = []\<rparr>))
     \<and> batches (w_log w) = [[stored example_window]] \<and> disk_queue (w_disk w) = []"
proof -
  let ?env = "calm_env accepting" and ?w = "\<lparr>w_disk = Some [], w_log = []\<rparr> :: world"
  have a: "agg_current (ag_agg stopping_agent) = Some example_window" "ag_Spool stopping_agent = example_spool"
    "maxBatch stopping_agent = 360"
    by (simp_all add: stopping_agent_def example_agent_def maxBatch_def DefaultMaxBatch_def)
  have s: "b_Samples example_window \<noteq> 0" by (simp add: example_window_def)
  have q: "quiet (en_add ?env)" "quiet (en_peek ?env)" "quiet (en_discard ?env)" "0 \<le> en_now ?env"
    using quiet_example by (simp_all add: calm_env_def)
  have r: "en_send ?env bs \<noteq> Inl e" for bs e by (simp add: calm_env_def accepting_def)
  have w: "w_disk ?w = Some []" by simp
  show ?thesis
    using shutdown_delivers [OF a(1) s example_window_ok w empty_dir(1) q(1) _ refl _ _ q(2-4)]
    by (auto simp: empty_dir a r)
qed

section \<open>From the samples to the platform\<close>

lemma run_in_order:
  assumes "run_acts acts (Run_start env now (a, w)) = Some r"
    and "\<forall>act\<in>set acts. works (Window (ag_Settings a)) act"
    and "0 < Interval (ag_Settings a)" and "0 < Flush (ag_Settings a)"
    and "w_disk w = Some d" and "left_behind t d" and "unix_epoch \<le> t"
    and "w_log w = []" and "sp_seq (ag_Spool a) = 0" and "sp_OnDrop (ag_Spool a)"
    and "taken (ag_Collector a) acts = s # ss" and "sorted (map At ss)"
    and "w' = agg_window (new_aggregator (Window (ag_Settings a)))"
    and "int (length ss) < 9223372036854775807" and "length (group w' [] (intervals s ss)) < 1000000"
    and "\<forall>x\<in>set ss. sample_ok w' x \<and> t \<le> Truncate (At x) w'
       \<and> Truncate (At x) w' < unix_epoch + 9223372036854775808"
  shows "(\<exists>k. DroppedOldest k \<in> set (w_log (snd (rn_state r))))
     \<or> (\<exists>rest. map snd (queue_of d) @ map stored (map (bucket_of w') (group w' [] (intervals s ss)))
           = answered (w_log (snd (rn_state r))) @ map snd (queue_at (rn_state r)) @ map stored rest
         \<and> length rest \<le> 1 \<and> (rn_phase r = Returned None \<longrightarrow> rest = []))"
proof -
  let ?g = "new_aggregator (Window (ag_Settings a))" and ?c = "ag_Collector a"
  have nil: "run_acts [] r = Some r" by simp
  note rf = run_flows [OF assms(1) nil, unfolded append_Nil2, OF assms(2-16) refl refl refl]
  from rf(3) obtain rest where
    "map (bucket_of w') (group w' [] (intervals s ss)) = spooled ?c ?g acts @ rest" "length rest \<le> 1"
    "rn_phase r = Returned None \<longrightarrow> rest = []" by blast
  with rf(1) show ?thesis
    by (auto simp: dropped_def flow_def fifo_def case_prod_beta intro!: exI [of _ rest])
qed

text \<open>
  C1.  On a machine whose disk works the agent is a queue.  Whatever the interleaving of samples and
  uploads, and whether the platform acknowledges, refuses, fails or cannot be reached, at every moment of a
  run: the windows answered for good, in the order of their batches, then the windows queued, then at most
  one in progress, are the windows that earlier processes left in the spool followed by those that the
  grouping of the samples gives, each once and in order.  After shutdown none is in progress.  The only
  exception is a cap too small for the queue, and then the log says so.

  This is claimed of a fresh process with a callback for drops and an existing spool directory, in which no
  addition and no removal fails, whose clock does not step back from one sample to the next, whose samples
  are in the years of \<open>UnixNano\<close> and can be represented, that takes at least one sample and gives fewer
  than a million windows; of replies that leave the width of the windows as it is; and of windows left
  behind that all started before the first new one.  So it does not speak of a restart within one window,
  where a name can be given again (C38), nor of a change of the width, after which a window can start
  before the last one.
\<close>

theorem delivered_in_order:
  assumes "run_acts acts (Run_start env now (a, w)) = Some r"
    and "\<forall>act\<in>set acts. works (Window (ag_Settings a)) act"
    and "0 < Interval (ag_Settings a)" and "0 < Flush (ag_Settings a)"
    and "w_disk w = Some d" and "left_behind t d" and "unix_epoch \<le> t"
    and "w_log w = []" and "sp_seq (ag_Spool a) = 0" and "sp_OnDrop (ag_Spool a)"
    and "taken (ag_Collector a) acts = s # ss" and "sorted (map At ss)"
    and "w' = agg_window (new_aggregator (Window (ag_Settings a)))"
    and "int (length ss) < 9223372036854775807" and "length (group w' [] (intervals s ss)) < 1000000"
    and "\<forall>x\<in>set ss. sample_ok w' x \<and> t \<le> Truncate (At x) w'
       \<and> Truncate (At x) w' < unix_epoch + 9223372036854775808"
  shows "(\<exists>k. DroppedOldest k \<in> set (w_log (snd (rn_state r))))
     \<or> (\<exists>rest. map snd (queue_of d) @ map stored (map (bucket_of w') (group w' [] (intervals s ss)))
           = answered (w_log (snd (rn_state r))) @ map snd (queue_at (rn_state r)) @ map stored rest
         \<and> length rest \<le> 1 \<and> (rn_phase r = Returned None \<longrightarrow> rest = []))"
  using assms by (rule run_in_order)

text \<open>
  C2.  What the samples say reaches the platform.  Under the conditions of C1, when the agent is stopped
  with less than a full batch in the spool and the platform accepts the last upload, then every window,
  those left by earlier processes and all those of the samples with the one in progress, was sent and
  answered for good, each once and in order, and the spool is empty; or the log says that the cap dropped
  windows.
\<close>

theorem samples_reach_platform:
  assumes "run_acts acts (Run_start env now (a, w)) = Some r1" and "run_act (Stop env') r1 = Some r"
    and "\<forall>act\<in>set (acts @ [Stop env']). works (Window (ag_Settings a)) act"
    and "0 < Interval (ag_Settings a)" and "0 < Flush (ag_Settings a)"
    and "w_disk w = Some d" and "left_behind t d" and "unix_epoch \<le> t"
    and "w_log w = []" and "sp_seq (ag_Spool a) = 0" and "sp_OnDrop (ag_Spool a)"
    and "taken (ag_Collector a) (acts @ [Stop env']) = s # ss" and "sorted (map At ss)"
    and "w' = agg_window (new_aggregator (Window (ag_Settings a)))"
    and "int (length ss) < 9223372036854775807" and "length (group w' [] (intervals s ss)) < 1000000"
    and "\<forall>x\<in>set ss. sample_ok w' x \<and> t \<le> Truncate (At x) w'
       \<and> Truncate (At x) w' < unix_epoch + 9223372036854775808"
    and "int (length (queue_at (rn_state r1))) < maxBatch (fst (rn_state r1))"
    and "quiet (en_peek env')" and "0 \<le> en_now env'" and "\<forall>bs. \<exists>resp. en_send env' bs = Inr resp"
  shows "(\<exists>k. DroppedOldest k \<in> set (w_log (snd (rn_state r))))
     \<or> answered (w_log (snd (rn_state r)))
         = map snd (queue_of d) @ map stored (map (bucket_of w') (group w' [] (intervals s ss)))
       \<and> queue_at (rn_state r) = []"
proof -
  let ?g = "new_aggregator (Window (ag_Settings a))" and ?c = "ag_Collector a" and ?W = "Window (ag_Settings a)"
  have stop: "run_acts [Stop env'] r1 = Some r" using assms(2) by simp
  note rf = run_flows [OF assms(1) stop assms(3-17) refl refl refl]
  have all: "run_acts (acts @ [Stop env']) (Run_start env now (a, w)) = Some r"
    using assms(1) stop by (simp add: run_acts_append)
  have ph: "rn_phase r = Returned None" using run_act_returns [OF assms(2)] by (simp add: is_stop_def)
  have "disk_ok (w_disk w)" using assms(6,7) by (simp add: left_behind_def)
  from run_state_ok [OF assms(4,5) this run_acts_reach [OF assms(1)]] run_act_active [OF assms(2)]
  have ok: "state_ok (rn_state r1)" by blast
  have "dropped (rn_state r) \<or> queue_at (rn_state r) = []"
    using rf(1)
  proof
    assume f: "flow ?W (dom (map_of d), map snd (queue_of d)) ?c (agg_after ?c ?g acts) (spooled ?c ?g acts) (rn_state r1)"
    have rd: "ready (dom (map_of d), map snd (queue_of d))
        (spooled ?c ?g acts @ snd (agg_act ?c (Stop env') (agg_after ?c ?g acts)))"
      using rf(2) by (simp add: spooled_append)
    have wk: "quiet (en_add env')" "steady ?W env'" using assms(3) by (simp_all add: works_def)
    have "rn_state r = shutdown env' (rn_state r1)"
      using assms(2) by (auto simp: run_act_def split: phase.splits if_splits)
    with shutdown_drains [OF f rd wk assms(19-21,18)] show ?thesis by simp
  next
    assume "dropped (rn_state r1)"
    then show ?thesis using dropped_grows run_act_grows [OF assms(2) ok] by blast
  qed
  with run_in_order [OF all assms(3-17)] ph show ?thesis by (auto simp: dropped_def)
qed

text \<open>
  An example: an earlier process left the window of the first ten seconds, then two samples are taken, a
  second apart, and the agent is stopped.
\<close>

definition sampling :: "osenv \<Rightarrow> time \<Rightarrow> action" where
  "sampling os now = SampleTick ((calm_env accepting)\<lparr>en_os := os\<lparr>os_Now := now\<rparr>\<rparr>)"

definition example_before_stop :: "action list" where
  "example_before_stop = [Pass (unix_epoch + minute), SpreadOver, sampling example_os (unix_epoch + 10 * second),
     Pass (unix_epoch + 2 * minute), sampling later_os (unix_epoch + 11 * second), Cancel]"

definition example_two_samples :: "action list" where
  "example_two_samples = example_before_stop @ [Stop (calm_env accepting)]"

lemma sampling_step:
  assumes "rn_phase r = Running" and "tk_ready (rn_sampler r)" and "rn_state r = (a, w)"
    and "Collect (os\<lparr>os_Now := t\<rparr>) (ag_Collector a) = Inr x" and "agg_Add x (ag_agg a) = (g, None)"
  shows "\<exists>r'. run_act (sampling os t) r = Some r' \<and> rn_phase r' = Running \<and> rn_now r' = rn_now r
    \<and> tk_next (rn_sampler r') = tk_next (rn_sampler r) \<and> rn_state r' = (a\<lparr>ag_agg := g\<rparr>, w)"
  using assms by (simp add: run_act_def sampling_def sample_def persist_opt_def)

lemma example_two_collect:
  "\<exists>p s. Collect (example_os\<lparr>os_Now := unix_epoch + 10 * second\<rparr>) plain_collector = Inr p
     \<and> Collect (later_os\<lparr>os_Now := unix_epoch + 11 * second\<rparr>) plain_collector = Inr s \<and> derivable p s
     \<and> sample_ok (10 * second) s \<and> At s = unix_epoch + 11 * second"
proof -
  have "case (Collect (example_os\<lparr>os_Now := unix_epoch + 10 * second\<rparr>) plain_collector,
      Collect (later_os\<lparr>os_Now := unix_epoch + 11 * second\<rparr>) plain_collector) of
      (Inr p, Inr s) \<Rightarrow> derivable p s \<and> At s = unix_epoch + 11 * second \<and> BootID s = ''boot-1''
        \<and> map fs_Mount (FS s) = [''/''] \<and> load_One (LoadAvg s) = Fin (1/2) | _ \<Rightarrow> False" by code_simp
  then obtain p s where c: "Collect (example_os\<lparr>os_Now := unix_epoch + 10 * second\<rparr>) plain_collector = Inr p"
    "Collect (later_os\<lparr>os_Now := unix_epoch + 11 * second\<rparr>) plain_collector = Inr s" "derivable p s"
    "At s = unix_epoch + 11 * second" "BootID s = ''boot-1''" "map fs_Mount (FS s) = [''/'']" "load_One (LoadAvg s) = Fin (1/2)"
    by (auto split: sum.splits)
  have "time_ok (Truncate (unix_epoch + 11 * second) (10 * second))"
    "time_ok (Truncate (unix_epoch + 11 * second) (10 * second) + 10 * second)" unfolding time_ok_def by code_simp+
  with c have "sample_ok (10 * second) s" by (intro sample_ok_of) simp_all
  with c show ?thesis by (intro exI [of _ p] exI [of _ s] conjI)
qed

lemma example_two_samples_taken:
  "\<exists>p s. taken plain_collector example_two_samples = [p, s] \<and> derivable p s \<and> sample_ok (10 * second) s
     \<and> At s = unix_epoch + 11 * second"
  using example_two_collect by (auto simp: example_two_samples_def example_before_stop_def sampling_def)

lemma example_before_stop_run:
  "\<exists>r a w. run_acts example_before_stop left_start = Some r \<and> rn_state r = (a, w) \<and> w_disk w = Some left_dir
     \<and> maxBatch a = 360 \<and> rn_phase r = Running \<and> rn_cancelled r"
proof -
  obtain p s where c: "Collect (example_os\<lparr>os_Now := unix_epoch + 10 * second\<rparr>) plain_collector = Inr p"
    "Collect (later_os\<lparr>os_Now := unix_epoch + 11 * second\<rparr>) plain_collector = Inr s" "derivable p s"
    using example_two_collect by blast
  obtain x where x: "Derive p s = Some x" using Derive_defined [of p s] c(3) by auto
  let ?g0 = "new_aggregator (10 * second)" and ?g1 = "(new_aggregator (10 * second))\<lparr>agg_prev := Some p\<rparr>"
  have g1: "agg_Add p ?g0 = (?g1, None)" by (simp add: agg_Add_def new_aggregator_def)
  obtain g2 where g2: "agg_Add s ?g1 = (g2, None)"
    using x by (simp add: agg_Add_def new_aggregator_def Let_def)
  have a: "ag_agg example_agent = ?g0" "ag_Collector example_agent = plain_collector" "ag_MaxBatch example_agent = 0"
    by (simp_all add: example_agent_def)
  note l = left_start_state
  obtain r1 where 1: "run_act (Pass (unix_epoch + minute)) left_start = Some r1" "rn_state r1 = rn_state left_start"
    "rn_phase r1 = rn_phase left_start" "rn_now r1 = unix_epoch + minute" "tk_ready (rn_sampler r1)"
    "tk_next (rn_sampler r1) \<le> unix_epoch + 2 * minute" "tk_period (rn_sampler r1) = second"
    by (simp add: run_act_def l ticker_at_def duration_defs)
  obtain w2 r2 where 2: "run_act SpreadOver r1 = Some r2" "rn_state r2 = (example_agent, w2)" "w_disk w2 = Some left_dir"
    "rn_phase r2 = Running" "rn_sampler r2 = rn_sampler r1" "rn_now r2 = unix_epoch + minute"
    using 1(2-4) by (simp add: run_act_def l enter_loop_def log_event_def)
  have "Collect (example_os\<lparr>os_Now := unix_epoch + 10 * second\<rparr>) (ag_Collector example_agent) = Inr p"
    "agg_Add p (ag_agg example_agent) = (?g1, None)" using c g1 by (simp_all only: a)
  from sampling_step [OF 2(4) _ 2(2) this] obtain r3 where 3: "run_act (sampling example_os (unix_epoch + 10 * second)) r2 = Some r3"
    "rn_phase r3 = Running" "rn_now r3 = unix_epoch + minute" "tk_next (rn_sampler r3) = tk_next (rn_sampler r1)"
    "rn_state r3 = (example_agent\<lparr>ag_agg := ?g1\<rparr>, w2)" using 1(5) 2(5,6) by auto
  obtain r4 where 4: "run_act (Pass (unix_epoch + 2 * minute)) r3 = Some r4" "rn_state r4 = rn_state r3" "rn_phase r4 = Running"
    "tk_ready (rn_sampler r4)"
    using 1(6) 3(2-4) by (simp add: run_act_def ticker_at_def duration_defs)
  have "Collect (later_os\<lparr>os_Now := unix_epoch + 11 * second\<rparr>) (ag_Collector (example_agent\<lparr>ag_agg := ?g1\<rparr>)) = Inr s"
    "agg_Add s (ag_agg (example_agent\<lparr>ag_agg := ?g1\<rparr>)) = (g2, None)" using c g2 by (simp_all add: a)
  from sampling_step [OF 4(3,4) _ this] obtain r5 where
    5: "run_act (sampling later_os (unix_epoch + 11 * second)) r4 = Some r5" "rn_phase r5 = Running"
    "rn_state r5 = (example_agent\<lparr>ag_agg := ?g1, ag_agg := g2\<rparr>, w2)" using 3(5) 4(2) by auto
  obtain r6 where "run_act Cancel r5 = Some r6" "rn_state r6 = rn_state r5" "rn_phase r6 = Running" "rn_cancelled r6"
    using 5(2) by (simp add: run_act_def)
  with 1 2 3 4 5 show ?thesis
    by (intro exI [of _ r6] exI [of _ "example_agent\<lparr>ag_agg := g2\<rparr>"] exI [of _ w2])
      (simp add: example_before_stop_def maxBatch_def a DefaultMaxBatch_def)
qed

lemma example_two_samples_run:
  "\<exists>r. run_acts example_two_samples left_start = Some r \<and> rn_phase r = Returned None"
proof -
  obtain r where r: "run_acts example_before_stop left_start = Some r" "rn_phase r = Running" "rn_cancelled r"
    using example_before_stop_run by blast
  then show ?thesis by (simp add: example_two_samples_def run_acts_append run_act_def)
qed

lemma left_dir_before: "left_behind (unix_epoch + 10 * second) left_dir"
proof -
  have "b_Start example_bucket = unix_epoch" by (simp add: example_bucket_def new_bucket_def)
  then show ?thesis
    by (auto simp: left_behind_def left_dir_def dir_ok_def second_def intro!: exI [of _ 1] exI [of _ example_bucket])
qed

text \<open>What both theorems ask of the example.\<close>

lemma example_run_ok:
  "\<exists>x s. taken (ag_Collector example_agent) example_two_samples = [x, s]
     \<and> (\<forall>act\<in>set example_two_samples. works (Window (ag_Settings example_agent)) act)
     \<and> (\<forall>y\<in>set [s]. sample_ok (10 * second) y \<and> unix_epoch + 10 * second \<le> Truncate (At y) (10 * second)
         \<and> Truncate (At y) (10 * second) < unix_epoch + 9223372036854775808)
     \<and> (\<exists>b. group (10 * second) [] (intervals x [s]) = [b] \<and> b_Samples (bucket_of (10 * second) b) = 1)"
proof -
  obtain p s where c: "taken plain_collector example_two_samples = [p, s]" "derivable p s" "sample_ok (10 * second) s"
    "At s = unix_epoch + 11 * second" using example_two_samples_taken by blast
  obtain x where x: "Derive p s = Some x" using Derive_defined [of p s] c(2) by auto
  have "\<forall>nm. \<not> ft_remove (en_discard (calm_env accepting)) nm" by (simp add: calm_env_def no_faults_def)
  moreover have "fst (Apply (Config resp) st) = st" if "en_send (calm_env accepting) bs = Inr resp" for bs resp st
    using that by (auto simp: calm_env_def accepting_def zero_response_def zero_config_def Apply_def config_fields_def)
  ultimately have "steady wd (calm_env accepting)" for wd by (auto simp: steady_def)
  then have wk: "\<forall>act\<in>set example_two_samples. works wd act" for wd
    using quiet_example by (simp add: example_two_samples_def example_before_stop_def sampling_def works_def calm_env_def)
  have "unix_epoch + 10 * second \<le> Truncate (unix_epoch + 11 * second) (10 * second)"
    "Truncate (unix_epoch + 11 * second) (10 * second) < unix_epoch + 9223372036854775808" by code_simp+
  moreover have "ag_Collector example_agent = plain_collector" by (simp add: example_agent_def)
  moreover have "b_Samples (bucket_of (10 * second) [(x, s)]) = 1" using bucket_of_Samples [of "[(x, s)]" "10 * second"] by simp
  ultimately show ?thesis using c wk x by (intro exI [of _ p] exI [of _ s]) simp
qed

lemma example_run_params:
  "w_disk (\<lparr>w_disk = Some left_dir, w_log = []\<rparr> :: world) = Some left_dir" "unix_epoch \<le> unix_epoch + 10 * second"
  "w_log (\<lparr>w_disk = Some left_dir, w_log = []\<rparr> :: world) = []"
  "sp_seq (ag_Spool example_agent) = 0" "sp_OnDrop (ag_Spool example_agent)"
  "10 * second = agg_window (new_aggregator (Window (ag_Settings example_agent)))"
  by (simp_all add: example_agent_def example_spool_def agg_window_def new_aggregator_def second_def)

theorem delivered_in_order_witness:
  "\<exists>r b. run_acts example_two_samples left_start = Some r \<and> b_Samples b = 1
     \<and> ((\<exists>k. DroppedOldest k \<in> set (w_log (snd (rn_state r))))
        \<or> [stored example_bucket, stored b] = answered (w_log (snd (rn_state r))) @ map snd (queue_at (rn_state r)))"
proof -
  obtain r where r: "run_acts example_two_samples left_start = Some r" "rn_phase r = Returned None"
    using example_two_samples_run by blast
  obtain x s b where e: "taken (ag_Collector example_agent) example_two_samples = [x, s]"
    "\<forall>act\<in>set example_two_samples. works (Window (ag_Settings example_agent)) act"
    "\<forall>y\<in>set [s]. sample_ok (10 * second) y \<and> unix_epoch + 10 * second \<le> Truncate (At y) (10 * second)
         \<and> Truncate (At y) (10 * second) < unix_epoch + 9223372036854775808"
    "group (10 * second) [] (intervals x [s]) = [b]" "b_Samples (bucket_of (10 * second) b) = 1"
    using example_run_ok by blast
  note p = example_run_params
  have s: "sorted (map At [s])" "int (length [s]) < 9223372036854775807" by simp_all
  have g: "length (group (10 * second) [] (intervals x [s])) < 1000000" unfolding e(4) by simp
  from delivered_in_order [OF r(1) [unfolded left_start_def] e(2) example_positive(1,2) p(1) left_dir_before p(2-5) e(1) s(1) p(6)
      s(2) g e(3)] r e(4,5) show ?thesis
    by (intro exI [of _ r] exI [of _ "bucket_of (10 * second) b"]) (auto simp: left_dir_queue(1))
qed

theorem samples_reach_platform_witness:
  "\<exists>r b. run_acts example_two_samples left_start = Some r \<and> b_Samples b = 1
     \<and> ((\<exists>k. DroppedOldest k \<in> set (w_log (snd (rn_state r))))
        \<or> answered (w_log (snd (rn_state r))) = [stored example_bucket, stored b] \<and> queue_at (rn_state r) = [])"
proof -
  obtain r1 a w where r1: "run_acts example_before_stop left_start = Some r1" "rn_state r1 = (a, w)" "w_disk w = Some left_dir"
    "maxBatch a = 360" "rn_phase r1 = Running" "rn_cancelled r1" using example_before_stop_run by blast
  then obtain r where r: "run_act (Stop (calm_env accepting)) r1 = Some r" by (simp add: run_act_def)
  obtain x s b where e: "taken (ag_Collector example_agent) example_two_samples = [x, s]"
    "\<forall>act\<in>set example_two_samples. works (Window (ag_Settings example_agent)) act"
    "\<forall>y\<in>set [s]. sample_ok (10 * second) y \<and> unix_epoch + 10 * second \<le> Truncate (At y) (10 * second)
         \<and> Truncate (At y) (10 * second) < unix_epoch + 9223372036854775808"
    "group (10 * second) [] (intervals x [s]) = [b]" "b_Samples (bucket_of (10 * second) b) = 1"
    using example_run_ok by blast
  note p = example_run_params and two = example_two_samples_def
  have s: "sorted (map At [s])" "int (length [s]) < 9223372036854775807" by simp_all
  have g: "length (group (10 * second) [] (intervals x [s])) < 1000000" unfolding e(4) by simp
  have q: "int (length (queue_at (rn_state r1))) < maxBatch (fst (rn_state r1))" using r1 by (simp add: left_dir_queue(1))
  have l: "quiet (en_peek (calm_env accepting))" "0 \<le> en_now (calm_env accepting)"
    "\<forall>bs. \<exists>resp. en_send (calm_env accepting) bs = Inr resp" using quiet_example by (simp_all add: calm_env_def accepting_def)
  from samples_reach_platform [OF r1(1) [unfolded left_start_def] r e(2) [unfolded two] example_positive(1,2) p(1) left_dir_before
      p(2-5) e(1) [unfolded two] s(1) p(6) s(2) g e(3) q l] r1(1) r e(4,5) show ?thesis
    by (intro exI [of _ r] exI [of _ "bucket_of (10 * second) b"])
      (auto simp: left_dir_queue(1) two run_acts_append)
qed

end
